(* ===== verification/Prelude.thy ===== *)
theory Prelude
  imports Main "HOL-Library.Word" "HOL-Library.Monad_Syntax" "HOL-Library.Signed_Division"
begin

unbundle bit_operations_syntax

text \<open>
  Shared vocabulary of the development: the C integer types as words, byte buffers, the few
  functions of the C library that the sources call, and the generic lemmas and fact
  collections that the component theories use.

  Conventions. A memory area that C code reaches through a pointer is a total function from
  offsets to bytes (\<open>buffer\<close>); every access whose bounds C does not guarantee is guarded in
  the model, and an access outside its array gives \<open>None\<close>, the outcome for undefined
  behaviour. Functions that return a status return it as an \<open>int\<close>, \<open>0\<close> and \<open>-1\<close> as in the
  sources.
\<close>

type_synonym u8 = "8 word"
type_synonym u16 = "16 word"
type_synonym u32 = "32 word"
type_synonym u64 = "64 word"
type_synonym byte = "8 word"
type_synonym buffer = "nat \<Rightarrow> byte"

named_theorems frame_simps \<open>what an operation leaves alone\<close>
named_theorems bit_facts \<open>bits of the bitmap words after an update\<close>

section \<open>The C library on buffers and strings\<close>

definition zero_buf :: buffer where
  "zero_buf = (\<lambda>_. 0)"

definition memcpy :: "buffer \<Rightarrow> nat \<Rightarrow> buffer \<Rightarrow> nat \<Rightarrow> nat \<Rightarrow> buffer" where
  "memcpy dst d src s n = (\<lambda>k. if d \<le> k \<and> k < d + n then src (s + (k - d)) else dst k)"

text \<open>The C string that starts a byte area, and equality as \<open>strcmp\<close> sees it.\<close>

definition cstr :: "byte list \<Rightarrow> byte list" where
  "cstr bs = takeWhile (\<lambda>b. b \<noteq> 0) bs"

definition strcmp_eq :: "byte list \<Rightarrow> byte list \<Rightarrow> bool" where
  "strcmp_eq a b \<longleftrightarrow> cstr a = cstr b"

section \<open>Little-endian integers in buffers\<close>

definition u32_at :: "buffer \<Rightarrow> nat \<Rightarrow> u32" where
  "u32_at b j = ucast (b (4 * j)) OR push_bit 8 (ucast (b (4 * j + 1)))
     OR push_bit 16 (ucast (b (4 * j + 2))) OR push_bit 24 (ucast (b (4 * j + 3)))"

definition u32_byte :: "u32 \<Rightarrow> nat \<Rightarrow> byte" where
  "u32_byte w k = ucast (drop_bit (8 * k) w)"

definition set_u32 :: "buffer \<Rightarrow> nat \<Rightarrow> u32 \<Rightarrow> buffer" where
  "set_u32 b j w = (\<lambda>k. if k div 4 = j then u32_byte w (k mod 4) else b k)"

definition u64_at :: "buffer \<Rightarrow> nat \<Rightarrow> u64" where
  "u64_at b i = ucast (b i) OR push_bit 8 (ucast (b (i + 1)))
     OR push_bit 16 (ucast (b (i + 2))) OR push_bit 24 (ucast (b (i + 3)))
     OR push_bit 32 (ucast (b (i + 4))) OR push_bit 40 (ucast (b (i + 5)))
     OR push_bit 48 (ucast (b (i + 6))) OR push_bit 56 (ucast (b (i + 7)))"

definition u64_byte :: "u64 \<Rightarrow> nat \<Rightarrow> byte" where
  "u64_byte w k = ucast (drop_bit (8 * k) w)"

section \<open>Lemmas on buffers\<close>

lemma memcpy_inside [simp]: "d \<le> k \<Longrightarrow> k < d + n \<Longrightarrow> memcpy dst d src s n k = src (s + (k - d))"
  by (simp add: memcpy_def)

lemma memcpy_outside [simp]: "k < d \<or> d + n \<le> k \<Longrightarrow> memcpy dst d src s n k = dst k"
  by (auto simp: memcpy_def)

lemma memcpy_zero_len [simp]: "memcpy dst d src s 0 = dst"
  by (auto simp: memcpy_def fun_eq_iff)

lemma cstr_no_nul: "0 \<notin> set bs \<Longrightarrow> cstr (bs @ 0 # cs) = bs"
  unfolding cstr_def by (subst takeWhile_append2) auto

lemma cstr_nul_free [simp]: "0 \<notin> set (cstr bs)"
  unfolding cstr_def by (auto dest: set_takeWhileD)

lemma cstr_append_stop: "0 \<in> set bs \<Longrightarrow> cstr (bs @ cs) = cstr bs"
  unfolding cstr_def by (rule takeWhile_append1) auto

lemma cstr_take: "length (cstr bs) < n \<Longrightarrow> cstr (take n bs) = cstr bs"
  unfolding cstr_def
  by (induction bs arbitrary: n) (auto simp: take_Cons' split: if_splits)

lemma cstr_replicate_0 [simp]: "cstr (replicate n 0) = []"
  by (cases n) (simp_all add: cstr_def)

lemma nth_update_notin: "k \<in> I \<Longrightarrow> i \<notin> I \<Longrightarrow> xs[i := v] ! k = xs ! k"
  by (metis nth_list_update_neq)

lemma upt_Suc_Cons: "[i ..< i + Suc n] = i # [Suc i ..< Suc i + n]"
  by (simp add: upt_rec)

section \<open>Round trips of the integer encodings\<close>

lemma bit_u32_byte: "bit (u32_byte w k) n \<longleftrightarrow> n < 8 \<and> bit w (8 * k + n)"
  by (auto simp: u32_byte_def bit_simps)

lemma bit_u64_byte: "bit (u64_byte w k) n \<longleftrightarrow> n < 8 \<and> bit w (8 * k + n)"
  by (auto simp: u64_byte_def bit_simps)

lemma u32_at_bytes:
  assumes "\<And>k. k < 4 \<Longrightarrow> b (4 * j + k) = u32_byte w k"
  shows "u32_at b j = w"
proof (rule bit_word_eqI)
  fix n assume n: "n < LENGTH(32)"
  have b: "b (4 * j) = u32_byte w 0" "b (4 * j + 1) = u32_byte w 1"
    "b (4 * j + 2) = u32_byte w 2" "b (4 * j + 3) = u32_byte w 3"
    using assms[of 0] assms[of 1] assms[of 2] assms[of 3] by simp_all
  consider "n < 8" | "8 \<le> n" "n < 16" | "16 \<le> n" "n < 24" | "24 \<le> n" "n < 32"
    using n by fastforce
  then show "bit (u32_at b j) n = bit w n"
    unfolding u32_at_def b
    by cases (auto simp: bit_simps bit_u32_byte)
qed

lemma u32_at_set_u32 [simp]: "u32_at (set_u32 b j w) j = w"
  by (rule u32_at_bytes) (simp add: set_u32_def)

lemma u32_at_set_u32_other [simp]:
  assumes "i \<noteq> j" shows "u32_at (set_u32 b j w) i = u32_at b i"
proof -
  have "set_u32 b j w (4 * i + k) = b (4 * i + k)" if "k < 4" for k
    using that assms by (simp add: set_u32_def)
  from this[of 0] this[of 1] this[of 2] this[of 3] show ?thesis
    by (simp add: u32_at_def)
qed

lemma u32_at_zero_buf [simp]: "u32_at zero_buf j = 0"
  by (simp add: u32_at_def zero_buf_def)

lemma bit_byte_lane:
  "bit (push_bit m (ucast (u64_byte w k) :: u64)) n \<longleftrightarrow>
     m \<le> n \<and> n < 64 \<and> n < m + 8 \<and> bit w (8 * k + (n - m))"
  by (auto simp: bit_simps bit_u64_byte)

lemma u64_at_bytes:
  assumes "\<And>k. k < 8 \<Longrightarrow> b (i + k) = u64_byte w k"
  shows "u64_at b i = w"
proof (rule bit_word_eqI)
  fix n assume n: "n < LENGTH(64)"
  have b: "b i = u64_byte w 0" "b (i + 1) = u64_byte w 1"
    "b (i + 2) = u64_byte w 2" "b (i + 3) = u64_byte w 3"
    "b (i + 4) = u64_byte w 4" "b (i + 5) = u64_byte w 5"
    "b (i + 6) = u64_byte w 6" "b (i + 7) = u64_byte w 7"
    using assms[of 0] assms[of 1] assms[of 2] assms[of 3]
      assms[of 4] assms[of 5] assms[of 6] assms[of 7] by simp_all
  have lane: "bit (push_bit m (ucast (u64_byte w k) :: u64)) n \<longleftrightarrow>
      bit w n \<and> m \<le> n \<and> n < m + 8" if "m = 8 * k" for k m
    using n that by (auto simp: bit_byte_lane)
  have lane0: "bit (ucast (u64_byte w 0) :: u64) n \<longleftrightarrow> bit w n \<and> n < 8"
    using lane[of 0 0] by simp
  have "bit (u64_at b i) n \<longleftrightarrow> bit w n \<and> (n < 8 \<or> 8 \<le> n \<and> n < 8 + 8 \<or> 16 \<le> n \<and> n < 16 + 8
      \<or> 24 \<le> n \<and> n < 24 + 8 \<or> 32 \<le> n \<and> n < 32 + 8 \<or> 40 \<le> n \<and> n < 40 + 8
      \<or> 48 \<le> n \<and> n < 48 + 8 \<or> 56 \<le> n \<and> n < 56 + 8)"
    unfolding u64_at_def b bit_or_iff lane0
    by (subst lane, simp)+ blast
  moreover have "n < 8 \<or> 8 \<le> n \<and> n < 8 + 8 \<or> 16 \<le> n \<and> n < 16 + 8
      \<or> 24 \<le> n \<and> n < 24 + 8 \<or> 32 \<le> n \<and> n < 32 + 8 \<or> 40 \<le> n \<and> n < 40 + 8
      \<or> 48 \<le> n \<and> n < 48 + 8 \<or> 56 \<le> n \<and> n < 56 + 8"
    using n by simp linarith
  ultimately show "bit (u64_at b i) n = bit w n"
    by blast
qed

section \<open>Words and shifts\<close>

lemma page_aligned_push: "push_bit 12 (drop_bit 12 (push_bit 12 p :: u64)) = push_bit 12 p"
  by (rule bit_word_eqI) (auto simp: bit_simps)

lemma push_bit_12_add: "push_bit 12 p + 4096 * q = (push_bit 12 (p + q) :: u64)"
  by (simp add: push_bit_eq_mult distrib_left mult.commute)

lemmas [bit_facts] = bit_set_bit_iff bit_unset_bit_iff possible_bit_word

lemma unat_u32_less: "unat (b :: u32) < 4294967296"
  using unsigned_less[of b, where 'a = nat] by simp

lemma unat_ucast_u32 [simp]: "unat (ucast (b :: u32) :: u64) = unat b"
  using unat_u32_less[of b] by (simp add: unsigned_ucast_eq take_bit_nat_eq_self)

lemma unat_u32_of_nat [simp]: "n < 2 ^ 32 \<Longrightarrow> unat (of_nat n :: u32) = n"
  by (simp add: unat_of_nat take_bit_nat_eq_self)

lemma unat_u64_of_nat: "n < 2 ^ 64 \<Longrightarrow> unat (of_nat n :: u64) = n"
  by (simp add: unat_of_nat take_bit_nat_eq_self)

end
