(* ===== verification/Frames.thy ===== *)
theory Frames
  imports Prelude "HOL-Library.Sublist"
begin

text \<open>
  Physical frames and page tables of gemOS (\<open>gemOS-a1/include/memory.h\<close>), shared by the
  theories on address spaces (\<open>Paging\<close>) and on system calls and faults (\<open>Syscalls\<close>).

  The frame allocator and \<open>osmap\<close> belong to the prebuilt kernel objects, so they are
  parameters, the record \<open>os\<close>: \<open>osmap\<close> gives the virtual address of a frame, and
  \<open>os_pfn_alloc\<close> answers an allocation request as a function of the requests made so far. What
  the code relies on is stated as \<open>osmap_ok\<close> (two frames are never mapped to one address) and
  \<open>frames_ok\<close> (a frame that is handed out is not in use, and is in the region asked for).
  A page is a function from an index below 512 to an entry; pages are found by their virtual
  address. \<open>table_of\<close> is the walk of the memory management unit.
\<close>

section \<open>Regions of physical memory\<close>

datatype region = OS_DS_REG | OS_PT_REG | USER_REG

definition REGION_OS_DS_START :: u64 where "REGION_OS_DS_START = 0x800000"
definition REGION_OS_PT_START :: u64 where "REGION_OS_PT_START = 0x2000000"
definition REGION_USER_START :: u64 where "REGION_USER_START = 0x6400000"
definition ENDMEM :: u64 where "ENDMEM = 0x20000000"

lemmas region_bounds = REGION_OS_DS_START_def REGION_OS_PT_START_def REGION_USER_START_def
  ENDMEM_def

definition get_mem_region :: "u32 \<Rightarrow> region option" where
  "get_mem_region pfn = (let address = push_bit 12 (ucast pfn :: u64) in
     if address < REGION_OS_DS_START \<or> address > ENDMEM then None
     else if REGION_OS_DS_START \<le> address \<and> address < REGION_OS_PT_START then Some OS_DS_REG
     else if REGION_OS_PT_START \<le> address \<and> address < REGION_USER_START then Some OS_PT_REG
     else Some USER_REG)"

section \<open>The segments of an address space\<close>

definition MM_SEG_CODE :: nat where "MM_SEG_CODE = 0"
definition MM_SEG_RODATA :: nat where "MM_SEG_RODATA = 1"
definition MM_SEG_DATA :: nat where "MM_SEG_DATA = 2"
definition MM_SEG_STACK :: nat where "MM_SEG_STACK = 3"

lemmas mm_segs = MM_SEG_CODE_def MM_SEG_RODATA_def MM_SEG_DATA_def MM_SEG_STACK_def

section \<open>The services of the kernel\<close>

datatype frame_event = Alloc region u32 | Free region u64

record os =
  osmap :: "u64 \<Rightarrow> u64"
  os_pfn_alloc :: "frame_event list \<Rightarrow> region \<Rightarrow> u32"

record frames =
  vm :: "u64 \<Rightarrow> nat \<Rightarrow> u64"
  hist :: "frame_event list"

definition pfn_alloc :: "os \<Rightarrow> region \<Rightarrow> frames \<Rightarrow> u32 \<times> frames" where
  "pfn_alloc os r s = (let p = os_pfn_alloc os (hist s) r in (p, s\<lparr>hist := Alloc r p # hist s\<rparr>))"

definition pfn_free :: "region \<Rightarrow> u64 \<Rightarrow> frames \<Rightarrow> frames" where
  "pfn_free r p s = s\<lparr>hist := Free r p # hist s\<rparr>"

definition set_entry :: "u64 \<Rightarrow> nat \<Rightarrow> u64 \<Rightarrow> frames \<Rightarrow> frames" where
  "set_entry a i e s = s\<lparr>vm := (vm s)(a := (vm s a)(i := e))\<rparr>"

definition zero_page :: "u64 \<Rightarrow> frames \<Rightarrow> frames" where
  "zero_page a s = s\<lparr>vm := (vm s)(a := (\<lambda>i. if i < 512 then 0 else vm s a i))\<rparr>"

text \<open>The frames in use after a history, newest event first.\<close>

fun live :: "frame_event list \<Rightarrow> (region \<times> u64) set" where
  "live [] = {}"
| "live (Alloc r p # h) = insert (r, ucast p) (live h)"
| "live (Free r p # h) = live h - {(r, p)}"

fun history :: "os \<Rightarrow> frame_event list \<Rightarrow> bool" where
  "history os [] = True"
| "history os (Alloc r p # h) = (p = os_pfn_alloc os h r \<and> history os h)"
| "history os (Free r p # h) = history os h"

definition osmap_ok :: "os \<Rightarrow> bool" where
  "osmap_ok os \<longleftrightarrow> (\<forall>p q. unat p < 2 ^ 20 \<and> unat q < 2 ^ 20 \<and> osmap os p = osmap os q \<longrightarrow> p = q)"

definition frames_ok :: "os \<Rightarrow> nat \<Rightarrow> bool" where
  "frames_ok os n \<longleftrightarrow> (\<forall>h r. history os h \<and> length h < n \<longrightarrow>
     get_mem_region (os_pfn_alloc os h r) = Some r \<and>
     ucast (os_pfn_alloc os h r) \<notin> snd ` live h)"

section \<open>The page-table walk\<close>

definition present :: "u64 \<Rightarrow> bool" where
  "present e \<longleftrightarrow> e AND 1 \<noteq> 0"

definition frame_of :: "u64 \<Rightarrow> u64" where
  "frame_of e = drop_bit 12 e"

definition entry :: "os \<Rightarrow> frames \<Rightarrow> u64 \<Rightarrow> nat \<Rightarrow> u64" where
  "entry os s p i = vm s (osmap os p) i"

fun table_of :: "os \<Rightarrow> frames \<Rightarrow> u64 \<Rightarrow> nat list \<Rightarrow> u64 option" where
  "table_of os s p [] = Some p"
| "table_of os s p (i # is) =
     (if present (entry os s p i) then table_of os s (frame_of (entry os s p i)) is else None)"

definition va_index :: "u64 \<Rightarrow> nat \<Rightarrow> nat" where
  "va_index va level = unat (drop_bit (3 + 9 * level) va AND 0x1FF)"

definition va_path :: "u64 \<Rightarrow> nat list" where
  "va_path va = [va_index va 4, va_index va 3, va_index va 2, va_index va 1]"

section \<open>Lemmas\<close>

lemma frames_simps [simp]:
  "hist (set_entry a i e s) = hist s" "hist (zero_page a s) = hist s"
  "vm (pfn_free r p s) = vm s" "hist (pfn_free r p s) = Free r p # hist s"
  by (simp_all add: set_entry_def zero_page_def pfn_free_def)

lemma vm_set_entry: "vm (set_entry a i e s) b j = (if b = a \<and> j = i then e else vm s b j)"
  by (simp add: set_entry_def)

lemma vm_zero_page: "vm (zero_page a s) b j = (if b = a \<and> j < 512 then 0 else vm s b j)"
  by (simp add: zero_page_def)

lemma va_index_less: "va_index va level < 512"
proof -
  have "drop_bit (3 + 9 * level) va AND 0x1FF = take_bit 9 (drop_bit (3 + 9 * level) va)"
    by (simp add: take_bit_eq_mask mask_eq_exp_minus_1)
  then show ?thesis
    unfolding va_index_def using take_bit_nat_less_exp[of 9 "unat (drop_bit (3 + 9 * level) va)"]
    by (simp add: unsigned_take_bit_eq)
qed

lemma va_path_simps [simp]: "length (va_path va) = 4" "\<forall>i\<in>set (va_path va). i < 512"
  by (simp_all add: va_path_def va_index_less)

lemma table_of_snoc:
  "table_of os s p (is @ [i]) = (case table_of os s p is of None \<Rightarrow> None
     | Some q \<Rightarrow> if present (entry os s q i) then Some (frame_of (entry os s q i)) else None)"
  by (induction "is" arbitrary: p) auto

lemma table_of_cong:
  assumes "\<And>q i. present (entry os s' q i) = present (entry os s q i)"
    and "\<And>q i. present (entry os s q i) \<Longrightarrow> frame_of (entry os s' q i) = frame_of (entry os s q i)"
  shows "table_of os s' p is = table_of os s p is"
  using assms by (induction "is" arbitrary: p) auto

lemma region_pfn_bound:
  assumes "get_mem_region p = Some r" shows "unat (ucast p :: u64) < 2 ^ 20"
proof -
  have u: "unat (ucast p :: u64) < 2 ^ 32" using unat_u32_less[of p] by simp
  have "unat (push_bit 12 (ucast p :: u64)) = 2 ^ 12 * unat p"
    using u by (simp add: push_bit_eq_mult unat_mult_lem[THEN iffD1])
  moreover have "push_bit 12 (ucast p :: u64) \<le> ENDMEM"
    using assms by (auto simp: get_mem_region_def Let_def split: if_splits)
  ultimately show ?thesis
    by (simp add: word_le_nat_alt ENDMEM_def)
qed

section \<open>Entries\<close>

lemma present_iff: "present e \<longleftrightarrow> bit e 0"
  by (simp add: present_def and_one_eq odd_iff_mod_2_eq_one bit_0 flip: odd_iff_mod_2_eq_one)

lemma bit_two: "bit (2 :: 'a :: len word) n \<longleftrightarrow> n = 1 \<and> 1 < LENGTH('a)"
  using bit_exp_iff[of 1 n, where 'a = "'a word"] by (auto simp: possible_bit_word)

lemma bit_five: "bit (5 :: u64) n \<longleftrightarrow> n = 0 \<or> n = 2"
proof -
  have five: "(5 :: u64) = 2 ^ 2 OR 1" by simp
  have "bit ((2 :: u64) ^ 2 OR 1) n \<longleftrightarrow> n = 0 \<or> n = 2"
    unfolding bit_or_iff bit_exp_iff bit_1_iff by (auto simp: possible_bit_word)
  then show ?thesis unfolding five .
qed

lemma bit_u32_small: "bit p n \<Longrightarrow> unat (p :: u32) < 2 ^ k \<Longrightarrow> n < k"
  by (metis bit_take_bit_iff take_bit_nat_eq_self_iff unsigned_take_bit_eq word_unat_eq_iff)

lemma access_word: "ucast (a AND 0x2 :: u32) = (if bit a 1 then 2 else 0 :: u64)"
  by (rule bit_word_eqI) (auto simp: bit_simps bit_two)

definition made :: "u64 \<Rightarrow> u64 \<Rightarrow> bool \<Rightarrow> bool" where
  "made e p w \<longleftrightarrow> present e \<and> frame_of e = p \<and> bit e 1 = w"

lemma made_leaf:
  assumes "unat p < 2 ^ 20"
  shows "made ((ucast (push_bit 12 p :: u32) OR 0x5) OR ucast (a AND 0x2 :: u32)) (ucast p) (bit a 1)"
proof -
  have "frame_of ((ucast (push_bit 12 p :: u32) OR 0x5) OR ucast (a AND 0x2 :: u32)) = ucast p"
    by (intro bit_word_eqI) (auto simp: frame_of_def access_word bit_simps bit_five bit_two
        dest: bit_imp_le_length bit_u32_small[OF _ assms])
  then show ?thesis
    by (auto simp: made_def present_iff bit_simps bit_five access_word bit_two)
qed

lemma made_table:
  assumes "unat p < 2 ^ 20"
  shows "made ((push_bit 12 (ucast (p :: u32)) OR 0x5) OR ucast (a AND 0x2 :: u32)) (ucast p) (bit a 1)"
proof -
  have "frame_of ((push_bit 12 (ucast p) OR 0x5) OR ucast (a AND 0x2 :: u32)) = ucast p"
    by (intro bit_word_eqI) (auto simp: frame_of_def access_word bit_simps bit_five bit_two
        dest: bit_imp_le_length bit_u32_small[OF _ assms])
  then show ?thesis
    by (auto simp: made_def present_iff bit_simps bit_five access_word bit_two)
qed

lemma made_kept:
  assumes "present e"
  shows "made (e OR ucast (a AND 0x2 :: u32)) (frame_of e) (bit e 1 \<or> bit a 1)"
proof -
  have "frame_of (e OR ucast (a AND 0x2 :: u32)) = frame_of e"
    by (intro bit_word_eqI) (auto simp: frame_of_def access_word bit_simps bit_two)
  then show ?thesis
    using assms by (auto simp: made_def present_iff bit_simps access_word bit_two)
qed

text \<open>The entry \<open>i\<close> of table \<open>t\<close> becomes \<open>e\<close>; a new table \<open>q\<close> is zeroed.\<close>

definition entry_set :: "os \<Rightarrow> frames \<Rightarrow> frames \<Rightarrow> u64 \<Rightarrow> nat \<Rightarrow> u64 option \<Rightarrow> bool" where
  "entry_set os s s' t i z \<longleftrightarrow> (\<forall>p j. unat p < 2 ^ 20 \<and> j < 512 \<and> (p, j) \<noteq> (t, i) \<longrightarrow>
     entry os s' p j = (if z = Some p then 0 else entry os s p j))"

lemma osmap_eq: "osmap_ok os \<Longrightarrow> unat p < 2 ^ 20 \<Longrightarrow> unat q < 2 ^ 20 \<Longrightarrow>
    osmap os p = osmap os q \<longleftrightarrow> p = q"
  unfolding osmap_ok_def by blast

section \<open>Page tables as maps from paths to frames\<close>

text \<open>
  A path is the list of indices from the root table downwards; a path of length four is a
  virtual page. \<open>tabs\<close> is the abstract view of the tables: the frame at the end of a path.
\<close>

definition valid_path :: "nat list \<Rightarrow> bool" where
  "valid_path is \<longleftrightarrow> length is \<le> 4 \<and> (\<forall>i\<in>set is. i < 512)"

definition tabs :: "os \<Rightarrow> frames \<Rightarrow> u64 \<Rightarrow> nat list \<rightharpoonup> u64" where
  "tabs os s root is = (if valid_path is then table_of os s root is else None)"

definition writable :: "os \<Rightarrow> frames \<Rightarrow> u64 \<Rightarrow> nat list \<Rightarrow> bool" where
  "writable os s root is = (case table_of os s root (butlast is) of None \<Rightarrow> False
     | Some t \<Rightarrow> bit (entry os s t (last is)) 1)"

definition tree :: "(nat list \<rightharpoonup> u64) \<Rightarrow> bool" where
  "tree m \<longleftrightarrow> (\<forall>is js p. length is \<le> 3 \<and> length js \<le> 3 \<and> m is = Some p \<and> m js = Some p
     \<longrightarrow> is = js)"

lemma valid_path_snoc: "valid_path (is @ [i]) \<longleftrightarrow> valid_path is \<and> length is \<le> 3 \<and> i < 512"
  by (auto simp: valid_path_def)

lemma valid_path_take: "valid_path is \<Longrightarrow> valid_path (take k is)"
  by (auto simp: valid_path_def dest: in_set_takeD)

lemma valid_va_path [simp]: "valid_path (va_path va)"
  by (simp add: valid_path_def va_path_def va_index_less)

lemma tabs_Nil [simp]: "tabs os s root [] = Some root"
  by (simp add: tabs_def valid_path_def)

lemma tabs_snoc:
  "tabs os s root (is @ [i]) = (if length is \<le> 3 \<and> i < 512 then
     (case tabs os s root is of None \<Rightarrow> None
      | Some q \<Rightarrow> if present (entry os s q i) then Some (frame_of (entry os s q i)) else None)
     else None)"
  by (auto simp: tabs_def valid_path_snoc table_of_snoc split: option.splits)

lemma tabs_invalid: "\<not> valid_path is \<Longrightarrow> tabs os s root is = None"
  by (simp add: tabs_def)

lemma tabs_cong:
  assumes "\<And>is p j. tabs os s root is = Some p \<Longrightarrow> length is \<le> 3 \<Longrightarrow> j < 512 \<Longrightarrow>
      present (entry os s' p j) = present (entry os s p j) \<and>
      (present (entry os s p j) \<longrightarrow> frame_of (entry os s' p j) = frame_of (entry os s p j))"
  shows "tabs os s' root = tabs os s root"
proof
  fix js show "tabs os s' root js = tabs os s root js"
    by (induction js rule: rev_induct) (auto simp: tabs_snoc assms split: option.splits)
qed

text \<open>Filling one empty entry adds one path, because a table has one path only.\<close>

lemma tabs_link:
  assumes tree: "tree (tabs os s root)"
    and t: "tabs os s root path = Some t" "length path \<le> 3" "i < 512"
    and old: "\<not> present (entry os s t i)"
    and new: "present (entry os s' t i)" "frame_of (entry os s' t i) = q"
    and same: "\<And>is p j. tabs os s root is = Some p \<Longrightarrow> length is \<le> 3 \<Longrightarrow> j < 512 \<Longrightarrow>
      (p, j) \<noteq> (t, i) \<Longrightarrow> entry os s' p j = entry os s p j"
    and empty: "\<And>j. length path < 3 \<Longrightarrow> j < 512 \<Longrightarrow> \<not> present (entry os s' q j)"
  shows "tabs os s' root = (tabs os s root)(path @ [i] \<mapsto> q)"
proof
  fix js show "tabs os s' root js = ((tabs os s root)(path @ [i] \<mapsto> q)) js"
  proof (induction js rule: rev_induct)
    case (snoc j js)
    show ?case
    proof (cases "length js \<le> 3 \<and> j < 512")
      case False
      then show ?thesis using t by (auto simp: tabs_snoc)
    next
      case True
      consider "js = path @ [i]" | "js = path" | "js \<noteq> path" "js \<noteq> path @ [i]" by blast
      then show ?thesis
      proof cases
        case 1
        then have "tabs os s' root (js @ [j]) = None"
          using snoc True empty[of j] by (simp only: tabs_snoc) simp
        moreover have "tabs os s root (js @ [j]) = None"
          using 1 t old by (simp only: tabs_snoc) simp
        ultimately show ?thesis using 1 by simp
      next
        case 2
        then show ?thesis
          using snoc True t old new same[OF t(1,2), of j] by (auto simp: tabs_snoc)
      next
        case 3
        then have "p \<noteq> t" if "tabs os s root js = Some p" for p
          using tree t True that unfolding tree_def by blast
        then show ?thesis
          using snoc True 3 same[of js _ j] by (auto simp: tabs_snoc split: option.splits)
      qed
    qed
  qed simp
qed

section \<open>Ownership\<close>

text \<open>
  \<open>space base arg m h\<close>: the frames in use are those of \<open>base\<close> and those in the tables \<open>m\<close>,
  no frame occurs twice in the tables, and the only frame of \<open>base\<close> in the tables is \<open>arg\<close>, a
  page that was handed over (if any).
\<close>

definition region_at :: "nat list \<Rightarrow> region" where
  "region_at is = (if length is \<le> 3 then OS_PT_REG else USER_REG)"

definition owned :: "(nat list \<rightharpoonup> u64) \<Rightarrow> (region \<times> u64) set" where
  "owned m = {(region_at is, p) | is p. m is = Some p}"

definition space ::
  "(region \<times> u64) set \<Rightarrow> u64 option \<Rightarrow> (nat list \<rightharpoonup> u64) \<Rightarrow> frame_event list \<Rightarrow> bool" where
  "space base arg m h \<longleftrightarrow> live h = base \<union> owned m
     \<and> (\<forall>is js p. m is = Some p \<and> m js = Some p \<longrightarrow> is = js)
     \<and> (\<forall>is p. m is = Some p \<and> length is \<le> 3 \<longrightarrow> unat p < 2 ^ 20)
     \<and> (\<forall>is p. m is = Some p \<and> p \<in> snd ` base \<longrightarrow> arg = Some p)
     \<and> (\<forall>is p. m is = Some p \<and> arg = Some p \<longrightarrow> length is = 4)"

lemma owned_upd: "m path = None \<Longrightarrow> owned (m(path \<mapsto> q)) = insert (region_at path, q) (owned m)"
  unfolding owned_def by (auto split: if_splits)

lemma spaceD:
  assumes "space base arg m h"
  shows "live h = base \<union> owned m"
    and "m is = Some p \<Longrightarrow> m js = Some p \<Longrightarrow> is = js"
    and "m is = Some p \<Longrightarrow> length is \<le> 3 \<Longrightarrow> unat p < 2 ^ 20"
    and "m is = Some p \<Longrightarrow> p \<in> snd ` base \<Longrightarrow> arg = Some p"
    and "m is = Some p \<Longrightarrow> arg = Some p \<Longrightarrow> length is = 4"
  using assms unfolding space_def by metis+

lemma space_in_live: "space base arg m h \<Longrightarrow> m is = Some p \<Longrightarrow> (region_at is, p) \<in> live h"
  using spaceD(1)[of base arg m h] by (auto simp: owned_def)

lemma space_tree: assumes "space base arg m h" shows "tree m"
  unfolding tree_def using spaceD(2)[OF assms] by metis

lemma space_alloc:
  assumes "space base arg m h" "m path = None" "\<forall>a. arg = Some a \<longrightarrow> (USER_REG, a) \<in> base"
    and q: "q \<notin> snd ` live h" "unat q < 2 ^ 20" "q = ucast p" "region_at path = r"
  shows "space base arg (m(path \<mapsto> q)) (Alloc r p # h)"
proof -
  note up = owned_upd[of m path q, OF assms(2)]
  note s = spaceD[OF assms(1)]
  have nr: "m is \<noteq> Some q" for "is"
    using space_in_live[OF assms(1), of "is" q] q(1) by (metis image_eqI snd_conv)
  have nb: "q \<notin> snd ` base" using q(1) s(1) by auto
  then have na: "arg \<noteq> Some q" using assms(3) by (metis image_eqI snd_conv)
  show ?thesis
    unfolding space_def
  proof (intro conjI allI impI, goal_cases)
    case 1 then show ?case using s(1) q up by simp
  next
    case (2 js ks p) then show ?case using s(2) nr by (metis fun_upd_apply option.inject)
  next
    case (3 js p) then show ?case using s(3) q by (metis fun_upd_apply option.inject)
  next
    case (4 js p) then show ?case using s(4) nb by (metis fun_upd_apply option.inject)
  next
    case (5 js p) then show ?case using s(5) na by (metis fun_upd_apply option.inject)
  qed
qed

lemma space_arg:
  assumes "space base (Some a) m h" "m path = None" "(USER_REG, a) \<in> base" "a \<notin> ran m"
    and "length path = 4"
  shows "space base (Some a) (m(path \<mapsto> a)) h"
proof -
  have "region_at path = USER_REG" using assms(5) by (simp add: region_at_def)
  then show ?thesis
    using assms owned_upd[of m path a, OF assms(2)] unfolding space_def
    by (auto split: if_splits simp: ran_def)
qed

section \<open>A concrete kernel\<close>

text \<open>
  A direct map and an allocator that counts upwards in each region meet the hypotheses; the
  witnesses of the theories on gemOS use them.
\<close>

definition demo_base :: "region \<Rightarrow> nat" where
  "demo_base r = (case r of OS_DS_REG \<Rightarrow> 0x800 | OS_PT_REG \<Rightarrow> 0x2000 | USER_REG \<Rightarrow> 0x6400)"

definition demo_os :: os where
  "demo_os = \<lparr>osmap = push_bit 12, os_pfn_alloc = (\<lambda>h r. of_nat (demo_base r + length h))\<rparr>"

lemma demo_osmap_ok: "osmap_ok demo_os"
  unfolding osmap_ok_def
proof (intro allI impI, elim conjE)
  fix p q :: u64 assume u: "unat p < 2 ^ 20" "unat q < 2 ^ 20" and e: "osmap demo_os p = osmap demo_os q"
  have "unat (push_bit 12 x) = 2 ^ 12 * unat x" if "unat x < 2 ^ 20" for x :: u64
    using that by (simp add: push_bit_eq_mult unat_mult_lem[THEN iffD1])
  from this[OF u(1)] this[OF u(2)] e show "p = q"
    by (simp add: demo_os_def word_unat_eq_iff)
qed

lemma demo_pfn:
  assumes "n < 100"
  shows "unat (of_nat (demo_base r + n) :: u32) = demo_base r + n"
    and "get_mem_region (of_nat (demo_base r + n)) = Some r"
proof -
  have b: "demo_base r + n < 2 ^ 20" using assms by (cases r) (simp_all add: demo_base_def)
  then show u: "unat (of_nat (demo_base r + n) :: u32) = demo_base r + n"
    by (simp del: of_nat_add)
  have "unat (push_bit 12 (ucast (of_nat (demo_base r + n) :: u32) :: u64)) = 2 ^ 12 * (demo_base r + n)"
    using b u by (simp add: push_bit_eq_mult unat_mult_lem[THEN iffD1] del: of_nat_add)
  then show "get_mem_region (of_nat (demo_base r + n)) = Some r"
    using assms unfolding get_mem_region_def Let_def region_bounds word_less_nat_alt word_le_nat_alt
    by (cases r) (simp_all add: demo_base_def)
qed

lemma demo_live: "history demo_os h \<Longrightarrow> (r, p) \<in> live h \<Longrightarrow>
    \<exists>k<length h. p = ucast (of_nat (demo_base r + k) :: u32)"
proof (induction h rule: live.induct)
  case (2 r' p' h)
  then show ?case
    by (cases "(r, p) = (r', ucast p')") (auto simp: demo_os_def intro: less_SucI)
qed (auto intro: less_SucI)

lemma demo_frames_ok: "frames_ok demo_os 100"
  unfolding frames_ok_def
proof (intro allI impI, elim conjE)
  fix h r assume h: "history demo_os h" "length h < 100"
  have "\<not> (\<exists>r' k. k < length h \<and>
      ucast (of_nat (demo_base r + length h) :: u32) = (ucast (of_nat (demo_base r' + k) :: u32) :: u64))"
  proof (intro notI, elim exE conjE)
    fix r' k assume k: "k < length h"
      and "ucast (of_nat (demo_base r + length h) :: u32) = (ucast (of_nat (demo_base r' + k) :: u32) :: u64)"
    then have "unat (of_nat (demo_base r + length h) :: u32) = unat (of_nat (demo_base r' + k) :: u32)"
      by (metis unat_ucast_u32)
    then have "demo_base r + length h = demo_base r' + k"
      using demo_pfn(1)[of "length h" r] demo_pfn(1)[of k r'] h(2) k by simp
    then show False using k h(2) by (cases r; cases r') (simp_all add: demo_base_def)
  qed
  then have "ucast (os_pfn_alloc demo_os h r) \<notin> snd ` live h"
    using demo_live[OF h(1)] by (fastforce simp: demo_os_def)
  then show "get_mem_region (os_pfn_alloc demo_os h r) = Some r \<and>
      ucast (os_pfn_alloc demo_os h r) \<notin> snd ` live h"
    using demo_pfn(2)[OF h(2)] by (simp add: demo_os_def)
qed

end
