(* ===== verification/Levels.thy ===== *)
theory Levels
  imports Frames
begin

text \<open>
  Building page tables level by level. \<open>create_page_table_entry\<close> (\<open>gemOS-a1/context_mm.c\<close>) and the
  loop of the page-fault handler (\<open>gemOS-a2/entry.c\<close>) have one shape: at each level an entry is
  filled when it is empty, then the walk goes on in the table it points to. \<open>level_step\<close> says what
  filling one entry does to the tables, \<open>built\<close> what the levels below add up to, and the locale
  \<open>level_filler\<close> derives the second from the first for both.
\<close>

section \<open>What the code relies on\<close>

definition setting ::
  "os \<Rightarrow> nat \<Rightarrow> u64 option \<Rightarrow> (region \<times> u64) set \<Rightarrow> u64 \<Rightarrow> frames \<Rightarrow> bool" where
  "setting os N arg base root s \<longleftrightarrow> osmap_ok os \<and> frames_ok os N \<and> history os (hist s)
     \<and> space base arg (tabs os s root) (hist s)
     \<and> (\<forall>a. arg = Some a \<longrightarrow> (USER_REG, a) \<in> base \<and> unat a < 2 ^ 20)"

lemma settingD:
  assumes "setting os N arg base root s"
  shows "osmap_ok os" "frames_ok os N" "history os (hist s)" "space base arg (tabs os s root) (hist s)"
    and "arg = Some a \<Longrightarrow> (USER_REG, a) \<in> base" "arg = Some a \<Longrightarrow> unat a < 2 ^ 20"
  using assms by (simp_all add: setting_def)

lemma setting_alloc:
  assumes "setting os N arg base root s" "length (hist s) < N"
    and "p = os_pfn_alloc os (hist s) r"
  shows "ucast p \<notin> snd ` live (hist s)" "unat p < 2 ^ 20" "get_mem_region p = Some r"
proof -
  have "get_mem_region p = Some r \<and> ucast p \<notin> snd ` live (hist s)"
    using assms unfolding setting_def frames_ok_def by blast
  then show "ucast p \<notin> snd ` live (hist s)" "unat p < 2 ^ 20" "get_mem_region p = Some r"
    using region_pfn_bound[of p r] by simp_all
qed

lemma setting_arg_live:
  assumes "setting os N (Some a) base root s" shows "a \<in> snd ` live (hist s)"
  using settingD(5)[OF assms refl] spaceD(1)[OF settingD(4)[OF assms]]
  by (metis UnI1 image_eqI snd_conv)

section \<open>One level\<close>

lemma writable_snoc: "writable os s root (js @ [j]) = (case table_of os s root js of None \<Rightarrow> False
     | Some t \<Rightarrow> bit (entry os s t j) 1)"
  by (simp only: writable_def butlast_snoc last_snoc)

lemma table_of_tabs: "valid_path js \<Longrightarrow> table_of os s root js = tabs os s root js"
  by (simp add: tabs_def)

text \<open>
  \<open>w\<close> is the write permission that is added, and \<open>d\<close> the frame that the last level uses instead of
  a new one (if any).
\<close>

definition level_step ::
  "os \<Rightarrow> bool \<Rightarrow> u64 option \<Rightarrow> u64 \<Rightarrow> nat list \<Rightarrow> u64 \<Rightarrow> frames \<Rightarrow> frames \<Rightarrow> bool" where
  "level_step os w d root path q s s' \<longleftrightarrow>
     tabs os s' root = (tabs os s root)(path \<mapsto> q)
     \<and> (tabs os s root path = None \<longrightarrow> (if length path = 4 \<and> d \<noteq> None
          then d = Some q \<and> hist s' = hist s
          else \<exists>p. q = ucast p \<and> p = os_pfn_alloc os (hist s) (region_at path)
             \<and> hist s' = Alloc (region_at path) p # hist s))
     \<and> (tabs os s root path \<noteq> None \<longrightarrow> tabs os s root path = Some q \<and> hist s' = hist s)
     \<and> (\<forall>js. js \<noteq> [] \<and> js \<noteq> path \<and> tabs os s root js \<noteq> None \<longrightarrow>
          writable os s' root js = writable os s root js)
     \<and> (writable os s' root path \<longleftrightarrow>
          (tabs os s root path \<noteq> None \<and> writable os s root path) \<or> w)"

lemma tabs_parent:
  assumes "tabs os s root (js @ [j]) = Some p"
  shows "\<exists>t. tabs os s root js = Some t \<and> valid_path js \<and> length js \<le> 3 \<and> j < 512"
proof -
  have "valid_path (js @ [j])" using assms by (metis tabs_invalid option.distinct(1))
  then show ?thesis
    using assms by (auto simp: tabs_snoc valid_path_snoc split: option.splits if_splits)
qed

lemma tabs_prefix: "tabs os s root P \<noteq> None \<Longrightarrow> tabs os s root (take k P) \<noteq> None"
proof (induction P rule: rev_induct)
  case (snoc j js)
  then have "tabs os s root js \<noteq> None" using tabs_parent by blast
  then show ?case using snoc by (cases "k \<le> length js") (auto simp: take_append)
qed simp

lemma entry_set_writable:
  assumes set: "setting os N arg base root s"
    and path: "tabs os s root js = Some t" "length js \<le> 3" "i < 512"
    and z: "entry_set os s s' t i z" "\<And>p. z = Some p \<Longrightarrow> p \<notin> snd ` live (hist s)"
    and new: "made (entry os s' t i) q w"
    and q: "tabs os s' root = (tabs os s root)(js @ [i] \<mapsto> q)"
    and keep: "tabs os s root (js @ [i]) \<in> {None, Some q}"
  shows "ks \<noteq> [] \<Longrightarrow> ks \<noteq> js @ [i] \<Longrightarrow> tabs os s root ks \<noteq> None \<Longrightarrow>
          writable os s' root ks = writable os s root ks"
    and "writable os s' root (js @ [i]) = w"
proof -
  note sp = settingD(4)[OF set]
  show "writable os s' root ks = writable os s root ks"
    if ks: "ks \<noteq> []" "ks \<noteq> js @ [i]" "tabs os s root ks \<noteq> None"
  proof -
    obtain ls l where l: "ks = ls @ [l]" using ks(1) by (metis append_butlast_last_id)
    obtain b where b: "tabs os s root ls = Some b" "valid_path ls" "length ls \<le> 3" "l < 512"
      using tabs_parent ks(3) l by blast
    have b': "tabs os s' root ls = Some b" using q keep b(1) by auto
    have bt: "(b, l) \<noteq> (t, i)" using spaceD(2)[OF sp b(1), of js] path(1) ks(2) l by auto
    have nz: "z \<noteq> Some b" using z(2)[of b] space_in_live[OF sp b(1)] by (metis image_eqI snd_conv)
    have "entry os s' b l = entry os s b l"
      using z(1) spaceD(3)[OF sp b(1,3)] b(4) bt nz unfolding entry_set_def by auto
    then show ?thesis using b b' l by (simp add: writable_snoc table_of_tabs)
  qed
  have "valid_path js" using path(1) tabs_invalid by fastforce
  then show "writable os s' root (js @ [i]) = w"
    using q path new by (simp add: writable_snoc table_of_tabs made_def)
qed

lemma level_step_keep:
  assumes set: "setting os N arg base root s"
    and path: "tabs os s root js = Some t" "length js \<le> 3" "i < 512"
    and old: "present (entry os s t i)" and e: "entry_set os s s' t i None" "hist s' = hist s"
    and new: "made (entry os s' t i) (frame_of (entry os s t i)) (bit (entry os s t i) 1 \<or> w)"
  shows "level_step os w d root (js @ [i]) (frame_of (entry os s t i)) s s'
    \<and> setting os N arg base root s'"
proof -
  define q where "q = frame_of (entry os s t i)"
  note small = spaceD(3)[OF settingD(4)[OF set]]
  have same: "tabs os s' root = tabs os s root"
  proof (rule tabs_cong)
    fix ks p and j :: nat assume "tabs os s root ks = Some p" "length ks \<le> 3" "j < 512"
    then show "present (entry os s' p j) = present (entry os s p j) \<and>
        (present (entry os s p j) \<longrightarrow> frame_of (entry os s' p j) = frame_of (entry os s p j))"
      using e(1) new old small[of ks p]
      by (cases "(p, j) = (t, i)") (auto simp: made_def entry_set_def)
  qed
  then have set': "setting os N arg base root s'" using set e(2) by (simp add: setting_def)
  have tq: "tabs os s root (js @ [i]) = Some q" "tabs os s' root = (tabs os s root)(js @ [i] \<mapsto> q)"
    using path old same by (auto simp: tabs_snoc q_def)
  have "writable os s root (js @ [i]) = bit (entry os s t i) 1"
    using path tabs_invalid[of js] by (cases "valid_path js") (simp_all add: writable_snoc table_of_tabs)
  then show ?thesis
    using entry_set_writable[OF set path e(1) _ new[folded q_def] tq(2)] tq e(2) set'
    unfolding level_step_def q_def[symmetric] by auto
qed

lemma level_step_given:
  assumes set: "setting os N (Some a) base root s"
    and path: "tabs os s root js = Some t" "length js = 3" "i < 512"
    and old: "\<not> present (entry os s t i)" and e: "entry_set os s s' t i None" "hist s' = hist s"
    and new: "made (entry os s' t i) a w" and a: "a \<notin> ran (tabs os s root)"
  shows "level_step os w (Some a) root (js @ [i]) a s s' \<and> setting os N (Some a) base root s'"
proof -
  note sp = settingD(4)[OF set]
  have l: "length js \<le> 3" using path(2) by simp
  have none: "tabs os s root (js @ [i]) = None" using path old by (simp add: tabs_snoc)
  have tq: "tabs os s' root = (tabs os s root)(js @ [i] \<mapsto> a)"
    by (rule tabs_link[OF space_tree[OF sp] path(1) l path(3) old])
      (use new e(1) path(2) spaceD(3)[OF sp] in \<open>auto simp: made_def entry_set_def\<close>)
  have "space base (Some a) (tabs os s' root) (hist s')"
    using space_arg[OF sp none settingD(5)[OF set refl] a] path(2) e(2) tq by simp
  then show ?thesis
    using entry_set_writable[OF set path(1) l path(3) e(1) _ new tq] tq e(2) set none path(2)
    unfolding level_step_def setting_def by auto
qed

lemma level_step_new:
  assumes set: "setting os N arg base root s" and len: "length (hist s) < N"
    and path: "tabs os s root js = Some t" "length js \<le> 3" "i < 512"
    and old: "\<not> present (entry os s t i)" and d: "length js = 3 \<Longrightarrow> d = None"
    and p: "p = os_pfn_alloc os (hist s) (region_at (js @ [i]))"
    and e: "entry_set os s s' t i z" "z \<in> {None, Some (ucast p)}"
      "hist s' = Alloc (region_at (js @ [i])) p # hist s"
    and new: "made (entry os s' t i) (ucast p) w"
    and empty: "\<And>j. length js < 3 \<Longrightarrow> j < 512 \<Longrightarrow> \<not> present (entry os s' (ucast p) j)"
  shows "level_step os w d root (js @ [i]) (ucast p) s s' \<and> setting os N arg base root s'"
proof -
  note sp = settingD(4)[OF set] and fresh = setting_alloc[OF set len p]
  have nq: "tabs os s root ks \<noteq> Some (ucast p)" for ks
    using space_in_live[OF sp, of ks "ucast p"] fresh(1) by (metis image_eqI snd_conv)
  have none: "tabs os s root (js @ [i]) = None" using path old by (simp add: tabs_snoc)
  have tq: "tabs os s' root = (tabs os s root)(js @ [i] \<mapsto> ucast p)"
    by (rule tabs_link[OF space_tree[OF sp] path old])
      (use new e(1,2) empty spaceD(3)[OF sp] nq in \<open>auto simp: made_def entry_set_def\<close>)
  have "space base arg (tabs os s' root) (hist s')"
    using space_alloc[OF sp none _ fresh(1) _ refl refl] settingD(5)[OF set] e(3) tq fresh(2) by simp
  then show ?thesis
    using entry_set_writable[OF set path e(1) _ new tq] tq e(2,3) set none d fresh(1) p
    unfolding level_step_def setting_def by auto
qed

section \<open>All levels\<close>

text \<open>What the levels from \<open>n\<close> down add to the tables: only prefixes of the path \<open>P\<close>.\<close>

definition built ::
  "os \<Rightarrow> bool \<Rightarrow> u64 option \<Rightarrow> nat list \<Rightarrow> u64 \<Rightarrow> nat \<Rightarrow> frames \<Rightarrow> frames \<Rightarrow> bool" where
  "built os w d P root n s s' \<longleftrightarrow>
     length (hist s') \<le> length (hist s) + n
     \<and> live (hist s) \<subseteq> live (hist s')
     \<and> tabs os s root \<subseteq>\<^sub>m tabs os s' root
     \<and> (\<forall>js. tabs os s' root js \<noteq> None \<longrightarrow> tabs os s root js \<noteq> None \<or> (\<exists>k. js = take k P))
     \<and> tabs os s' root P \<noteq> None
     \<and> (tabs os s root P = None \<longrightarrow> writable os s' root P = w
          \<and> (\<forall>f. tabs os s' root P = Some f \<longrightarrow>
               d = Some f \<or> d = None \<and> f \<notin> snd ` live (hist s) \<and> unat f < 2 ^ 20))
     \<and> (\<forall>js. js \<noteq> [] \<and> tabs os s root js \<noteq> None \<longrightarrow>
          (writable os s root js \<longrightarrow> writable os s' root js)
          \<and> ((\<forall>k. js \<noteq> take k P) \<longrightarrow> writable os s' root js = writable os s root js))
     \<and> (\<forall>k. 4 - n < k \<and> k \<le> 4 \<and> w \<longrightarrow> writable os s' root (take k P))"

lemma level_stepD:
  assumes "level_step os w d root path q s s'"
  shows "tabs os s' root = (tabs os s root)(path \<mapsto> q)"
    and "tabs os s root path = Some r \<Longrightarrow> q = r \<and> hist s' = hist s"
    and "tabs os s root path = None \<Longrightarrow> length path = 4 \<Longrightarrow> d \<noteq> None \<Longrightarrow> d = Some q \<and> hist s' = hist s"
    and "tabs os s root path = None \<Longrightarrow> length path \<noteq> 4 \<or> d = None \<Longrightarrow>
      \<exists>p. q = ucast p \<and> p = os_pfn_alloc os (hist s) (region_at path)
         \<and> hist s' = Alloc (region_at path) p # hist s"
    and "js \<noteq> [] \<Longrightarrow> js \<noteq> path \<Longrightarrow> tabs os s root js \<noteq> None \<Longrightarrow>
      writable os s' root js = writable os s root js"
    and "writable os s' root path \<longleftrightarrow> (tabs os s root path \<noteq> None \<and> writable os s root path) \<or> w"
  using assms by (simp_all add: level_step_def split: if_splits)

lemma level_step_frame:
  assumes "setting os N arg base root s" "length (hist s) < N"
    and step: "level_step os w d root path q s s1"
  shows "length (hist s1) \<le> Suc (length (hist s))"
    and "live (hist s) \<subseteq> live (hist s1)"
    and "tabs os s root \<subseteq>\<^sub>m tabs os s1 root" and "tabs os s1 root path = Some q"
    and "tabs os s root path = None \<Longrightarrow>
      length path = 4 \<and> d = Some q \<or> (length path \<noteq> 4 \<or> d = None) \<and> q \<notin> snd ` live (hist s) \<and> unat q < 2 ^ 20"
proof -
  note D = level_stepD[OF step]
  have "hist s1 = hist s \<or> (\<exists>r p. hist s1 = Alloc r p # hist s)"
    using D(2-4) by (cases "tabs os s root path") blast+
  then show "length (hist s1) \<le> Suc (length (hist s))" "live (hist s) \<subseteq> live (hist s1)" by auto
  show "tabs os s root \<subseteq>\<^sub>m tabs os s1 root"
    using D(1,2) by (auto simp: map_le_def)
  show "tabs os s1 root path = Some q" using D(1) by simp
  show "length path = 4 \<and> d = Some q \<or> (length path \<noteq> 4 \<or> d = None) \<and> q \<notin> snd ` live (hist s) \<and> unat q < 2 ^ 20"
    if none: "tabs os s root path = None"
  proof (cases "length path = 4 \<and> d \<noteq> None")
    case True
    then show ?thesis using D(3)[OF none] by simp
  next
    case False
    then obtain p where "q = ucast p" "p = os_pfn_alloc os (hist s) (region_at path)"
      using D(4)[OF none] by blast
    then show ?thesis using False setting_alloc(1,2)[OF assms(1,2)] by simp
  qed
qed

lemma level_step_built:
  assumes "setting os N arg base root s" "length (hist s) < N" "length P = 4"
    and step: "level_step os w d root P q s s'"
  shows "built os w d P root 1 s s'"
proof -
  note f = level_step_frame[OF assms(1,2) step] and D = level_stepD[OF step]
  have tk: "take k P = P" if "3 < k" for k using that assms(3) by simp
  have t4: "P = take 4 P" using tk[of 4] by simp
  have new: "d = Some q \<or> d = None \<and> q \<notin> snd ` live (hist s) \<and> unat q < 2 ^ 20" if "tabs os s root P = None"
    using f(5)[OF that] assms(3) by blast
  show ?thesis
    unfolding built_def
  proof (intro conjI allI impI, goal_cases)
    case (4 js) then show ?case using D(1) t4 by (metis fun_upd_apply)
  next
    case (6) then show ?case using D(6) by blast
  next
    case (7 g) then show ?case using new f(4) by simp
  next
    case (8 js) then show ?case using D(5,6) by blast
  next
    case (9 js) then show ?case using D(5) t4 by metis
  next
    case (10 k) then show ?case using D(6) tk[of k] by simp
  qed (use f in auto)
qed

lemma built_trans:
  assumes step: "level_step os w d root (take (4 - m) P) q s s1"
    and m: "0 < m" "m < 4" and P: "length P = 4" and rest: "built os w d P root m s1 s'"
    and set: "setting os N arg base root s" and len: "length (hist s) < N"
  shows "built os w d P root (Suc m) s s'"
proof -
  let ?p = "take (4 - m) P"
  note f = level_step_frame[OF set len step] and D = level_stepD[OF step]
    and r = rest[unfolded built_def]
  have r1: "length (hist s') \<le> length (hist s1) + m" and r2: "live (hist s1) \<subseteq> live (hist s')"
    and r3: "tabs os s1 root \<subseteq>\<^sub>m tabs os s' root"
    and r4: "\<And>js. tabs os s' root js \<noteq> None \<Longrightarrow> tabs os s1 root js \<noteq> None \<or> (\<exists>k. js = take k P)"
    and r5: "tabs os s' root P \<noteq> None"
    and r6: "tabs os s1 root P = None \<Longrightarrow> writable os s' root P = w"
    and r7: "\<And>g. tabs os s1 root P = None \<Longrightarrow> tabs os s' root P = Some g \<Longrightarrow>
      d = Some g \<or> d = None \<and> g \<notin> snd ` live (hist s1) \<and> unat g < 2 ^ 20"
    and r10: "\<And>k. 4 - m < k \<Longrightarrow> k \<le> 4 \<Longrightarrow> w \<Longrightarrow> writable os s' root (take k P)"
    using rest unfolding built_def by simp_all
  have lp: "length ?p = 4 - m" using m P by simp
  then have pP: "?p \<noteq> P" "?p \<noteq> []" using m P by auto
  have tP: "tabs os s1 root P = tabs os s root P" using D(1) pP(1) by (metis fun_upd_other)
  have mono: "tabs os s1 root js \<noteq> None" if "tabs os s root js \<noteq> None" for js
    using D(1) that by auto
  have w1: "writable os s root js \<Longrightarrow> writable os s1 root js"
    if "js \<noteq> []" "tabs os s root js \<noteq> None" for js using D(5,6) that by blast
  have w2: "writable os s' root js" if "js \<noteq> []" "tabs os s1 root js \<noteq> None" "writable os s1 root js" for js
    using r that by simp
  have w3: "writable os s' root js = writable os s1 root js"
    if "js \<noteq> []" "tabs os s1 root js \<noteq> None" "\<And>k. js \<noteq> take k P" for js
    using r that by simp
  have sub: "snd ` live (hist s) \<subseteq> snd ` live (hist s1)" using f(2) by blast
  show ?thesis
    unfolding built_def
  proof (intro conjI allI impI, goal_cases)
    case 1 then show ?case using r1 f(1) by linarith
  next
    case 2 then show ?case using subset_trans[OF f(2) r2] .
  next
    case 3 then show ?case by (rule map_le_trans[OF f(3) r3])
  next
    case (4 js) then show ?case using r4[of js] D(1) by (metis fun_upd_apply)
  next
    case 5 then show ?case by (rule r5)
  next
    case 6 then show ?case using r6 tP by simp
  next
    case (7 g) then show ?case using r7[of g] tP sub by auto
  next
    case (8 js) then show ?case using w2 w1 mono by blast
  next
    case (9 js) then show ?case using w3[of js] D(5)[of js] mono[of js] by simp
  next
    case (10 k)
    then show ?case
    proof (cases "k = 4 - m")
      case True
      then have "tabs os s1 root ?p \<noteq> None" "writable os s1 root ?p" using f(4) D(6) 10 by simp_all
      then show ?thesis using w2 pP(2) True by simp
    next
      case False
      then have "4 - m < k" using 10 m by linarith
      then show ?thesis using r10 10 by simp
    qed
  qed
qed

section \<open>The recursion over the levels\<close>

lemma map_le_None: "m \<subseteq>\<^sub>m m' \<Longrightarrow> m' x = None \<Longrightarrow> m x = None"
  by (cases "m x") (auto simp: map_le_def dom_def)

lemma va_path_take: "1 \<le> n \<Longrightarrow> n \<le> 4 \<Longrightarrow>
    take (5 - n) (va_path va) = take (4 - n) (va_path va) @ [va_index va n]"
proof -
  assume "1 \<le> n" "n \<le> 4"
  then have "n = 1 \<or> n = 2 \<or> n = 3 \<or> n = 4" by auto
  then show ?thesis by (auto simp: va_path_def eval_nat_numeral)
qed

text \<open>
  \<open>fill a n s\<close> fills the entry for \<open>va\<close> in the table at address \<open>a\<close> on level \<open>n\<close>, and \<open>walk\<close> is
  the recursion or loop around it. \<open>J root\<close> is what \<open>fill\<close> needs of the state beyond \<open>setting\<close>.
\<close>

locale level_filler =
  fixes os :: os and va :: u64 and w :: bool and d :: "u64 option"
    and J :: "u64 \<Rightarrow> frames \<Rightarrow> bool"
    and fill :: "u64 \<Rightarrow> nat \<Rightarrow> frames \<Rightarrow> frames"
    and walk :: "u64 \<Rightarrow> nat \<Rightarrow> frames \<Rightarrow> frames"
  assumes fill_step: "setting os N arg base root s \<Longrightarrow> J root s \<Longrightarrow> length (hist s) < N \<Longrightarrow>
      1 \<le> n \<Longrightarrow> n \<le> 4 \<Longrightarrow> tabs os s root (take (4 - n) (va_path va)) = Some t \<Longrightarrow> d = None \<or> d = arg \<Longrightarrow>
      (\<And>a. d = Some a \<Longrightarrow> tabs os s root (va_path va) = None \<Longrightarrow> a \<notin> ran (tabs os s root)) \<Longrightarrow>
      \<exists>q. level_step os w d root (take (5 - n) (va_path va)) q s (fill (osmap os t) n s)
        \<and> setting os N arg base root (fill (osmap os t) n s) \<and> J root (fill (osmap os t) n s)"
    and walk_last: "walk a 1 s = fill a 1 s"
    and walk_next: "0 < n \<Longrightarrow> walk a (Suc n) s = walk (osmap os (frame_of
        (vm (fill a (Suc n) s) a (va_index va (Suc n))))) n (fill a (Suc n) s)"
begin

lemma walk_built:
  assumes "setting os N arg base root s" "J root s" "length (hist s) + n \<le> N" "1 \<le> n" "n \<le> 4"
    and "tabs os s root (take (4 - n) (va_path va)) = Some t" "d = None \<or> d = arg"
    and "\<And>a. d = Some a \<Longrightarrow> tabs os s root (va_path va) = None \<Longrightarrow> a \<notin> ran (tabs os s root)"
  shows "built os w d (va_path va) root n s (walk (osmap os t) n s)
    \<and> setting os N arg base root (walk (osmap os t) n s)"
  using assms
proof (induction n arbitrary: s t)
  case (Suc m)
  let ?P = "va_path va"
  define s1 where "s1 = fill (osmap os t) (Suc m) s"
  have len: "length (hist s) < N" using Suc.prems(3) by simp
  obtain q where q: "level_step os w d root (take (4 - m) ?P) q s s1"
    and set: "setting os N arg base root s1" "J root s1"
    using fill_step[OF Suc.prems(1,2) len Suc.prems(4-8)] s1_def by auto
  note f = level_step_frame[OF Suc.prems(1) len q]
  show ?case
  proof (cases "m = 0")
    case True
    then have "level_step os w d root ?P q s s1" using q by simp
    then show ?thesis
      using True level_step_built[OF Suc.prems(1) len] set walk_last by (simp add: s1_def)
  next
    case False
    have "take (4 - m) ?P = take (4 - Suc m) ?P @ [va_index va (Suc m)]"
      using va_path_take[of "Suc m"] Suc.prems(4,5) by simp
    moreover have "tabs os s1 root (take (4 - Suc m) ?P) = Some t"
      using f(3) Suc.prems(6) by (metis map_le_def domI)
    ultimately have "frame_of (entry os s1 t (va_index va (Suc m))) = q"
      using f(4) by (auto simp: tabs_snoc split: if_splits)
    then have step: "walk (osmap os t) (Suc m) s = walk (osmap os q) m s1"
      using False walk_next[of m] by (simp add: s1_def[symmetric] entry_def)
    have "a \<notin> ran (tabs os s1 root)" if a: "d = Some a" "tabs os s1 root ?P = None" for a
    proof -
      have "a \<notin> ran (tabs os s root)" using Suc.prems(8)[OF a(1)] map_le_None[OF f(3) a(2)] by blast
      moreover have "q \<noteq> a"
      proof (cases "tabs os s root (take (4 - m) ?P)")
        case None
        have "q \<notin> snd ` live (hist s)" using f(5)[OF None] False by auto
        then show ?thesis using setting_arg_live Suc.prems(1,7) a(1) by auto
      next
        case (Some r)
        then have "q = r" using level_stepD(2)[OF q] by blast
        then show ?thesis using Some calculation by (auto simp: ran_def)
      qed
      ultimately show ?thesis unfolding level_stepD(1)[OF q] by (auto simp: ran_def split: if_splits)
    qed
    then have "built os w d ?P root m s1 (walk (osmap os q) m s1)
      \<and> setting os N arg base root (walk (osmap os q) m s1)"
      using Suc.IH[OF set _ _ _ f(4) Suc.prems(7)] Suc.prems(3-5) f(1) False by simp
    then show ?thesis
      unfolding step using built_trans[OF q _ _ _ _ Suc.prems(1) len] False Suc.prems(5) by simp
  qed
qed simp

end

end
