(* ===== verification/Paging.thy ===== *)
theory Paging
  imports Levels
begin

text \<open>
  Address spaces of gemOS, \<open>gemOS-a1/context_mm.c\<close>: \<open>prepare_context_mm\<close> builds the four-level
  page tables for one page of the stack, the code and the data segment, and
  \<open>cleanup_context_mm\<close> gives every frame back. A \<open>u64 *\<close> to a table is the virtual address that
  \<open>osmap\<close> returned. The theorems: each segment's page is mapped with exactly the access of the
  segment, the data page is the frame of the arguments, and a prepare followed by a cleanup
  frees every frame exactly once.
\<close>

section \<open>Contexts\<close>

record mm_segment =
  start :: u64
  seg_end :: u64
  access_flags :: u32

record exec_context =
  ctx_id :: u32
  ctx_type :: u8
  status :: u8
  used_mem :: u16
  pgd :: u32
  mms :: "mm_segment list"
  ctx_name :: "byte list"
  arg_pfn :: u32
  num_args :: u32

section \<open>Building the tables\<close>

definition seg_va :: "exec_context \<Rightarrow> nat \<Rightarrow> u64" where
  "seg_va ctx segment = (if segment = MM_SEG_STACK then seg_end (mms ctx ! segment) - 0x1000
     else start (mms ctx ! segment))"

definition get_index :: "exec_context \<Rightarrow> nat \<Rightarrow> nat \<Rightarrow> u64" where
  "get_index ctx segment level_num =
     drop_bit (level_num * 9 + 3) (seg_va ctx segment) AND 0x1FF"

text \<open>
  The body of \<open>create_page_table_entry\<close> before its recursive call. The shift of a leaf frame
  number is done in 32 bits, as \<open>os_pfn_alloc\<close> and \<open>arg_pfn\<close> are \<open>u32\<close>; the number of a table
  is first stored into the 64-bit entry and shifted there.
\<close>

definition fill_entry :: "os \<Rightarrow> exec_context \<Rightarrow> nat \<Rightarrow> u64 \<Rightarrow> nat \<Rightarrow> frames \<Rightarrow> frames" where
  "fill_entry os ctx segment level level_num s = (
     let index = unat (get_index ctx segment level_num);
         s1 = (if vm s level index AND 0x1 = 0 then
                 let s2 = (if level_num = 1 \<and> segment \<noteq> MM_SEG_DATA then
                       (case pfn_alloc os USER_REG s of (p, s) \<Rightarrow>
                          set_entry level index (ucast (push_bit 12 p)) s)
                     else if level_num = 1 then
                       set_entry level index (ucast (push_bit 12 (arg_pfn ctx))) s
                     else
                       (case pfn_alloc os OS_PT_REG s of (p, s) \<Rightarrow>
                         let s = set_entry level index (ucast p) s;
                             next_level = osmap os (vm s level index);
                             s = set_entry level index (push_bit 12 (vm s level index)) s
                         in zero_page next_level s))
                 in set_entry level index (vm s2 level index OR 0x5) s2
               else s)
     in set_entry level index
          (vm s1 level index OR ucast (access_flags (mms ctx ! segment) AND 0x2)) s1)"

text \<open>The recursion ends at level 1; it is only entered at level 4.\<close>

fun create_page_table_entry ::
  "os \<Rightarrow> exec_context \<Rightarrow> nat \<Rightarrow> u64 \<Rightarrow> nat \<Rightarrow> frames \<Rightarrow> frames" where
  "create_page_table_entry os ctx segment level 0 s = s"
| "create_page_table_entry os ctx segment level (Suc n) s = (
     let s = fill_entry os ctx segment level (Suc n) s in
     if Suc n \<noteq> 1 then
       create_page_table_entry os ctx segment
         (osmap os (drop_bit 12 (vm s level (unat (get_index ctx segment (Suc n)))))) n s
     else s)"

definition prepare_context_mm :: "os \<Rightarrow> exec_context \<Rightarrow> frames \<Rightarrow> exec_context \<times> frames" where
  "prepare_context_mm os ctx s = (case pfn_alloc os OS_PT_REG s of (p, s) \<Rightarrow>
     let ctx = ctx\<lparr>pgd := p\<rparr>;
         level_4 = osmap os (ucast (pgd ctx));
         s = zero_page level_4 s;
         s = create_page_table_entry os ctx MM_SEG_STACK level_4 4 s;
         s = create_page_table_entry os ctx MM_SEG_CODE level_4 4 s;
         s = create_page_table_entry os ctx MM_SEG_DATA level_4 4 s
     in (ctx, s))"

section \<open>Taking them down\<close>

text \<open>\<open>levels\<close> holds the tables of the stack, the code and the data segment.\<close>

fun clean_page_table :: "os \<Rightarrow> exec_context \<Rightarrow> (nat \<Rightarrow> u64) \<Rightarrow> nat \<Rightarrow> frames \<Rightarrow> frames" where
  "clean_page_table os ctx levels 0 s = s"
| "clean_page_table os ctx levels (Suc n) s = (
     let indices = (\<lambda>segment. unat (get_index ctx segment (Suc n)));
         pfn = (\<lambda>segment. drop_bit 12 (vm s (levels segment) (indices segment)));
         next_levels = (\<lambda>segment. osmap os (pfn segment));
         stack_pfn = pfn MM_SEG_STACK;
         code_pfn = pfn MM_SEG_CODE;
         data_pfn = pfn MM_SEG_DATA;
         (region, s) = (if Suc n \<noteq> 1 then (OS_PT_REG, clean_page_table os ctx next_levels n s)
                        else (USER_REG, s));
         s = pfn_free region stack_pfn s;
         s = (if code_pfn \<noteq> stack_pfn then pfn_free region code_pfn s else s)
     in if data_pfn \<noteq> stack_pfn \<and> data_pfn \<noteq> code_pfn then pfn_free region data_pfn s else s)"

definition cleanup_context_mm :: "os \<Rightarrow> exec_context \<Rightarrow> frames \<Rightarrow> frames" where
  "cleanup_context_mm os ctx s = (
     let level_4 = osmap os (ucast (pgd ctx));
         s = clean_page_table os ctx (\<lambda>_. level_4) 4 s
     in pfn_free OS_PT_REG (ucast (pgd ctx)) s)"

section \<open>One level\<close>

definition access_bit :: "exec_context \<Rightarrow> nat \<Rightarrow> bool" where
  "access_bit ctx segment = bit (access_flags (mms ctx ! segment)) 1"

lemma get_index_va: "unat (get_index ctx segment n) = va_index (seg_va ctx segment) n"
  by (simp add: get_index_def va_index_def add.commute mult.commute)

lemma fill_entry_present:
  assumes "osmap_ok os" "unat t < 2 ^ 20" "i = va_index (seg_va ctx segment) n"
    and "present (entry os s t i)" "s' = fill_entry os ctx segment (osmap os t) n s"
  shows "made (entry os s' t i) (frame_of (entry os s t i))
           (bit (entry os s t i) 1 \<or> access_bit ctx segment)"
    and "entry_set os s s' t i None" and "hist s' = hist s"
proof -
  have s': "s' = set_entry (osmap os t) i
      (entry os s t i OR ucast (access_flags (mms ctx ! segment) AND 0x2)) s"
    using assms(3-5) by (simp add: fill_entry_def get_index_va entry_def present_def Let_def)
  show "made (entry os s' t i) (frame_of (entry os s t i))
           (bit (entry os s t i) 1 \<or> access_bit ctx segment)"
    using made_kept[OF assms(4)] by (simp add: s' entry_def vm_set_entry access_bit_def)
  show "entry_set os s s' t i None" and "hist s' = hist s"
    using assms(1,2) by (auto simp: entry_set_def s' entry_def vm_set_entry osmap_eq)
qed

lemma fill_entry_leaf:
  assumes "osmap_ok os" "unat t < 2 ^ 20" "i = va_index (seg_va ctx segment) 1"
    and "\<not> present (entry os s t i)" "s' = fill_entry os ctx segment (osmap os t) 1 s"
    and "p = (if segment = MM_SEG_DATA then arg_pfn ctx else os_pfn_alloc os (hist s) USER_REG)"
    and "unat p < 2 ^ 20"
  shows "made (entry os s' t i) (ucast p) (access_bit ctx segment)"
    and "entry_set os s s' t i None"
    and "hist s' = (if segment = MM_SEG_DATA then hist s else Alloc USER_REG p # hist s)"
proof -
  have e: "vm s (osmap os t) i AND 1 = 0" using assms(4) by (simp add: present_def entry_def)
  show "made (entry os s' t i) (ucast p) (access_bit ctx segment)"
    using made_leaf[OF assms(7), of "access_flags (mms ctx ! segment)"] e assms(3,5,6)
    by (auto simp: fill_entry_def get_index_va entry_def pfn_alloc_def Let_def vm_set_entry
        access_bit_def)
  show "entry_set os s s' t i None"
    and "hist s' = (if segment = MM_SEG_DATA then hist s else Alloc USER_REG p # hist s)"
    using e assms(1-3,5,6)
    by (auto simp: fill_entry_def get_index_va entry_def pfn_alloc_def Let_def vm_set_entry
        entry_set_def osmap_eq)
qed

lemma fill_entry_table:
  assumes "osmap_ok os" "unat t < 2 ^ 20" "i = va_index (seg_va ctx segment) n" "n \<noteq> 1"
    and "\<not> present (entry os s t i)" "s' = fill_entry os ctx segment (osmap os t) n s"
    and "p = os_pfn_alloc os (hist s) OS_PT_REG" "unat p < 2 ^ 20" "ucast p \<noteq> t"
  shows "made (entry os s' t i) (ucast p) (access_bit ctx segment)"
    and "entry_set os s s' t i (Some (ucast p))"
    and "hist s' = Alloc OS_PT_REG p # hist s"
proof -
  have e: "vm s (osmap os t) i AND 1 = 0" using assms(5) by (simp add: present_def entry_def)
  have u: "unat (ucast p :: u64) < 2 ^ 20" using assms(8) by simp
  have ne: "osmap os t \<noteq> osmap os (ucast p)"
    using osmap_eq[OF assms(1,2) u] assms(9) by blast
  have s': "s' = fill_entry os ctx segment (osmap os t) n s" by fact
  note body = fill_entry_def get_index_va entry_def pfn_alloc_def Let_def vm_set_entry vm_zero_page
  show "made (entry os s' t i) (ucast p) (access_bit ctx segment)"
    using made_table[OF assms(8), of "access_flags (mms ctx ! segment)"] e assms(3,4,7) ne
    by (simp add: s' body access_bit_def)
  show "hist s' = Alloc OS_PT_REG p # hist s"
    using e assms(3,4,7) by (simp add: s' body)
  show "entry_set os s s' t i (Some (ucast p))"
    unfolding entry_set_def
  proof (intro allI impI, elim conjE)
    fix r j assume r: "unat r < 2 ^ 20" "j < 512" "(r, j) \<noteq> (t, i)"
    have "osmap os r = osmap os t \<longleftrightarrow> r = t" "osmap os r = osmap os (ucast p) \<longleftrightarrow> r = ucast p"
      using osmap_eq[OF assms(1) r(1)] assms(2) u by blast+
    then show "entry os s' r j = (if Some (ucast p) = Some r then 0 else entry os s r j)"
      using e assms(3,4,7,9) ne r by (auto simp: s' body)
  qed
qed

definition leaf_frame :: "exec_context \<Rightarrow> nat \<Rightarrow> u64 option" where
  "leaf_frame ctx segment = (if segment = MM_SEG_DATA then Some (ucast (arg_pfn ctx)) else None)"

abbreviation seg_path :: "exec_context \<Rightarrow> nat \<Rightarrow> nat list" where
  "seg_path ctx segment \<equiv> va_path (seg_va ctx segment)"

lemma fill_entry_step:
  assumes set: "setting os N arg base root s" and len: "length (hist s) < N"
    and n: "1 \<le> n" "n \<le> 4" and t: "tabs os s root (take (4 - n) (seg_path ctx segment)) = Some t"
    and d: "leaf_frame ctx segment = None \<or> leaf_frame ctx segment = arg"
    and fresh: "\<And>a. leaf_frame ctx segment = Some a \<Longrightarrow>
      tabs os s root (seg_path ctx segment) = None \<Longrightarrow> a \<notin> ran (tabs os s root)"
    and s': "s' = fill_entry os ctx segment (osmap os t) n s"
  shows "\<exists>q. level_step os (access_bit ctx segment) (leaf_frame ctx segment) root
      (take (5 - n) (seg_path ctx segment)) q s s' \<and> setting os N arg base root s'"
proof -
  define js i where js: "js = take (4 - n) (seg_path ctx segment)" and i: "i = va_index (seg_va ctx segment) n"
  have path: "take (5 - n) (seg_path ctx segment) = js @ [i]" using va_path_take n js i by simp
  have l: "length js \<le> 3" "i < 512" "length js = 4 - n" using n by (simp_all add: js i va_index_less)
  note m = settingD(1)[OF set] and sp = settingD(4)[OF set]
  have tj: "tabs os s root js = Some t" using t js by simp
  have tb: "unat t < 2 ^ 20" using spaceD(3)[OF sp tj l(1)] .
  consider (kept) "present (entry os s t i)"
    | (data) "\<not> present (entry os s t i)" "n = 1" "segment = MM_SEG_DATA"
    | (leaf) "\<not> present (entry os s t i)" "n = 1" "segment \<noteq> MM_SEG_DATA"
    | (table) "\<not> present (entry os s t i)" "n \<noteq> 1"
    by blast
  then show ?thesis
  proof cases
    case kept
    note f = fill_entry_present[OF m tb i kept s']
    show ?thesis unfolding path using level_step_keep[OF set tj l(1,2) kept f(2,3,1)] by blast
  next
    case data
    let ?a = "ucast (arg_pfn ctx) :: u64"
    have d': "leaf_frame ctx segment = Some ?a" using data by (simp add: leaf_frame_def)
    then have arg: "arg = Some ?a" using d by simp
    have "unat (arg_pfn ctx) < 2 ^ 20" using settingD(6)[OF set arg] by simp
    then have f: "made (entry os s' t i) ?a (access_bit ctx segment)"
        "entry_set os s s' t i None" "hist s' = hist s"
      using fill_entry_leaf[OF m tb i[unfolded data(2)] data(1) s'[unfolded data(2)] refl] data(3)
      by simp_all
    have "seg_path ctx segment = js @ [i]" using path data by simp
    then have "tabs os s root (seg_path ctx segment) = None" using tj l data by (simp add: tabs_snoc)
    then have "?a \<notin> ran (tabs os s root)" using fresh d' by blast
    then show ?thesis
      unfolding path d' arg
      using level_step_given[OF set[unfolded arg] tj _ l(2) data(1) f(2,3,1)] l data by auto
  next
    case leaf
    have r: "region_at (js @ [i]) = USER_REG" using l leaf by (simp add: region_at_def)
    define p where "p = os_pfn_alloc os (hist s) (region_at (js @ [i]))"
    note fr = setting_alloc[OF set len p_def]
    have f: "made (entry os s' t i) (ucast p) (access_bit ctx segment)"
        "entry_set os s s' t i None" "hist s' = Alloc (region_at (js @ [i])) p # hist s"
      using fill_entry_leaf[OF m tb i[unfolded leaf(2)] leaf(1) s'[unfolded leaf(2)] refl] fr
        leaf(3) p_def r by simp_all
    show ?thesis
      unfolding path using level_step_new[OF set len tj l(1,2) leaf(1) _ p_def f(2) _ f(3,1)] l leaf
      by (auto simp: leaf_frame_def)
  next
    case table
    have r: "region_at (js @ [i]) = OS_PT_REG" using l table n by (simp add: region_at_def)
    define p where "p = os_pfn_alloc os (hist s) (region_at (js @ [i]))"
    note fr = setting_alloc[OF set len p_def]
    have nt: "ucast p \<noteq> t" using fr(1) space_in_live[OF sp tj] by (metis image_eqI snd_conv)
    have l3: "length js \<noteq> 3" using l(3) table(2) n by linarith
    note f = fill_entry_table[OF m tb i table(2,1) s' p_def[unfolded r] fr(2) nt]
    have "\<not> present (entry os s' (ucast p) j)" if "j < 512" for j
      using f(2) that fr(2) nt by (auto simp: entry_set_def present_def)
    then show ?thesis
      unfolding path
      using level_step_new[OF set len tj l(1,2) table(1) _ p_def f(2) _ _ f(1),
          where d = "leaf_frame ctx segment"] f(3) r l3 by auto
  qed
qed

interpretation create: level_filler os "seg_va ctx segment" "access_bit ctx segment"
    "leaf_frame ctx segment" "\<lambda>_ _. True" "fill_entry os ctx segment"
    "create_page_table_entry os ctx segment"
  for os ctx segment
proof (unfold_locales, goal_cases)
  case (1 N arg base root s n t)
  then show ?case using fill_entry_step[OF 1(1,3-8) refl] by simp
next
  case (2 a s)
  then show ?case using create_page_table_entry.simps(2)[of os ctx segment a 0 s] by (simp add: Let_def)
next
  case (3 n a s)
  then show ?case by (simp add: Let_def get_index_va frame_of_def)
qed

section \<open>The address space\<close>

definition seg_pages_distinct :: "exec_context \<Rightarrow> bool" where
  "seg_pages_distinct ctx \<longleftrightarrow> seg_path ctx MM_SEG_STACK \<noteq> seg_path ctx MM_SEG_CODE
     \<and> seg_path ctx MM_SEG_STACK \<noteq> seg_path ctx MM_SEG_DATA
     \<and> seg_path ctx MM_SEG_CODE \<noteq> seg_path ctx MM_SEG_DATA"

definition mapped_segs :: "nat set" where
  "mapped_segs = {MM_SEG_STACK, MM_SEG_CODE, MM_SEG_DATA}"

text \<open>The state in which \<open>prepare_context_mm\<close> is called: the argument frame is in use.\<close>

definition prepare_pre :: "os \<Rightarrow> nat \<Rightarrow> exec_context \<Rightarrow> frames \<Rightarrow> bool" where
  "prepare_pre os N ctx s \<longleftrightarrow> osmap_ok os \<and> frames_ok os N \<and> history os (hist s)
     \<and> length (hist s) + 13 \<le> N \<and> (USER_REG, ucast (arg_pfn ctx)) \<in> live (hist s)
     \<and> unat (arg_pfn ctx) < 2 ^ 20 \<and> seg_pages_distinct ctx"

text \<open>What the tables look like when the segments of \<open>S\<close> are mapped.\<close>

definition mapped_space ::
  "os \<Rightarrow> nat \<Rightarrow> exec_context \<Rightarrow> (region \<times> u64) set \<Rightarrow> nat set \<Rightarrow> frames \<Rightarrow> bool" where
  "mapped_space os N ctx base S s \<longleftrightarrow> setting os N (Some (ucast (arg_pfn ctx))) base (ucast (pgd ctx)) s
     \<and> (\<forall>js. tabs os s (ucast (pgd ctx)) js \<noteq> None \<longrightarrow>
          js = [] \<or> (\<exists>k. \<exists>segment\<in>S. js = take k (seg_path ctx segment)))
     \<and> (\<forall>segment\<in>S. tabs os s (ucast (pgd ctx)) (seg_path ctx segment) \<noteq> None
          \<and> writable os s (ucast (pgd ctx)) (seg_path ctx segment) = access_bit ctx segment
          \<and> (\<forall>k. 0 < k \<and> k \<le> 4 \<and> access_bit ctx segment \<longrightarrow>
               writable os s (ucast (pgd ctx)) (take k (seg_path ctx segment)))
          \<and> (tabs os s (ucast (pgd ctx)) (seg_path ctx segment) = Some (ucast (arg_pfn ctx)))
               = (segment = MM_SEG_DATA))"

lemma seg_path_take: "seg_path ctx x = take k (seg_path ctx y) \<Longrightarrow> seg_path ctx x = seg_path ctx y"
  by (metis length_take min.absorb_iff1 take_all va_path_simps(1))

lemma mapped_space_step:
  assumes ms: "mapped_space os N ctx base S s" and len: "length (hist s) + 4 \<le> N"
    and new: "\<forall>x\<in>S. seg_path ctx x \<noteq> seg_path ctx segment" and nd: "MM_SEG_DATA \<notin> S"
    and s': "s' = create_page_table_entry os ctx segment (osmap os (ucast (pgd ctx))) 4 s"
  shows "mapped_space os N ctx base (insert segment S) s' \<and> length (hist s') \<le> length (hist s) + 4"
proof -
  let ?r = "ucast (pgd ctx) :: u64" and ?P = "seg_path ctx segment"
  have set: "setting os N (Some (ucast (arg_pfn ctx))) base ?r s"
    and dom: "\<And>js. tabs os s ?r js \<noteq> None \<Longrightarrow> js = [] \<or> (\<exists>k. \<exists>x\<in>S. js = take k (seg_path ctx x))"
    and segs: "\<And>x. x \<in> S \<Longrightarrow> tabs os s ?r (seg_path ctx x) \<noteq> None
          \<and> writable os s ?r (seg_path ctx x) = access_bit ctx x
          \<and> (\<forall>k. 0 < k \<and> k \<le> 4 \<and> access_bit ctx x \<longrightarrow> writable os s ?r (take k (seg_path ctx x)))
          \<and> (tabs os s ?r (seg_path ctx x) = Some (ucast (arg_pfn ctx))) = (x = MM_SEG_DATA)"
    using ms unfolding mapped_space_def by blast+
  have ne: "seg_path ctx x \<noteq> []" for x by (simp add: va_path_def)
  have none: "tabs os s ?r ?P = None"
    using dom[of ?P] seg_path_take new ne by metis
  have sp: "space base (Some (ucast (arg_pfn ctx))) (tabs os s ?r) (hist s)"
    using set by (simp add: setting_def)
  have arg: "ucast (arg_pfn ctx) \<notin> ran (tabs os s ?r)"
  proof
    assume "ucast (arg_pfn ctx) \<in> ran (tabs os s ?r)"
    then obtain js where js: "tabs os s ?r js = Some (ucast (arg_pfn ctx))" by (auto simp: ran_def)
    then have l: "length js = 4" using spaceD(5)[OF sp] by simp
    then obtain k x where x: "x \<in> S" "js = take k (seg_path ctx x)" using dom[of js] js by auto
    then have "js = seg_path ctx x" using l by (metis length_take min.absorb_iff1 take_all va_path_simps(1))
    then show False using segs[OF x(1)] js x(1) nd by metis
  qed
  have "built os (access_bit ctx segment) (leaf_frame ctx segment) ?P ?r 4 s s'
      \<and> setting os N (Some (ucast (arg_pfn ctx))) base ?r s'"
    unfolding s' using arg
    by (intro create.walk_built[OF set _ len]) (auto simp: leaf_frame_def split: if_splits)
  then have set': "setting os N (Some (ucast (arg_pfn ctx))) base ?r s'"
    and b: "built os (access_bit ctx segment) (leaf_frame ctx segment) ?P ?r 4 s s'" by blast+
  have le: "tabs os s ?r \<subseteq>\<^sub>m tabs os s' ?r" and l': "length (hist s') \<le> length (hist s) + 4"
    and dom': "\<And>js. tabs os s' ?r js \<noteq> None \<Longrightarrow> tabs os s ?r js \<noteq> None \<or> (\<exists>k. js = take k ?P)"
    and P: "tabs os s' ?r ?P \<noteq> None" "writable os s' ?r ?P = access_bit ctx segment"
      "\<And>k. 0 < k \<Longrightarrow> k \<le> 4 \<Longrightarrow> access_bit ctx segment \<Longrightarrow> writable os s' ?r (take k ?P)"
    and Pf: "\<And>f. tabs os s' ?r ?P = Some f \<Longrightarrow> leaf_frame ctx segment = Some f
      \<or> leaf_frame ctx segment = None \<and> f \<notin> snd ` live (hist s) \<and> unat f < 2 ^ 20"
    using b none unfolding built_def by simp_all
  have "(tabs os s' ?r ?P = Some (ucast (arg_pfn ctx))) = (segment = MM_SEG_DATA)"
  proof (cases "segment = MM_SEG_DATA")
    case True
    then show ?thesis using Pf P(1) by (auto simp: leaf_frame_def)
  next
    case False
    then have "ucast (arg_pfn ctx) \<notin> snd ` live (hist s)" if "tabs os s' ?r ?P = Some (ucast (arg_pfn ctx))"
      using Pf[OF that] by (simp add: leaf_frame_def)
    then show ?thesis using False setting_arg_live[OF set] by blast
  qed
  note P = P this
  have wmono: "writable os s' ?r js"
    if "js \<noteq> []" "tabs os s ?r js \<noteq> None" "writable os s ?r js" for js
    using b that unfolding built_def by simp
  have wsame: "writable os s' ?r js = writable os s ?r js"
    if "js \<noteq> []" "tabs os s ?r js \<noteq> None" "\<forall>k. js \<noteq> take k ?P" for js
    using b that unfolding built_def by simp
  have old: "tabs os s' ?r (seg_path ctx x) = tabs os s ?r (seg_path ctx x)"
      "writable os s' ?r (seg_path ctx x) = access_bit ctx x"
      "\<And>k. 0 < k \<Longrightarrow> k \<le> 4 \<Longrightarrow> access_bit ctx x \<Longrightarrow> writable os s' ?r (take k (seg_path ctx x))"
    if x: "x \<in> S" for x
  proof -
    show "tabs os s' ?r (seg_path ctx x) = tabs os s ?r (seg_path ctx x)"
      using le segs[OF x] unfolding map_le_def by (metis domIff)
    show "writable os s' ?r (seg_path ctx x) = access_bit ctx x"
      using wsame[OF ne[of x]] segs[OF x] seg_path_take new x by metis
    show "writable os s' ?r (take k (seg_path ctx x))" if "0 < k" "k \<le> 4" "access_bit ctx x" for k
      using wmono[of "take k (seg_path ctx x)"] ne[of x] segs[OF x] that tabs_prefix by auto
  qed
  have "js = [] \<or> (\<exists>k. \<exists>x\<in>insert segment S. js = take k (seg_path ctx x))"
    if "tabs os s' ?r js \<noteq> None" for js using dom'[OF that] dom by blast
  then show ?thesis
    using set' l' P old segs unfolding mapped_space_def by simp
qed

lemma prepare_root:
  assumes "prepare_pre os N ctx s" "p = os_pfn_alloc os (hist s) OS_PT_REG"
    and "s0 = zero_page (osmap os (ucast p)) (s\<lparr>hist := Alloc OS_PT_REG p # hist s\<rparr>)"
  shows "mapped_space os N (ctx\<lparr>pgd := p\<rparr>) (live (hist s)) {} s0"
    and "unat p < 2 ^ 20"
proof -
  have pre: "osmap_ok os" "frames_ok os N" "history os (hist s)" "length (hist s) < N"
    "(USER_REG, ucast (arg_pfn ctx)) \<in> live (hist s)" "unat (arg_pfn ctx) < 2 ^ 20"
    using assms(1) by (simp_all add: prepare_pre_def)
  have p: "get_mem_region p = Some OS_PT_REG" "ucast p \<notin> snd ` live (hist s)"
    using pre assms(2) unfolding frames_ok_def by blast+
  then have na: "ucast p \<noteq> (ucast (arg_pfn ctx) :: u64)" using pre(5) by (metis image_eqI snd_conv)
  show pb: "unat p < 2 ^ 20" using region_pfn_bound[OF p(1)] by simp
  have e: "entry os s0 (ucast p) j = 0" if "j < 512" for j
    using that by (simp add: entry_def assms(3) vm_zero_page)
  have t1: "tabs os s0 (ucast p) (j # js) = None" for j js
    by (auto simp: tabs_def valid_path_def e present_def)
  then have t: "tabs os s0 (ucast p) = [[] \<mapsto> ucast p]"
    by (intro ext) (metis fun_upd_apply neq_Nil_conv tabs_Nil)
  have "space (live (hist s)) (Some (ucast (arg_pfn ctx))) [[] \<mapsto> ucast p] (hist s0)"
    using p pb na assms(3) by (auto simp: space_def owned_def region_at_def image_iff split: if_splits)
  then show "mapped_space os N (ctx\<lparr>pgd := p\<rparr>) (live (hist s)) {} s0"
    using pre assms(2,3) t by (auto simp: mapped_space_def setting_def)
qed

lemma seg_path_pgd [simp]: "seg_va (ctx\<lparr>pgd := p\<rparr>) x = seg_va ctx x"
  by (simp add: seg_va_def)

lemma prepare_context_mm_mapped:
  assumes pre: "prepare_pre os N ctx s" and run: "prepare_context_mm os ctx s = (ctx', s')"
  shows "ctx' = ctx\<lparr>pgd := pgd ctx'\<rparr>" "mapped_space os N ctx' (live (hist s)) mapped_segs s'"
proof -
  define p where "p = os_pfn_alloc os (hist s) OS_PT_REG"
  define c where "c = ctx\<lparr>pgd := p\<rparr>"
  define s0 where "s0 = zero_page (osmap os (ucast p)) (s\<lparr>hist := Alloc OS_PT_REG p # hist s\<rparr>)"
  define s1 where "s1 = create_page_table_entry os c MM_SEG_STACK (osmap os (ucast (pgd c))) 4 s0"
  define s2 where "s2 = create_page_table_entry os c MM_SEG_CODE (osmap os (ucast (pgd c))) 4 s1"
  define s3 where "s3 = create_page_table_entry os c MM_SEG_DATA (osmap os (ucast (pgd c))) 4 s2"
  have "prepare_context_mm os ctx s = (c, s3)"
    by (simp add: prepare_context_mm_def pfn_alloc_def Let_def p_def c_def s0_def s1_def s2_def s3_def)
  then have r: "ctx' = c" "s' = s3" using run by simp_all
  then show "ctx' = ctx\<lparr>pgd := pgd ctx'\<rparr>" by (simp add: c_def)
  have d: "seg_path c MM_SEG_STACK \<noteq> seg_path c MM_SEG_CODE"
    "seg_path c MM_SEG_STACK \<noteq> seg_path c MM_SEG_DATA"
    "seg_path c MM_SEG_CODE \<noteq> seg_path c MM_SEG_DATA" and len: "length (hist s) + 13 \<le> N"
    using pre by (simp_all add: prepare_pre_def seg_pages_distinct_def c_def)
  have l0: "length (hist s0) = length (hist s) + 1" by (simp add: s0_def)
  have m0: "mapped_space os N c (live (hist s)) {} s0"
    unfolding c_def by (rule prepare_root[OF pre p_def s0_def])
  have m1: "mapped_space os N c (live (hist s)) {MM_SEG_STACK} s1 \<and> length (hist s1) \<le> length (hist s) + 5"
    using mapped_space_step[OF m0 _ _ _ s1_def] len l0 by simp
  have m2: "mapped_space os N c (live (hist s)) {MM_SEG_CODE, MM_SEG_STACK} s2
      \<and> length (hist s2) \<le> length (hist s) + 9"
    using mapped_space_step[OF conjunct1[OF m1] _ _ _ s2_def] conjunct2[OF m1] len d
    by (simp add: mm_segs)
  have "mapped_space os N c (live (hist s)) {MM_SEG_DATA, MM_SEG_CODE, MM_SEG_STACK} s3"
    using mapped_space_step[OF conjunct1[OF m2] _ _ _ s3_def] conjunct2[OF m2] len d
    by (simp add: mm_segs)
  then show "mapped_space os N ctx' (live (hist s)) mapped_segs s'"
    using r by (simp add: mapped_segs_def insert_commute)
qed

section \<open>Freeing\<close>

definition free_events :: "(region \<times> u64) list \<Rightarrow> frame_event list" where
  "free_events fs = map (\<lambda>(r, p). Free r p) fs"

lemma live_free_events: "live (free_events fs @ h) = live h - set fs"
proof (induction fs)
  case (Cons f fs)
  obtain r p where f: "f = (r, p)" by (cases f)
  have "live (free_events (f # fs) @ h) = live (free_events fs @ h) - {f}"
    unfolding free_events_def f by (simp only: list.map prod.case append_Cons live.simps)
  then show ?case unfolding Cons.IH by (simp only: list.set) blast
qed (simp only: free_events_def list.map append_Nil list.set Diff_empty)

text \<open>The frames at the end of the prefixes of length \<open>k\<close> of the three pages.\<close>

definition frames_at :: "os \<Rightarrow> exec_context \<Rightarrow> frames \<Rightarrow> nat \<Rightarrow> (region \<times> u64) set" where
  "frames_at os ctx s k = {(region_at js, p) | js p. \<exists>x\<in>mapped_segs.
     js = take k (seg_path ctx x) \<and> tabs os s (ucast (pgd ctx)) js = Some p}"

lemma free_three:
  assumes "s' = (let s = pfn_free r (f MM_SEG_STACK) s;
         s = (if f MM_SEG_CODE \<noteq> f MM_SEG_STACK then pfn_free r (f MM_SEG_CODE) s else s)
     in if f MM_SEG_DATA \<noteq> f MM_SEG_STACK \<and> f MM_SEG_DATA \<noteq> f MM_SEG_CODE
        then pfn_free r (f MM_SEG_DATA) s else s)"
  shows "\<exists>fs. hist s' = free_events fs @ hist s \<and> distinct fs
    \<and> set fs = (\<lambda>x. (r, f x)) ` mapped_segs \<and> vm s' = vm s"
proof -
  let ?fs = "(if f MM_SEG_DATA \<noteq> f MM_SEG_STACK \<and> f MM_SEG_DATA \<noteq> f MM_SEG_CODE
      then [(r, f MM_SEG_DATA)] else []) @
    (if f MM_SEG_CODE \<noteq> f MM_SEG_STACK then [(r, f MM_SEG_CODE)] else []) @ [(r, f MM_SEG_STACK)]"
  show ?thesis
    by (rule exI[of _ ?fs]) (auto simp: assms free_events_def mapped_segs_def Let_def)
qed

lemma clean_page_table_frees:
  assumes "mapped_space os N ctx base mapped_segs s0" "n \<le> 4"
    and "\<And>x. x \<in> mapped_segs \<Longrightarrow> \<exists>t. levels x = osmap os t
      \<and> tabs os s0 (ucast (pgd ctx)) (take (4 - n) (seg_path ctx x)) = Some t"
    and "vm s = vm s0"
  shows "\<exists>fs. hist (clean_page_table os ctx levels n s) = free_events fs @ hist s
    \<and> distinct fs \<and> set fs = (\<Union>k\<in>{4 - n <.. 4}. frames_at os ctx s0 k)
    \<and> vm (clean_page_table os ctx levels n s) = vm s0"
  using assms(2-4)
proof (induction n arbitrary: levels s)
  case 0
  then show ?case by (intro exI[of _ "[]"]) (simp add: free_events_def)
next
  case (Suc n)
  let ?root = "ucast (pgd ctx) :: u64"
  define pfn where "pfn = (\<lambda>x. drop_bit 12 (vm s (levels x) (unat (get_index ctx x (Suc n)))))"
  have sp: "space base (Some (ucast (arg_pfn ctx))) (tabs os s0 ?root) (hist s0)"
    and segs: "\<And>x. x \<in> mapped_segs \<Longrightarrow> tabs os s0 ?root (seg_path ctx x) \<noteq> None"
    using assms(1) by (simp_all add: mapped_space_def setting_def)
  have pfn: "tabs os s0 ?root (take (4 - n) (seg_path ctx x)) = Some (pfn x)" if x: "x \<in> mapped_segs" for x
  proof -
    obtain t where t: "levels x = osmap os t"
      "tabs os s0 ?root (take (4 - Suc n) (seg_path ctx x)) = Some t"
      using Suc.prems(2)[OF x] by blast
    have "take (4 - n) (seg_path ctx x) = take (4 - Suc n) (seg_path ctx x) @ [va_index (seg_va ctx x) (Suc n)]"
      using va_path_take[of "Suc n"] Suc.prems(1) by simp
    then show ?thesis
      using tabs_prefix[OF segs[OF x], of "4 - n"] t Suc.prems(3)
      by (auto simp: tabs_snoc pfn_def get_index_va entry_def frame_of_def split: if_splits)
  qed
  define r where "r = (if Suc n \<noteq> 1 then OS_PT_REG else USER_REG)"
  define s1 where "s1 = (if Suc n \<noteq> 1 then clean_page_table os ctx (\<lambda>x. osmap os (pfn x)) n s else s)"
  have ra: "region_at (take (4 - n) (seg_path ctx x)) = r" for x
    using Suc.prems(1) by (auto simp: region_at_def r_def)
  have fa: "frames_at os ctx s0 (4 - n) = (\<lambda>x. (r, pfn x)) ` mapped_segs"
    using pfn ra by (force simp: frames_at_def)
  have "\<exists>fs. hist s1 = free_events fs @ hist s \<and> distinct fs
      \<and> set fs = (\<Union>k\<in>{4 - n <.. 4}. frames_at os ctx s0 k) \<and> vm s1 = vm s0"
  proof (cases "n = 0")
    case False
    then show ?thesis
      using Suc.IH[of "\<lambda>x. osmap os (pfn x)" s] Suc.prems pfn by (simp add: s1_def)
  next
    case True
    then show ?thesis using Suc.prems by (intro exI[of _ "[]"]) (simp add: free_events_def s1_def)
  qed
  then obtain fs where fs: "hist s1 = free_events fs @ hist s" "distinct fs"
      "set fs = (\<Union>k\<in>{4 - n <.. 4}. frames_at os ctx s0 k)" "vm s1 = vm s0" by blast
  have "clean_page_table os ctx levels (Suc n) s = (let s = pfn_free r (pfn MM_SEG_STACK) s1;
         s = (if pfn MM_SEG_CODE \<noteq> pfn MM_SEG_STACK then pfn_free r (pfn MM_SEG_CODE) s else s)
     in if pfn MM_SEG_DATA \<noteq> pfn MM_SEG_STACK \<and> pfn MM_SEG_DATA \<noteq> pfn MM_SEG_CODE
        then pfn_free r (pfn MM_SEG_DATA) s else s)"
    by (simp add: pfn_def s1_def r_def Let_def)
  from free_three[OF this] obtain gs where gs:
    "hist (clean_page_table os ctx levels (Suc n) s) = free_events gs @ hist s1" "distinct gs"
    "set gs = frames_at os ctx s0 (4 - n)"
    "vm (clean_page_table os ctx levels (Suc n) s) = vm s1"
    unfolding fa by blast
  have "frames_at os ctx s0 (4 - n) \<inter> frames_at os ctx s0 k = {}" if "4 - n < k" "k \<le> 4" for k
  proof -
    have "js \<noteq> js'" if "js = take (4 - n) (seg_path ctx x)" "js' = take k (seg_path ctx y)" for js js' x y
      using that \<open>4 - n < k\<close> \<open>k \<le> 4\<close> by (metis length_take min.absorb2 nat_less_le va_path_simps(1) less_or_eq_imp_le order_le_less_trans)
    then show ?thesis using spaceD(2)[OF sp] unfolding frames_at_def by blast
  qed
  then have "set gs \<inter> set fs = {}" unfolding gs(3) fs(3) by (simp add: Int_UN_distrib)
  moreover have "{4 - Suc n <.. 4} = insert (4 - n) {4 - n <.. 4}" using Suc.prems(1) by auto
  ultimately show ?case
    using gs fs by (intro exI[of _ "gs @ fs"]) (simp add: free_events_def)
qed

lemma cleanup_frees_owned:
  assumes ms: "mapped_space os N ctx base mapped_segs s"
  shows "\<exists>fs. hist (cleanup_context_mm os ctx s) = free_events fs @ hist s
    \<and> distinct fs \<and> set fs = owned (tabs os s (ucast (pgd ctx)))"
proof -
  let ?r = "ucast (pgd ctx) :: u64"
  define s1 where "s1 = clean_page_table os ctx (\<lambda>_. osmap os ?r) 4 s"
  obtain fs where fs: "hist s1 = free_events fs @ hist s" "distinct fs"
    "set fs = (\<Union>k\<in>{0 <.. 4}. frames_at os ctx s k)"
    using clean_page_table_frees[OF ms, of 4 "\<lambda>_. osmap os ?r" s] unfolding s1_def by auto
  have sp: "space base (Some (ucast (arg_pfn ctx))) (tabs os s ?r) (hist s)"
    and dom: "\<And>js. tabs os s ?r js \<noteq> None \<Longrightarrow>
      js = [] \<or> (\<exists>k. \<exists>x\<in>mapped_segs. js = take k (seg_path ctx x))"
    using ms by (simp_all add: mapped_space_def setting_def)
  have root: "region_at [] = OS_PT_REG" by (simp add: region_at_def)
  have sub: "set fs \<subseteq> owned (tabs os s ?r)" unfolding fs(3) frames_at_def owned_def by blast
  have "(OS_PT_REG, ?r) \<notin> set fs"
  proof
    assume "(OS_PT_REG, ?r) \<in> set fs"
    then obtain k x where "0 < k" "tabs os s ?r (take k (seg_path ctx x)) = Some ?r"
      unfolding fs(3) frames_at_def by auto
    then have "take k (seg_path ctx x) = []" using spaceD(2)[OF sp _ tabs_Nil] by blast
    then show False using \<open>0 < k\<close> by (simp add: va_path_def)
  qed
  moreover have "owned (tabs os s ?r) \<subseteq> insert (OS_PT_REG, ?r) (set fs)"
  proof
    fix y assume "y \<in> owned (tabs os s ?r)"
    then obtain js p where y: "y = (region_at js, p)" "tabs os s ?r js = Some p"
      unfolding owned_def by blast
    then consider "js = []" | k x where "x \<in> mapped_segs" "js = take k (seg_path ctx x)"
      using dom[of js] by auto
    then show "y \<in> insert (OS_PT_REG, ?r) (set fs)"
    proof cases
      case 1 then show ?thesis using y root by simp
    next
      case (2 k x)
      have "js = take (min k 4) (seg_path ctx x)" using 2(2) by (simp add: min_def)
      moreover have "js = [] \<or> 0 < min k 4" using 2(2) by auto
      ultimately show ?thesis
        using y 2(1) root unfolding fs(3) frames_at_def by (cases "js = []") force+
    qed
  qed
  moreover have "(OS_PT_REG, ?r) \<in> owned (tabs os s ?r)"
    using root by (auto simp: owned_def intro!: exI[of _ "[]"])
  ultimately show ?thesis
    using fs sub by (intro exI[of _ "(OS_PT_REG, ?r) # fs"])
      (auto simp: cleanup_context_mm_def s1_def[symmetric] free_events_def Let_def)
qed

section \<open>A context with the segments of gemOS\<close>

definition demo_ctx :: exec_context where
  "demo_ctx = \<lparr>ctx_id = 1, ctx_type = 2, status = 0, used_mem = 0, pgd = 0,
     mms = [\<lparr>start = 0x100000000, seg_end = 0x100008000, access_flags = 5\<rparr>,
            \<lparr>start = 0x140000000, seg_end = 0x140001000, access_flags = 1\<rparr>,
            \<lparr>start = 0x180000000, seg_end = 0x180001000, access_flags = 3\<rparr>,
            \<lparr>start = 0x800000000 - 0x1000000, seg_end = 0x800000000, access_flags = 3\<rparr>],
     ctx_name = [], arg_pfn = 0x6400, num_args = 0\<rparr>"

definition demo_frames :: frames where
  "demo_frames = \<lparr>vm = (\<lambda>_ _. 0), hist = [Alloc USER_REG 0x6400]\<rparr>"

lemma demo_segs:
  "seg_va demo_ctx MM_SEG_CODE = 0x100000000" "seg_va demo_ctx MM_SEG_DATA = 0x180000000"
  "seg_va demo_ctx MM_SEG_STACK = 0x7FFFFF000" "arg_pfn demo_ctx = 0x6400"
  "\<not> access_bit demo_ctx MM_SEG_CODE" "access_bit demo_ctx MM_SEG_DATA"
  by (simp_all add: seg_va_def demo_ctx_def mm_segs access_bit_def bit_numeral_rec)

lemma demo_prepare_pre: "prepare_pre demo_os 100 demo_ctx demo_frames"
  unfolding prepare_pre_def seg_pages_distinct_def demo_segs
  using demo_osmap_ok demo_frames_ok
  by (simp add: demo_frames_def demo_os_def demo_base_def va_path_def va_index_def)

section \<open>Properties\<close>

text \<open>The permission of the memory management unit: the bit is set on all four levels.\<close>

definition mmu_writable :: "os \<Rightarrow> frames \<Rightarrow> u64 \<Rightarrow> nat list \<Rightarrow> bool" where
  "mmu_writable os s root is = list_all (\<lambda>k. writable os s root (take k is)) [1, 2, 3, 4]"

lemma mapped_mmu_writable:
  assumes "mapped_space os N ctx base S s" "x \<in> S"
  shows "mmu_writable os s (ucast (pgd ctx)) (seg_path ctx x) = access_bit ctx x"
  using assms unfolding mapped_space_def mmu_writable_def by auto

text \<open>
  C19: After \<open>prepare_context_mm\<close> the walk of the page tables finds a frame for the top page of the
  stack and the first pages of code and data; the data page, and only it, is the frame of the
  arguments; a page can be written exactly when its segment's access flags allow it, although
  the segments share upper-level tables; and no other page is mapped.
\<close>

theorem prepare_context_mm_maps:
  assumes pre: "prepare_pre os N ctx s" and run: "prepare_context_mm os ctx s = (ctx', s')"
  shows "(\<forall>x\<in>mapped_segs. \<exists>f. table_of os s' (ucast (pgd ctx')) (va_path (seg_va ctx x)) = Some f
      \<and> (f = ucast (arg_pfn ctx) \<longleftrightarrow> x = MM_SEG_DATA)
      \<and> (USER_REG, f) \<in> live (hist s')
      \<and> mmu_writable os s' (ucast (pgd ctx')) (va_path (seg_va ctx x)) = access_bit ctx x)
    \<and> (\<forall>is. valid_path is \<and> length is = 4 \<and> table_of os s' (ucast (pgd ctx')) is \<noteq> None \<longrightarrow>
      is \<in> (\<lambda>x. va_path (seg_va ctx x)) ` mapped_segs)"
proof -
  let ?r = "ucast (pgd ctx') :: u64"
  note p = prepare_context_mm_mapped[OF pre run]
  have c: "seg_va ctx' = seg_va ctx" "access_bit ctx' = access_bit ctx" "arg_pfn ctx' = arg_pfn ctx"
    by (subst p(1), simp add: fun_eq_iff access_bit_def)+
  have sp: "space (live (hist s)) (Some (ucast (arg_pfn ctx))) (tabs os s' ?r) (hist s')"
    using p(2) by (simp add: mapped_space_def setting_def c)
  have "\<forall>x\<in>mapped_segs. \<exists>f. table_of os s' ?r (va_path (seg_va ctx x)) = Some f
      \<and> (f = ucast (arg_pfn ctx) \<longleftrightarrow> x = MM_SEG_DATA)
      \<and> (USER_REG, f) \<in> live (hist s')
      \<and> mmu_writable os s' ?r (va_path (seg_va ctx x)) = access_bit ctx x"
  proof
    fix x assume x: "x \<in> mapped_segs"
    then obtain f where f: "tabs os s' ?r (va_path (seg_va ctx x)) = Some f"
      "f = ucast (arg_pfn ctx) \<longleftrightarrow> x = MM_SEG_DATA"
      using p(2) unfolding mapped_space_def c by fastforce
    then show "\<exists>f. table_of os s' ?r (va_path (seg_va ctx x)) = Some f
      \<and> (f = ucast (arg_pfn ctx) \<longleftrightarrow> x = MM_SEG_DATA)
      \<and> (USER_REG, f) \<in> live (hist s')
      \<and> mmu_writable os s' ?r (va_path (seg_va ctx x)) = access_bit ctx x"
      using mapped_mmu_writable[OF p(2) x] space_in_live[OF sp f(1)]
      by (simp add: c tabs_def region_at_def)
  qed
  moreover have "\<forall>is. valid_path is \<and> length is = 4 \<and> table_of os s' ?r is \<noteq> None \<longrightarrow>
      is \<in> (\<lambda>x. va_path (seg_va ctx x)) ` mapped_segs"
  proof (intro allI impI, elim conjE)
    fix js assume js: "valid_path js" "length js = 4" "table_of os s' ?r js \<noteq> None"
    then have "tabs os s' ?r js \<noteq> None" "js \<noteq> []" by (auto simp: tabs_def)
    then obtain k x where x: "x \<in> mapped_segs" "js = take k (va_path (seg_va ctx x))"
      using p(2) unfolding mapped_space_def c by blast
    then have "js = va_path (seg_va ctx x)"
      using js(2) by (metis length_take min.absorb_iff1 take_all va_path_simps(1))
    then show "js \<in> (\<lambda>x. va_path (seg_va ctx x)) ` mapped_segs" using x(1) by blast
  qed
  ultimately show ?thesis by (rule conjI)
qed

theorem prepare_context_mm_maps_witness:
  "\<exists>ctx' s'. prepare_context_mm demo_os demo_ctx demo_frames = (ctx', s')
     \<and> table_of demo_os s' (ucast (pgd ctx')) (va_path 0x180000000) = Some 0x6400
     \<and> mmu_writable demo_os s' (ucast (pgd ctx')) (va_path 0x180000000)
     \<and> \<not> mmu_writable demo_os s' (ucast (pgd ctx')) (va_path 0x100000000)"
proof -
  obtain ctx' s' where r: "prepare_context_mm demo_os demo_ctx demo_frames = (ctx', s')"
    by (cases "prepare_context_mm demo_os demo_ctx demo_frames")
  note m = conjunct1[OF prepare_context_mm_maps[OF demo_prepare_pre r]]
  show ?thesis
    using m[THEN bspec, of MM_SEG_DATA] m[THEN bspec, of MM_SEG_CODE] r demo_segs
    by (auto simp: mapped_segs_def)
qed

text \<open>
  C20: \<open>cleanup_context_mm\<close> undoes \<open>prepare_context_mm\<close>: the frames it frees were in use, each is
  freed once and in the region it came from, and afterwards the frames in use are those from
  before, less the argument frame that became the data page.
\<close>

theorem prepare_cleanup_exact:
  assumes pre: "prepare_pre os N ctx s" and run: "prepare_context_mm os ctx s = (ctx', s')"
  shows "\<exists>fs. hist (cleanup_context_mm os ctx' s') = free_events fs @ hist s' \<and> distinct fs
    \<and> set fs \<subseteq> live (hist s')
    \<and> live (hist (cleanup_context_mm os ctx' s'))
        = live (hist s) - {(USER_REG, ucast (arg_pfn ctx))}"
proof -
  let ?m = "tabs os s' (ucast (pgd ctx'))" and ?arg = "ucast (arg_pfn ctx) :: u64"
  note p = prepare_context_mm_mapped[OF pre run]
  have c: "arg_pfn ctx' = arg_pfn ctx" by (subst p(1)) simp
  obtain fs where fs: "hist (cleanup_context_mm os ctx' s') = free_events fs @ hist s'"
    "distinct fs" "set fs = owned ?m"
    using cleanup_frees_owned[OF p(2)] by blast
  have sp: "space (live (hist s)) (Some ?arg) ?m (hist s')"
    using p(2) by (simp add: mapped_space_def setting_def c)
  have "?m (seg_path ctx' MM_SEG_DATA) = Some ?arg"
    using p(2) unfolding mapped_space_def c by (simp add: mapped_segs_def)
  then have "(USER_REG, ?arg) \<in> owned ?m"
    unfolding owned_def region_at_def by (force simp: va_path_def)
  moreover have "y = (USER_REG, ?arg)" if "y \<in> owned ?m" "y \<in> live (hist s)" for y
  proof -
    from that(1) obtain js q where y: "y = (region_at js, q)" "?m js = Some q"
      unfolding owned_def by blast
    have "q \<in> snd ` live (hist s)" using y(1) that(2) by (metis image_eqI snd_conv)
    then have "q = ?arg" using spaceD(4)[OF sp y(2)] by simp
    moreover have "length js = 4" using spaceD(5)[OF sp y(2)] calculation by simp
    ultimately show ?thesis using y(1) by (simp add: region_at_def)
  qed
  ultimately have "live (hist s') - owned ?m = live (hist s) - {(USER_REG, ?arg)}"
    unfolding spaceD(1)[OF sp] by blast
  then show ?thesis
    using fs spaceD(1)[OF sp] by (intro exI[of _ fs]) (simp add: live_free_events)
qed

theorem prepare_cleanup_exact_witness:
  "\<exists>ctx' s'. prepare_context_mm demo_os demo_ctx demo_frames = (ctx', s')
     \<and> live (hist (cleanup_context_mm demo_os ctx' s')) = {}"
proof -
  obtain ctx' s' where r: "prepare_context_mm demo_os demo_ctx demo_frames = (ctx', s')"
    by (cases "prepare_context_mm demo_os demo_ctx demo_frames")
  show ?thesis
    using prepare_cleanup_exact[OF demo_prepare_pre r] r by (auto simp: demo_frames_def demo_ctx_def)
qed

end
