(* ===== verification/Syscalls.thy ===== *)
theory Syscalls
  imports Levels
begin

text \<open>
  The entry points of gemOS, \<open>gemOS-a2/entry.c\<close>: the system calls \<open>exit\<close>, \<open>getpid\<close>, \<open>write\<close>,
  \<open>expand\<close> and \<open>shrink\<close>, the handler for divisions by zero and the page-fault handler that
  maps pages on demand. The kernel state is the record \<open>kernel\<close>: the page tables and the frame
  allocator's history, the current context, the user's memory and what was printed.
  \<open>do_exit\<close> is part of a prebuilt object and does not return, hence the outcome \<open>Exit\<close>; \<open>None\<close>
  stands for undefined behaviour and for a loop that does not end.
\<close>

section \<open>State\<close>

record mm_segment =
  start :: u64
  seg_end :: u64
  next_free :: u64
  access_flags :: u32

record exec_context =
  ctx_id :: u32
  ctx_type :: u8
  status :: u8
  used_mem :: u16
  pgd :: u32
  os_stack_pfn :: u32
  mms :: "mm_segment list"
  ctx_name :: "byte list"

datatype message = Syscall_invoked int | Out byte | Exit_code u32 | Getpid u32 | Div_by_zero u64 | Fault u64 u64 u64

record kernel =
  fr :: frames
  current :: exec_context
  umem :: "u64 \<Rightarrow> byte"
  console :: "message list"

datatype outcome = Return u64 kernel | Exit kernel

definition print_msgs :: "message list \<Rightarrow> kernel \<Rightarrow> kernel" where
  "print_msgs ms k = k\<lparr>console := console k @ ms\<rparr>"

section \<open>System calls\<close>

text \<open>The loop over the levels in \<open>SYSCALL_WRITE\<close>.\<close>

fun walk_present :: "os \<Rightarrow> frames \<Rightarrow> u64 \<Rightarrow> u64 \<Rightarrow> nat \<Rightarrow> bool" where
  "walk_present os s va table 0 = True"
| "walk_present os s va table (Suc n) = (
     let e = vm s table (unat (drop_bit (3 + 9 * Suc n) va AND 0x1FF)) in
     if e AND 0x1 = 0 then False else walk_present os s va (osmap os (drop_bit 12 e)) n)"

text \<open>The \<open>do\<close>-\<open>while\<close> loop over the pages; \<open>len\<close> is the \<open>int\<close> variable \<open>length\<close>.\<close>

function check_pages :: "os \<Rightarrow> frames \<Rightarrow> u32 \<Rightarrow> u64 \<Rightarrow> nat \<Rightarrow> int \<Rightarrow> bool" where
  "check_pages os s pg temp offset len = (
     if \<not> walk_present os s temp (osmap os (ucast pg)) 4 then False
     else let len' = len - (0x1000 - int offset) in
       if len' > 0 then check_pages os s pg (temp + 0x1000) 0 len' else True)"
  by pat_completeness auto
termination
  by (relation "measures [\<lambda>(_, _, _, _, offset, _). if offset = 0 then 0 else 1,
      \<lambda>(_, _, _, _, _, len). nat len]") auto

declare check_pages.simps [simp del]

text \<open>\<open>int length = param2\<close> keeps the low 32 bits, read as a signed number.\<close>

definition int_of_u64 :: "u64 \<Rightarrow> int" where
  "int_of_u64 x = sint (ucast x :: 32 word)"

definition sys_write :: "os \<Rightarrow> u64 \<Rightarrow> u64 \<Rightarrow> kernel \<Rightarrow> outcome option" where
  "sys_write os param1 param2 k = (
     if int_of_u64 param2 > 1024 then Some (Return (- 1) k)
     else if \<not> check_pages os (fr k) (pgd (current k)) param1 (unat (param1 AND 0xFFF))
                (int_of_u64 param2)
     then Some (Return (- 1) k)
     else if unat param2 \<ge> 2 ^ 31 then None
     else Some (Return param2
       (print_msgs (map (\<lambda>i. Out (umem k (param1 + of_nat i))) [0..<unat param2]) k)))"

definition MAP_RD :: u64 where "MAP_RD = 0"
definition MAP_WR :: u64 where "MAP_WR = 1"

definition map_segment :: "u64 \<Rightarrow> nat option" where
  "map_segment flags = (if flags = MAP_RD then Some MM_SEG_RODATA
     else if flags = MAP_WR then Some MM_SEG_DATA else None)"

definition set_next_free :: "nat \<Rightarrow> u64 \<Rightarrow> kernel \<Rightarrow> kernel" where
  "set_next_free segment v k = k\<lparr>current := (current k)\<lparr>mms := (mms (current k))
     [segment := (mms (current k) ! segment)\<lparr>next_free := v\<rparr>]\<rparr>\<rparr>"

definition sys_expand :: "u64 \<Rightarrow> u64 \<Rightarrow> kernel \<Rightarrow> outcome" where
  "sys_expand param1 param2 k = (case map_segment param2 of None \<Rightarrow> Return 0 k
   | Some segment \<Rightarrow> let seg = mms (current k) ! segment in
       if seg_end seg - next_free seg < push_bit 12 param1 then Return 0 k
       else Return (next_free seg) (set_next_free segment (next_free seg + push_bit 12 param1) k))"

text \<open>
  One iteration of the loop over the pages in \<open>SYSCALL_SHRINK\<close>. The index is a \<open>u8\<close>, so the
  nine bits of the address are cut to eight, and the frame number is cut to 32 bits.
\<close>

fun shrink_walk :: "os \<Rightarrow> u64 \<Rightarrow> u64 \<Rightarrow> nat \<Rightarrow> frames \<Rightarrow> frames" where
  "shrink_walk os page_addr table 0 s = s"
| "shrink_walk os page_addr table (Suc n) s = (
     let index = unat (ucast (drop_bit (3 + 9 * Suc n) page_addr AND 0x1FF) :: u8);
         e = vm s table index;
         pfn = (ucast (drop_bit 12 e AND 0xFFFFFFFFFF) :: u32) in
     if e AND 0x1 = 0 then s
     else if Suc n > 1 then shrink_walk os page_addr (osmap os (ucast pfn)) n s
     else set_entry table index 0 (pfn_free USER_REG (ucast pfn) s))"

partial_function (option) shrink_loop :: "os \<Rightarrow> u32 \<Rightarrow> u64 \<Rightarrow> u64 \<Rightarrow> frames \<Rightarrow> frames option" where
  "shrink_loop os pg new_next page_addr s = (
     if page_addr \<ge> new_next then
       shrink_loop os pg new_next (page_addr - 0x1000)
         (shrink_walk os page_addr (osmap os (ucast pg)) 4 s)
     else Some s)"

declare shrink_loop.simps [code]

definition sys_shrink :: "os \<Rightarrow> u64 \<Rightarrow> u64 \<Rightarrow> kernel \<Rightarrow> outcome option" where
  "sys_shrink os param1 param2 k = (case map_segment param2 of None \<Rightarrow> Some (Return 0 k)
   | Some segment \<Rightarrow> let seg = mms (current k) ! segment in
       if next_free seg - start seg < push_bit 12 param1 then Some (Return 0 k)
       else let new_next = next_free seg - push_bit 12 param1 in
         case shrink_loop os (pgd (current k)) new_next (next_free seg) (fr k) of None \<Rightarrow> None
         | Some s \<Rightarrow> Some (Return new_next (set_next_free segment new_next (k\<lparr>fr := s\<rparr>))))"

definition SYSCALL_EXIT :: int where "SYSCALL_EXIT = 1"
definition SYSCALL_GETPID :: int where "SYSCALL_GETPID = 2"
definition SYSCALL_WRITE :: int where "SYSCALL_WRITE = 3"
definition SYSCALL_EXPAND :: int where "SYSCALL_EXPAND = 4"
definition SYSCALL_SHRINK :: int where "SYSCALL_SHRINK = 5"

lemmas syscall_numbers = SYSCALL_EXIT_def SYSCALL_GETPID_def SYSCALL_WRITE_def
  SYSCALL_EXPAND_def SYSCALL_SHRINK_def

definition do_syscall :: "os \<Rightarrow> int \<Rightarrow> u64 \<Rightarrow> u64 \<Rightarrow> kernel \<Rightarrow> outcome option" where
  "do_syscall os syscall param1 param2 k = (
     let k = print_msgs [Syscall_invoked syscall] k in
     if syscall = SYSCALL_EXIT then Some (Exit (print_msgs [Exit_code (ucast param1)] k))
     else if syscall = SYSCALL_GETPID then
       Some (Return (ucast (ctx_id (current k))) (print_msgs [Getpid (ctx_id (current k))] k))
     else if syscall = SYSCALL_WRITE then sys_write os param1 param2 k
     else if syscall = SYSCALL_EXPAND then Some (sys_expand param1 param2 k)
     else if syscall = SYSCALL_SHRINK then sys_shrink os param1 param2 k
     else Some (Return (- 1) k))"

section \<open>Exceptions\<close>

text \<open>The general registers that the page-fault handler saves.\<close>

record gprs =
  rax :: u64
  rbx :: u64
  rcx :: u64
  rdx :: u64
  rdi :: u64
  rsi :: u64
  r8 :: u64
  r9 :: u64
  r10 :: u64
  r11 :: u64
  r12 :: u64
  r13 :: u64
  r14 :: u64
  r15 :: u64

text \<open>The stack grows towards the head of the list.\<close>

definition push_gprs :: "gprs \<Rightarrow> u64 list \<Rightarrow> u64 list" where
  "push_gprs g st = foldl (\<lambda>st v. v # st) st
     [rax g, rbx g, rcx g, rdx g, rdi g, rsi g, r8 g, r9 g, r10 g, r11 g, r12 g, r13 g, r14 g, r15 g]"

definition pop_gprs :: "gprs \<Rightarrow> u64 list \<Rightarrow> (gprs \<times> u64 list) option" where
  "pop_gprs g st = (case st of
     v15 # v14 # v13 # v12 # v11 # v10 # v9 # v8 # vsi # vdi # vdx # vcx # vbx # vax # st \<Rightarrow>
       Some (g\<lparr>r15 := v15, r14 := v14, r13 := v13, r12 := v12, r11 := v11, r10 := v10, r9 := v9,
               r8 := v8, rsi := vsi, rdi := vdi, rdx := vdx, rcx := vcx, rbx := vbx, rax := vax\<rparr>, st)
     | _ \<Rightarrow> None)"

text \<open>
  The frame of an exception handler, from \<open>0(%rbp)\<close> upwards: the saved \<open>rbp\<close>, the error code, and
  the five words that \<open>iret\<close> takes.
\<close>

record fault_frame =
  saved_rbp :: u64
  error_code :: u64
  iret_words :: "u64 list"

datatype fault_outcome = Resume gprs u64 "u64 list" kernel | Fault_exit kernel

text \<open>
  \<open>handle_div_by_zero\<close> reads eight bytes at \<open>1(%rbp)\<close>; \<open>frame\<close> is the memory from \<open>0(%rbp)\<close> on.
\<close>

definition handle_div_by_zero :: "buffer \<Rightarrow> kernel \<Rightarrow> outcome" where
  "handle_div_by_zero frame k = Exit (print_msgs [Div_by_zero (u64_at frame 1)] k)"

definition in_seg :: "mm_segment \<Rightarrow> u64 \<Rightarrow> bool" where
  "in_seg seg va \<longleftrightarrow> start seg \<le> va \<and> va \<le> seg_end seg"

text \<open>The segment that a fault is served for, or \<open>None\<close> where the handler exits.\<close>

definition fault_segment :: "exec_context \<Rightarrow> u64 \<Rightarrow> u64 \<Rightarrow> nat option" where
  "fault_segment ctx vaddr error = (
     if error AND 0x1 \<noteq> 0 then None
     else if in_seg (mms ctx ! MM_SEG_DATA) vaddr then
       (if vaddr \<ge> next_free (mms ctx ! MM_SEG_DATA) then None else Some MM_SEG_DATA)
     else if in_seg (mms ctx ! MM_SEG_RODATA) vaddr then
       (if error AND 0x2 \<noteq> 0 \<or> vaddr \<ge> next_free (mms ctx ! MM_SEG_DATA) then None
        else Some MM_SEG_RODATA)
     else if start (mms ctx ! MM_SEG_STACK) \<le> vaddr \<and> vaddr < seg_end (mms ctx ! MM_SEG_STACK)
     then Some MM_SEG_STACK
     else None)"

definition fault_entry :: "os \<Rightarrow> u32 \<Rightarrow> u64 \<Rightarrow> u64 \<Rightarrow> nat \<Rightarrow> frames \<Rightarrow> frames" where
  "fault_entry os access vaddr table level s = (
     let index = unat (drop_bit (3 + 9 * level) vaddr AND 0x1FF);
         s = (if vm s table index AND 0x1 = 0 then
                (case pfn_alloc os (if level = 1 then USER_REG else OS_PT_REG) s of (p, s) \<Rightarrow>
                   let s = set_entry table index (ucast (push_bit 12 p)) s
                   in set_entry table index (vm s table index OR 0x5) s)
              else s)
     in set_entry table index (vm s table index OR ucast (access AND 0x2)) s)"

fun fault_map :: "os \<Rightarrow> u32 \<Rightarrow> u64 \<Rightarrow> u64 \<Rightarrow> nat \<Rightarrow> frames \<Rightarrow> frames" where
  "fault_map os access vaddr table 0 s = s"
| "fault_map os access vaddr table (Suc n) s = (
     let s = fault_entry os access vaddr table (Suc n) s in
     fault_map os access vaddr
       (osmap os (drop_bit 12 (vm s table (unat (drop_bit (3 + 9 * Suc n) vaddr AND 0x1FF))))) n s)"

text \<open>
  \<open>cr2\<close> is the faulting address and \<open>clobber\<close> the registers after the C code of the handler; the
  kernel stack below the frame is \<open>st\<close>.
\<close>

definition handle_page_fault ::
  "os \<Rightarrow> gprs \<Rightarrow> gprs \<Rightarrow> u64 \<Rightarrow> fault_frame \<Rightarrow> u64 list \<Rightarrow> kernel \<Rightarrow> fault_outcome option" where
  "handle_page_fault os g clobber cr2 f st k = (
     let st = push_gprs g st; vaddr = cr2; error = error_code f; rip_val = hd (iret_words f) in
     case fault_segment (current k) vaddr error of
       None \<Rightarrow> Some (Fault_exit (print_msgs [Fault vaddr rip_val error] k))
     | Some segment \<Rightarrow>
         let s = fault_map os (access_flags (mms (current k) ! segment)) vaddr
                   (osmap os (ucast (pgd (current k)))) 4 (fr k)
         in map_option (\<lambda>(g', _). Resume g' (saved_rbp f) (iret_words f) (k\<lparr>fr := s\<rparr>))
              (pop_gprs clobber st))"

section \<open>Pages\<close>

definition mapped :: "os \<Rightarrow> frames \<Rightarrow> u32 \<Rightarrow> u64 \<Rightarrow> bool" where
  "mapped os s pg va \<longleftrightarrow> table_of os s (ucast pg) (va_path va) \<noteq> None"

lemma walk_present_mapped: "walk_present os s va (osmap os (ucast pg)) 4 = mapped os s pg va"
  by (simp add: mapped_def va_path_def va_index_def eval_nat_numeral present_def entry_def
      frame_of_def Let_def)

lemma drop_bit_page: "r < 4096 \<Longrightarrow> drop_bit 12 (push_bit 12 q + of_nat r) = drop_bit 12 (push_bit 12 q :: u64)"
proof -
  assume r: "r < 4096"
  have hi: "\<not> bit (of_nat r :: u64) n" if "12 \<le> n" for n
  proof -
    have "take_bit 12 r = r" using r by (simp add: take_bit_nat_eq_self)
    then have "\<not> bit r n" using that by (metis bit_take_bit_iff leD)
    then show ?thesis by (simp add: bit_of_nat_iff)
  qed
  have "push_bit 12 q + of_nat r = (push_bit 12 q OR of_nat r :: u64)"
    using hi by (intro disjunctive_add) (auto simp: bit_push_bit_iff not_le)
  then show ?thesis
    using hi by (intro bit_word_eqI) (auto simp: bit_simps)
qed

lemma page_split: "va = push_bit 12 (drop_bit 12 va) + of_nat (unat (va AND 0xFFF :: u64))"
proof -
  have "push_bit 12 (drop_bit 12 va) + take_bit 12 va = va" by (rule bits_ident)
  then show ?thesis by (simp add: take_bit_eq_mask mask_eq_exp_minus_1)
qed

lemma page_offset_less: "unat (va AND 0xFFF :: u64) < 4096"
proof -
  have "va AND 0xFFF = take_bit 12 va" by (simp add: take_bit_eq_mask mask_eq_exp_minus_1)
  then show ?thesis using take_bit_nat_less_exp[of 12 "unat va"] by (simp add: unsigned_take_bit_eq)
qed

lemma page_of_add:
  assumes "4096 * c \<le> unat (va AND 0xFFF :: u64) + i" "unat (va AND 0xFFF :: u64) + i < 4096 * (c + 1)"
  shows "drop_bit 12 (va + of_nat i) = drop_bit 12 (va + of_nat (4096 * c) :: u64)"
proof -
  define q off where "q = drop_bit 12 va" and "off = unat (va AND 0xFFF)"
  have va: "va = push_bit 12 q + of_nat off" using page_split by (simp add: q_def off_def)
  have off: "off < 4096" unfolding off_def by (rule page_offset_less)
  have sum: "va + of_nat i = push_bit 12 (q + of_nat c) + of_nat (off + i - 4096 * c)"
  proof -
    have "off + i = 4096 * c + (off + i - 4096 * c)" using assms(1) by (simp add: off_def)
    then have "(of_nat off + of_nat i :: u64) = 4096 * of_nat c + of_nat (off + i - 4096 * c)"
      by (metis of_nat_add of_nat_mult of_nat_numeral)
    then show ?thesis by (simp add: va push_bit_eq_mult algebra_simps)
  qed
  have page: "va + of_nat (4096 * c) = push_bit 12 (q + of_nat c) + of_nat off"
    by (simp add: va push_bit_eq_mult algebra_simps)
  have "off + i - 4096 * c < 4096" using assms by (simp add: off_def)
  then show ?thesis
    unfolding sum page by (simp only: drop_bit_page[OF off] drop_bit_page)
qed

lemma va_path_page: "drop_bit 12 a = drop_bit 12 b \<Longrightarrow> va_path a = va_path b"
proof -
  assume e: "drop_bit 12 a = drop_bit 12 b"
  have "va_index a n = va_index b n" if "1 \<le> n" for n
  proof -
    have n: "3 + 9 * n = (9 * n - 9) + 12" using that by simp
    have "drop_bit (3 + 9 * n) x = drop_bit (9 * n - 9) (drop_bit 12 x)" for x :: u64
      unfolding n by (rule drop_bit_drop_bit[symmetric])
    then show ?thesis unfolding va_index_def by (simp only: e)
  qed
  then show ?thesis by (simp add: va_path_def)
qed

lemma check_pages_mapped:
  assumes "n \<le> 1024"
  shows "check_pages os s pg va (unat (va AND 0xFFF)) (int n) \<longleftrightarrow>
    mapped os s pg va \<and> (\<forall>i<n. mapped os s pg (va + of_nat i))"
proof -
  define off where "off = unat (va AND 0xFFF)"
  have off: "off < 4096" unfolding off_def by (rule page_offset_less)
  have first: "mapped os s pg (va + of_nat i) = mapped os s pg va" if "off + i < 4096" for i
  proof -
    have "drop_bit 12 (va + of_nat i) = drop_bit 12 (va + of_nat (4096 * 0))"
      by (rule page_of_add) (use that in \<open>simp_all add: off_def\<close>)
    from va_path_page[OF this] show ?thesis unfolding mapped_def by simp
  qed
  have second: "mapped os s pg (va + of_nat i) = mapped os s pg (va + 4096)"
    if "4096 \<le> off + i" "off + i < 8192" for i
  proof -
    have "drop_bit 12 (va + of_nat i) = drop_bit 12 (va + of_nat (4096 * 1))"
      by (rule page_of_add) (use that in \<open>simp_all add: off_def\<close>)
    from va_path_page[OF this] show ?thesis unfolding mapped_def by simp
  qed
  have c: "check_pages os s pg va off (int n) \<longleftrightarrow> mapped os s pg va \<and>
      (4096 < off + n \<longrightarrow> mapped os s pg (va + 4096))"
  proof -
    have "check_pages os s pg (va + 4096) 0 (int n - (4096 - int off)) = mapped os s pg (va + 4096)"
      using assms off by (subst check_pages.simps) (simp add: walk_present_mapped)
    then show ?thesis by (subst check_pages.simps) (auto simp: walk_present_mapped Let_def)
  qed
  have "(\<forall>i<n. mapped os s pg (va + of_nat i)) \<longleftrightarrow> (4096 < off + n \<longrightarrow> mapped os s pg (va + 4096))"
    if m: "mapped os s pg va"
  proof
    assume a: "\<forall>i<n. mapped os s pg (va + of_nat i)"
    show "4096 < off + n \<longrightarrow> mapped os s pg (va + 4096)"
    proof
      assume "4096 < off + n"
      then have "4096 - off < n" using off by linarith
      then have "mapped os s pg (va + of_nat (4096 - off))" using a by blast
      then show "mapped os s pg (va + 4096)" using second[of "4096 - off"] off by simp
    qed
  next
    assume a: "4096 < off + n \<longrightarrow> mapped os s pg (va + 4096)"
    show "\<forall>i<n. mapped os s pg (va + of_nat i)"
    proof (intro allI impI)
      fix i assume "i < n"
      then show "mapped os s pg (va + of_nat i)"
        using a first[of i] second[of i] m assms off by (cases "off + i < 4096") auto
    qed
  qed
  then show ?thesis using c unfolding off_def by blast
qed

lemma int_of_u64_small: "unat x < 2 ^ 31 \<Longrightarrow> int_of_u64 x = int (unat x)"
proof -
  assume x: "unat x < 2 ^ 31"
  then have u: "unat (ucast x :: 32 word) = unat x"
    by (simp add: unsigned_ucast_eq take_bit_nat_eq_self)
  then have v: "uint (ucast x :: 32 word) = int (unat x)" by (metis uint_nat)
  have "signed_take_bit 31 (int y) = int y" if "y < 2 ^ 31" for y :: nat
    using that by (intro signed_take_bit_int_eq_self) auto
  from this[OF x] show ?thesis unfolding int_of_u64_def sint_uint v by simp
qed

section \<open>Page faults\<close>

text \<open>
  The handler does not clear a new table, and nothing is known about what a frame holds that
  \<open>os_pfn_alloc\<close> returns. The properties below are about faults for which the table of the last
  level exists, so that no table is added. \<open>zeroed\<close> is the other case in which the walk is well
  behaved, and holds of the concrete state that serves as a witness.
\<close>

definition zeroed :: "os \<Rightarrow> frames \<Rightarrow> bool" where
  "zeroed os s \<longleftrightarrow> (\<forall>p. get_mem_region p = Some OS_PT_REG \<and> ucast p \<notin> snd ` live (hist s) \<longrightarrow>
     (\<forall>j<512. \<not> present (entry os s (ucast p) j)))"

definition walk_clean :: "os \<Rightarrow> u64 \<Rightarrow> u64 \<Rightarrow> frames \<Rightarrow> bool" where
  "walk_clean os va root s \<longleftrightarrow> tabs os s root (take 3 (va_path va)) \<noteq> None \<or> zeroed os s"

lemma fault_entry_present:
  assumes "osmap_ok os" "unat t < 2 ^ 20" "i = va_index va n"
    and "present (entry os s t i)" "s' = fault_entry os access va (osmap os t) n s"
  shows "made (entry os s' t i) (frame_of (entry os s t i)) (bit (entry os s t i) 1 \<or> bit access 1)"
    and "entry_set os s s' t i None" and "hist s' = hist s"
proof -
  have s': "s' = set_entry (osmap os t) i (entry os s t i OR ucast (access AND 0x2)) s"
    using assms(3-5) by (simp add: fault_entry_def va_index_def entry_def present_def Let_def)
  show "made (entry os s' t i) (frame_of (entry os s t i)) (bit (entry os s t i) 1 \<or> bit access 1)"
    using made_kept[OF assms(4)] by (simp add: s' entry_def vm_set_entry)
  show "entry_set os s s' t i None" and "hist s' = hist s"
    using assms(1,2) by (auto simp: entry_set_def s' entry_def vm_set_entry osmap_eq)
qed

lemma fault_entry_new:
  assumes "osmap_ok os" "unat t < 2 ^ 20" "i = va_index va n"
    and "\<not> present (entry os s t i)" "s' = fault_entry os access va (osmap os t) n s"
    and "r = (if n = 1 then USER_REG else OS_PT_REG)" "p = os_pfn_alloc os (hist s) r"
    and "unat p < 2 ^ 20"
  shows "made (entry os s' t i) (ucast p) (bit access 1)"
    and "entry_set os s s' t i None" and "hist s' = Alloc r p # hist s"
proof -
  have e: "vm s (osmap os t) i AND 1 = 0" using assms(4) by (simp add: present_def entry_def)
  note body = fault_entry_def va_index_def[symmetric] entry_def pfn_alloc_def Let_def vm_set_entry
  show "made (entry os s' t i) (ucast p) (bit access 1)"
    using made_leaf[OF assms(8), of access] e assms(3,6,7) by (simp add: assms(5) body)
  show "hist s' = Alloc r p # hist s" using e assms(3,6,7) by (simp add: assms(5) body)
  show "entry_set os s s' t i None"
    using e assms(1-3) by (auto simp: assms(5) body entry_set_def osmap_eq)
qed

lemma zeroed_keep:
  assumes "zeroed os s" "entry_set os s s' t i None" "live (hist s) \<subseteq> live (hist s')"
    and "t \<in> snd ` live (hist s)"
  shows "zeroed os s'"
  unfolding zeroed_def
proof (intro allI impI, elim conjE)
  fix p and j :: nat assume p: "get_mem_region p = Some OS_PT_REG" "ucast p \<notin> snd ` live (hist s')" "j < 512"
  have f: "ucast p \<notin> snd ` live (hist s)" using p(2) assms(3) by blast
  then have "ucast p \<noteq> t" using assms(4) by blast
  then have "entry os s' (ucast p) j = entry os s (ucast p) j"
    using assms(2) region_pfn_bound[OF p(1)] p(3) by (simp add: entry_set_def)
  then show "\<not> present (entry os s' (ucast p) j)"
    using assms(1) p(1,3) f unfolding zeroed_def by simp
qed

lemma walk_clean_keep:
  assumes "walk_clean os va root s" "tabs os s root \<subseteq>\<^sub>m tabs os s' root" "zeroed os s \<Longrightarrow> zeroed os s'"
  shows "walk_clean os va root s'"
proof -
  have "tabs os s' root js \<noteq> None" if "tabs os s root js \<noteq> None" for js
    using that map_le_None[OF assms(2)] by metis
  then show ?thesis using assms(1,3) unfolding walk_clean_def by metis
qed

lemma fault_entry_step:
  assumes set: "setting os N arg base root s" and z: "walk_clean os va root s" and len: "length (hist s) < N"
    and n: "1 \<le> n" "n \<le> 4" and t: "tabs os s root (take (4 - n) (va_path va)) = Some t"
    and s': "s' = fault_entry os access va (osmap os t) n s"
  shows "\<exists>q. level_step os (bit access 1) None root (take (5 - n) (va_path va)) q s s'
    \<and> setting os N arg base root s' \<and> walk_clean os va root s'"
proof -
  define js i where js: "js = take (4 - n) (va_path va)" and i: "i = va_index va n"
  have path: "take (5 - n) (va_path va) = js @ [i]" using va_path_take n js i by simp
  have l: "length js \<le> 3" "i < 512" "length js = 4 - n" using n by (simp_all add: js i va_index_less)
  note m = settingD(1)[OF set] and sp = settingD(4)[OF set]
  have tj: "tabs os s root js = Some t" using t js by simp
  have tb: "unat t < 2 ^ 20" using spaceD(3)[OF sp tj l(1)] .
  have tl: "t \<in> snd ` live (hist s)" using space_in_live[OF sp tj] by (metis image_eqI snd_conv)
  show ?thesis
  proof (cases "present (entry os s t i)")
    case True
    note f = fault_entry_present[OF m tb i True s']
    note st = level_step_keep[OF set tj l(1,2) True f(2,3,1), where d = None]
    have "zeroed os s'" if "zeroed os s" using zeroed_keep[OF that f(2) _ tl] f(3) by simp
    then show ?thesis
      unfolding path using st walk_clean_keep[OF z level_step_frame(3)[OF set len conjunct1[OF st]]] by blast
  next
    case False
    have r: "region_at (js @ [i]) = (if n = 1 then USER_REG else OS_PT_REG)"
      using l n by (auto simp: region_at_def)
    define p where "p = os_pfn_alloc os (hist s) (region_at (js @ [i]))"
    note fr = setting_alloc[OF set len p_def]
    note f = fault_entry_new[OF m tb i False s' r p_def fr(2)]
    have none: "tabs os s root (js @ [i]) = None" using tj l(1,2) False by (simp add: tabs_snoc)
    have "\<not> present (entry os s' (ucast p) j)" if j: "j < 512" "length js < 3" for j
    proof -
      have "5 - n \<le> 3" using l(3) j(2) n by linarith
      then have "take (5 - n) (take 3 (va_path va)) = js @ [i]" using path by (simp add: min_def)
      then have "tabs os s root (take 3 (va_path va)) = None"
        using none tabs_prefix[of os s root "take 3 (va_path va)" "5 - n"] by metis
      then have z: "zeroed os s" using z by (simp add: walk_clean_def)
      have "get_mem_region p = Some OS_PT_REG" using fr(3) r l(3) j(2) by simp
      then have "\<not> present (entry os s (ucast p) j)" using z fr(1) j(1) unfolding zeroed_def by blast
      moreover have "ucast p \<noteq> t" using fr(1) tl by blast
      ultimately show ?thesis using f(2) fr(2) j(1) by (simp add: entry_set_def)
    qed
    then have st: "level_step os (bit access 1) None root (js @ [i]) (ucast p) s s' \<and> setting os N arg base root s'"
      using level_step_new[OF set len tj l(1,2) False refl p_def f(2) _ f(3,1)] by auto
    have "zeroed os s'" if "zeroed os s" using zeroed_keep[OF that f(2) _ tl] f(3) by auto
    then show ?thesis
      unfolding path using st walk_clean_keep[OF z level_step_frame(3)[OF set len conjunct1[OF st]]] by blast
  qed
qed

interpretation fault: level_filler os va "bit access 1" None "walk_clean os va"
    "fault_entry os access va" "fault_map os access va"
  for os va access
proof (unfold_locales, goal_cases)
  case (1 N arg base root s n t)
  then show ?case using fault_entry_step[OF 1(1-6) refl] by blast
next
  case (2 a s)
  then show ?case using fault_map.simps(2)[of os access va a 0 s] by (simp add: Let_def)
next
  case (3 n a s)
  then show ?case by (simp add: Let_def va_index_def frame_of_def)
qed

lemma map_le_same: "m \<subseteq>\<^sub>m m' \<Longrightarrow> m' x = Some y \<Longrightarrow> m x \<in> {None, Some y}"
  by (cases "m x") (auto simp: map_le_def dom_def)

lemma map_extended:
  assumes le: "m \<subseteq>\<^sub>m m'" and x: "m' x = Some y" and dom: "\<And>z. m' z \<noteq> None \<Longrightarrow> m z = None \<Longrightarrow> z = x"
  shows "m' = m(x \<mapsto> y)"
proof
  fix z show "m' z = (m(x \<mapsto> y)) z"
    using x dom[of z] map_le_same[OF le, of z] map_le_None[OF le, of z] by (cases "m' z"; cases "m z") auto
qed

lemma owned_extend: "m x \<in> {None, Some y} \<Longrightarrow> owned (m(x \<mapsto> y)) = insert (region_at x, y) (owned m)"
  using owned_upd[of m x y] by (auto simp: fun_upd_idem owned_def)

lemma pop_push_gprs: "pop_gprs c (push_gprs g st) = Some (g, st)"
  by (simp add: pop_gprs_def push_gprs_def)

section \<open>Growing and shrinking a segment\<close>

definition seg_wf :: "mm_segment \<Rightarrow> bool" where
  "seg_wf seg \<longleftrightarrow> 0x1000 \<le> start seg \<and> start seg \<le> next_free seg \<and> next_free seg \<le> seg_end seg"

definition segs_wf :: "exec_context \<Rightarrow> bool" where
  "segs_wf ctx \<longleftrightarrow> length (mms ctx) = 4 \<and> (\<forall>seg\<in>set (mms ctx). seg_wf seg)"

lemma grow_bound: "(n :: u64) \<le> e \<Longrightarrow> \<not> e - n < p \<Longrightarrow> n \<le> n + p \<and> n + p \<le> e"
  by unat_arith

lemma shrink_bound: "(s :: u64) \<le> n \<Longrightarrow> \<not> n - s < p \<Longrightarrow> s \<le> n - p \<and> n - p \<le> n"
  by unat_arith

lemma map_segment_less: "map_segment f = Some segment \<Longrightarrow> segment = MM_SEG_RODATA \<or> segment = MM_SEG_DATA"
  by (auto simp: map_segment_def split: if_splits)

lemma segs_wf_nth: "segs_wf ctx \<Longrightarrow> i < 4 \<Longrightarrow> seg_wf (mms ctx ! i)"
  by (simp add: segs_wf_def)

lemma set_next_free_wf:
  assumes "segs_wf (current k)" "i < 4" "start (mms (current k) ! i) \<le> v" "v \<le> seg_end (mms (current k) ! i)"
  shows "segs_wf (current (set_next_free i v k))"
proof -
  have "seg_wf ((mms (current k) ! i)\<lparr>next_free := v\<rparr>)"
    using assms segs_wf_nth[OF assms(1,2)] by (simp add: seg_wf_def)
  then show ?thesis
    using assms(1) by (auto simp: segs_wf_def set_next_free_def dest!: set_update_subset_insert[THEN subsetD])
qed

text \<open>The loop visits the pages from the break down to the new break, both included.\<close>

primrec shrink_pages :: "os \<Rightarrow> u32 \<Rightarrow> u64 \<Rightarrow> nat \<Rightarrow> frames \<Rightarrow> frames" where
  "shrink_pages os pg nn 0 s = s"
| "shrink_pages os pg nn (Suc j) s =
     shrink_pages os pg nn j (shrink_walk os (nn + of_nat (4096 * j)) (osmap os (ucast pg)) 4 s)"

lemma shrink_loop_pages:
  assumes "0x1000 \<le> nn" "unat nn + 4096 * j < 2 ^ 64"
  shows "shrink_loop os pg nn (nn + of_nat (4096 * j)) s = Some (shrink_pages os pg nn (Suc j) s)"
  using assms(2)
proof (induction j arbitrary: s)
  case 0
  have "\<not> nn \<le> nn - 0x1000" using assms(1) by unat_arith
  then have "shrink_loop os pg nn (nn - 0x1000) x = Some x" for x by (subst shrink_loop.simps) simp
  then show ?case by (subst shrink_loop.simps) simp
next
  case (Suc j)
  define a :: u64 where "a = nn + of_nat (4096 * Suc j)"
  have "unat (of_nat (4096 * Suc j) :: u64) = 4096 * Suc j"
    using Suc.prems by (intro unat_u64_of_nat) simp
  then have "unat a = unat nn + 4096 * Suc j"
    using Suc.prems unfolding a_def by (subst unat_add_lem[THEN iffD1]) simp_all
  then have "nn \<le> a" by (simp add: word_le_nat_alt)
  moreover have "a - 0x1000 = nn + of_nat (4096 * j)" by (simp add: a_def)
  ultimately have "shrink_loop os pg nn a s = shrink_loop os pg nn (nn + of_nat (4096 * j))
      (shrink_walk os a (osmap os (ucast pg)) 4 s)"
    by (subst shrink_loop.simps) (simp only: if_True)
  also have "\<dots> = Some (shrink_pages os pg nn (Suc (Suc j)) s)"
    using Suc.IH Suc.prems unfolding a_def by simp
  finally show ?case unfolding a_def .
qed

lemma sys_shrink_loop:
  assumes "segs_wf (current k)" "map_segment param2 = Some segment"
    and seg: "seg = mms (current k) ! segment" "\<not> next_free seg - start seg < push_bit 12 param1"
  shows "sys_shrink os param1 param2 k = Some (Return (next_free seg - push_bit 12 param1)
    (set_next_free segment (next_free seg - push_bit 12 param1)
      (k\<lparr>fr := shrink_pages os (pgd (current k)) (next_free seg - push_bit 12 param1)
        (Suc (unat (push_bit 12 param1) div 4096)) (fr k)\<rparr>)))"
proof -
  define p where "p = push_bit 12 param1"
  define nn where "nn = next_free seg - p"
  define j where "j = unat p div 4096"
  have wf: "seg_wf seg"
    using segs_wf_nth[OF assms(1)] map_segment_less[OF assms(2)] seg(1) by (auto simp: mm_segs)
  then have b: "start seg \<le> nn" "nn \<le> next_free seg" "0x1000 \<le> nn"
    using shrink_bound[of "start seg" "next_free seg" p] seg(2)
    by (auto simp: seg_wf_def nn_def p_def)
  have "4096 dvd unat p"
  proof -
    have "unat p = (4096 * unat param1) mod 2 ^ 64"
      by (simp add: p_def push_bit_eq_mult unat_word_ariths mult.commute)
    moreover have "(4096 :: nat) dvd 2 ^ 64" by (simp add: dvd_eq_mod_eq_0)
    ultimately show ?thesis by (metis dvd_mod dvd_triv_left)
  qed
  then have j: "unat p = 4096 * j" by (simp add: j_def)
  then have nf: "next_free seg = nn + of_nat (4096 * j)"
  proof -
    have "(of_nat (4096 * j) :: u64) = p"
      unfolding word_unat_eq_iff j[symmetric] using unsigned_less[of p, where 'a = nat]
      by (intro unat_u64_of_nat) simp
    then show ?thesis by (simp add: nn_def)
  qed
  have "unat (next_free seg) = unat nn + unat p"
    using b(2) unfolding nn_def by unat_arith
  then have "unat nn + 4096 * j < 2 ^ 64" using j unsigned_less[of "next_free seg", where 'a = nat] by simp
  then have "shrink_loop os (pgd (current k)) nn (next_free seg) (fr k)
      = Some (shrink_pages os (pgd (current k)) nn (Suc j) (fr k))"
    unfolding nf by (rule shrink_loop_pages[OF b(3)])
  then show ?thesis
    using assms(2) seg(2) by (simp add: sys_shrink_def Let_def seg(1)[symmetric] p_def[symmetric]
        nn_def[symmetric] j_def[symmetric] del: shrink_pages.simps)
qed

section \<open>Unmapping\<close>

definition tables_ok :: "os \<Rightarrow> u64 \<Rightarrow> frames \<Rightarrow> bool" where
  "tables_ok os root s \<longleftrightarrow> osmap_ok os
     \<and> (\<forall>is js p. tabs os s root is = Some p \<and> tabs os s root js = Some p \<longrightarrow> is = js)
     \<and> (\<forall>is p. tabs os s root is = Some p \<longrightarrow> unat p < (if length is \<le> 3 then 2 ^ 20 else 2 ^ 32))"

lemma tables_okD:
  assumes "tables_ok os root s"
  shows "osmap_ok os" and "tabs os s root is = Some p \<Longrightarrow> tabs os s root js = Some p \<Longrightarrow> is = js"
    and "tabs os s root is = Some p \<Longrightarrow> length is \<le> 3 \<Longrightarrow> unat p < 2 ^ 20"
    and "tabs os s root is = Some p \<Longrightarrow> unat p < 2 ^ 32"
proof -
  show "osmap_ok os" and "tabs os s root is = Some p \<Longrightarrow> tabs os s root js = Some p \<Longrightarrow> is = js"
    using assms unfolding tables_ok_def by metis+
  have "tabs os s root is = Some p \<Longrightarrow> unat p < (if length is \<le> 3 then 2 ^ 20 else 2 ^ 32)"
    using assms unfolding tables_ok_def by metis
  then show "tabs os s root is = Some p \<Longrightarrow> length is \<le> 3 \<Longrightarrow> unat p < 2 ^ 20"
    and "tabs os s root is = Some p \<Longrightarrow> unat p < 2 ^ 32" by (simp_all split: if_splits)
qed

lemma tabs_unlink:
  assumes ok: "tables_ok os root s"
    and t: "tabs os s root path = Some t" "length path = 3" "i < 512"
    and new: "\<not> present (entry os s' t i)"
    and same: "\<And>p j. unat p < 2 ^ 20 \<Longrightarrow> (p, j) \<noteq> (t, i) \<Longrightarrow> entry os s' p j = entry os s p j"
  shows "tabs os s' root = (tabs os s root)(path @ [i] := None)"
proof
  fix js show "tabs os s' root js = ((tabs os s root)(path @ [i] := None)) js"
  proof (induction js rule: rev_induct)
    case (snoc j js)
    show ?case
    proof (cases "length js \<le> 3 \<and> j < 512")
      case False then show ?thesis by (auto simp: tabs_snoc)
    next
      case True
      have "js \<noteq> path @ [i]" using True t(2) by auto
      then have e: "tabs os s' root js = tabs os s root js" using snoc by simp
      show ?thesis
      proof (cases "js = path \<and> j = i")
        case True then show ?thesis using e t new by (simp add: tabs_snoc)
      next
        case False
        have "entry os s' p j = entry os s p j" if p: "tabs os s root js = Some p" for p
          using same[OF tables_okD(3)[OF ok p]] tables_okD(2)[OF ok p] t(1) True False by blast
        then show ?thesis using e True False by (auto simp: tabs_snoc split: option.splits)
      qed
    qed
  qed simp
qed

definition cut_path :: "u64 \<Rightarrow> nat list" where
  "cut_path va = map (\<lambda>i. i mod 256) (va_path va)"

definition cut_index :: "u64 \<Rightarrow> nat \<Rightarrow> nat" where
  "cut_index va n = va_index va n mod 256"

lemma cut_less: "cut_index va n < 512"
  unfolding cut_index_def by (rule less_trans[OF mod_less_divisor]) simp_all

lemma cut_path_simps: "length (cut_path va) = 4" "valid_path (cut_path va)"
  "cut_path va = [cut_index va 4, cut_index va 3, cut_index va 2, cut_index va 1]"
  by (auto simp: cut_path_def valid_path_def va_path_def cut_less cut_index_def[symmetric])

lemma shrink_index: "unat (ucast (drop_bit (3 + 9 * n) va AND 0x1FF) :: u8) = cut_index va n"
  by (simp add: cut_index_def va_index_def unsigned_ucast_eq take_bit_eq_mod)

lemma shrink_pfn:
  assumes "unat (frame_of e) < 2 ^ 32"
  shows "ucast (ucast (drop_bit 12 e AND 0xFFFFFFFFFF) :: u32) = frame_of e"
proof -
  have "(0xFFFFFFFFFF :: u64) = mask 40" by (simp add: mask_eq_exp_minus_1)
  then have m: "frame_of e AND 0xFFFFFFFFFF = take_bit 40 (frame_of e)" by (simp only: take_bit_eq_mask)
  have "take_bit 40 (frame_of e) = frame_of e" "take_bit 32 (frame_of e) = frame_of e"
    using assms by (simp_all add: word_unat_eq_iff unsigned_take_bit_eq take_bit_nat_eq_self)
  then have "frame_of e AND 0xFFFFFFFFFF = frame_of e" "take_bit 32 (frame_of e) = frame_of e" using m by simp_all
  moreover have "ucast (ucast x :: u32) = take_bit 32 x" for x :: u64
    by (rule bit_word_eqI) (auto simp: bit_simps)
  ultimately show ?thesis unfolding frame_of_def by metis
qed

lemma shrink_walk_levels:
  assumes ok: "tables_ok os root s" and n: "1 \<le> n" "n \<le> 4"
    and t: "tabs os s root (take (4 - n) (cut_path va)) = Some t"
  shows "case tabs os s root (cut_path va) of
      None \<Rightarrow> shrink_walk os va (osmap os t) n s = s
    | Some f \<Rightarrow> \<exists>t'. tabs os s root (take 3 (cut_path va)) = Some t'
        \<and> shrink_walk os va (osmap os t) n s
            = set_entry (osmap os t') (cut_index va 1) 0 (pfn_free USER_REG f s)"
  using n t
proof (induction n arbitrary: t)
  case (Suc m)
  let ?C = "cut_path va"
  define i where "i = cut_index va (Suc m)"
  define e where "e = entry os s t i"
  have path: "take (4 - m) ?C = take (4 - Suc m) ?C @ [i]"
  proof -
    have "m = 0 \<or> m = 1 \<or> m = 2 \<or> m = 3" using Suc.prems(2) by auto
    then show ?thesis by (auto simp: cut_path_simps(3) i_def eval_nat_numeral)
  qed
  have i: "i < 512" by (simp add: i_def cut_less)
  have tm: "tabs os s root (take (4 - m) ?C) = (if present e then Some (frame_of e) else None)"
    unfolding path using Suc.prems i by (simp add: tabs_snoc e_def cut_path_simps(1))
  have body: "shrink_walk os va (osmap os t) (Suc m) s = (if \<not> present e then s
      else if m > 0 then shrink_walk os va (osmap os (ucast (ucast (drop_bit 12 e AND 0xFFFFFFFFFF) :: u32))) m s
      else set_entry (osmap os t) i 0 (pfn_free USER_REG (ucast (ucast (drop_bit 12 e AND 0xFFFFFFFFFF) :: u32)) s))"
    unfolding shrink_walk.simps(2) Let_def shrink_index e_def entry_def present_def i_def by simp
  show ?case
  proof (cases "present e")
    case False
    then have "tabs os s root ?C = None" using tm tabs_prefix[of os s root ?C "4 - m"] by metis
    then show ?thesis using body False by (simp del: shrink_walk.simps)
  next
    case True
    have tq: "tabs os s root (take (4 - m) ?C) = Some (frame_of e)" using tm True by simp
    have q: "ucast (ucast (drop_bit 12 e AND 0xFFFFFFFFFF) :: u32) = frame_of e"
      by (rule shrink_pfn[OF tables_okD(4)[OF ok tq]])
    show ?thesis
    proof (cases "m = 0")
      case True
      then have "tabs os s root ?C = Some (frame_of e)" using tq by (simp add: cut_path_simps(1))
      then show ?thesis
        using body \<open>present e\<close> True q Suc.prems(3) by (simp add: i_def del: shrink_walk.simps)
    next
      case False
      then have eq: "shrink_walk os va (osmap os t) (Suc m) s = shrink_walk os va (osmap os (frame_of e)) m s"
        using body True unfolding q by (simp del: shrink_walk.simps)
      show ?thesis unfolding eq by (rule Suc.IH[OF _ _ tq]) (use Suc.prems(2) False in auto)
    qed
  qed
qed simp

lemma shrink_walk_tabs:
  assumes ok: "tables_ok os root s"
  shows "tabs os (shrink_walk os va (osmap os root) 4 s) root = (tabs os s root)(cut_path va := None)"
    and "hist (shrink_walk os va (osmap os root) 4 s) = (case tabs os s root (cut_path va) of
      None \<Rightarrow> hist s | Some f \<Rightarrow> Free USER_REG f # hist s)"
proof -
  note w = shrink_walk_levels[OF ok, of 4 va root]
  show "hist (shrink_walk os va (osmap os root) 4 s) = (case tabs os s root (cut_path va) of
      None \<Rightarrow> hist s | Some f \<Rightarrow> Free USER_REG f # hist s)"
    using w by (auto split: option.splits)
  show "tabs os (shrink_walk os va (osmap os root) 4 s) root = (tabs os s root)(cut_path va := None)"
  proof (cases "tabs os s root (cut_path va)")
    case None then show ?thesis using w by (auto simp: fun_upd_idem)
  next
    case (Some f)
    then obtain t' where t': "tabs os s root (take 3 (cut_path va)) = Some t'"
      and s': "shrink_walk os va (osmap os root) 4 s
        = set_entry (osmap os t') (cut_index va 1) 0 (pfn_free USER_REG f s)" using w by auto
    have l: "length (take 3 (cut_path va)) = 3" by (simp add: cut_path_simps(1))
    have c: "cut_path va = take 3 (cut_path va) @ [cut_index va 1]"
      by (simp add: cut_path_simps(3) eval_nat_numeral)
    have tb: "unat t' < 2 ^ 20" using tables_okD(3)[OF ok t'] l by simp
    have "tabs os (shrink_walk os va (osmap os root) 4 s) root
        = (tabs os s root)(take 3 (cut_path va) @ [cut_index va 1] := None)"
      by (rule tabs_unlink[OF ok t' l])
        (auto simp: s' entry_def vm_set_entry present_def osmap_eq[OF tables_okD(1)[OF ok] _ tb]
          cut_less)
    then show ?thesis using c by simp
  qed
qed

lemma shrink_pages_tabs:
  assumes "tables_ok os (ucast pg) s"
  shows "tabs os (shrink_pages os pg nn j s) (ucast pg) =
      (\<lambda>js. if \<exists>i<j. js = cut_path (nn + of_nat (4096 * i)) then None else tabs os s (ucast pg) js)
    \<and> live (hist (shrink_pages os pg nn j s)) = live (hist s) -
      {(USER_REG, f) | f. \<exists>i<j. tabs os s (ucast pg) (cut_path (nn + of_nat (4096 * i))) = Some f}"
  using assms
proof (induction j arbitrary: s)
  case (Suc j)
  let ?C = "\<lambda>i. cut_path (nn + of_nat (4096 * i))"
  define s1 where "s1 = shrink_walk os (nn + of_nat (4096 * j)) (osmap os (ucast pg)) 4 s"
  note w = shrink_walk_tabs[OF Suc.prems, of "nn + of_nat (4096 * j)", folded s1_def]
  have ok: "tables_ok os (ucast pg) s1"
    using Suc.prems unfolding tables_ok_def w(1) by (auto split: if_splits)
  have step: "shrink_pages os pg nn (Suc j) s = shrink_pages os pg nn j s1" by (simp add: s1_def)
  note IH1 = conjunct1[OF Suc.IH[OF ok]] and IH2 = conjunct2[OF Suc.IH[OF ok]]
  have "tabs os (shrink_pages os pg nn (Suc j) s) (ucast pg) =
      (\<lambda>js. if \<exists>i<Suc j. js = ?C i then None else tabs os s (ucast pg) js)"
    unfolding step IH1 w(1) less_Suc_eq fun_upd_def by (rule ext) (simp only: split: if_split, blast)
  moreover have "live (hist (shrink_pages os pg nn (Suc j) s)) = live (hist s) -
      {(USER_REG, f) | f. \<exists>i<Suc j. tabs os s (ucast pg) (?C i) = Some f}"
  proof -
    have l1: "live (hist s1) = live (hist s) - {(USER_REG, f) | f. tabs os s (ucast pg) (?C j) = Some f}"
      unfolding w(2) by (auto split: option.splits)
    have u: "{(USER_REG, f) | f. \<exists>i<Suc j. tabs os s (ucast pg) (?C i) = Some f}
      = {(USER_REG, f) | f. tabs os s (ucast pg) (?C j) = Some f}
        \<union> {(USER_REG, f) | f. \<exists>i<j. tabs os s1 (ucast pg) (?C i) = Some f}"
    unfolding w(1) by (auto simp: less_Suc_eq split: if_splits, metis)
    show ?thesis unfolding step IH2 l1 u by (rule set_eqI) (simp only: Diff_iff Un_iff, blast)
  qed
  ultimately show ?case by (rule conjI)
qed simp

text \<open>Where all indices are below 256 nothing is cut off, and where nothing is mapped nothing changes.\<close>

definition low_page :: "u64 \<Rightarrow> bool" where
  "low_page va \<longleftrightarrow> (\<forall>i\<in>set (va_path va). i < 256)"

lemma cut_path_low: "low_page va \<Longrightarrow> cut_path va = va_path va"
  unfolding low_page_def cut_path_def by (rule map_idI) simp

lemma shrink_pages_unmapped:
  assumes "tables_ok os (ucast pg) s"
    and "\<forall>i<j. low_page (nn + of_nat (4096 * i)) \<and> \<not> mapped os s pg (nn + of_nat (4096 * i))"
  shows "shrink_pages os pg nn j s = s"
  using assms(2)
proof (induction j)
  case (Suc j)
  let ?a = "nn + of_nat (4096 * j)"
  have "tabs os s (ucast pg) (cut_path ?a) = None"
    using Suc.prems by (simp add: cut_path_low mapped_def tabs_def)
  then have "shrink_walk os ?a (osmap os (ucast pg)) 4 s = s"
    using shrink_walk_levels[OF assms(1), of 4 ?a "ucast pg"] by simp
  then show ?case using Suc by simp
qed simp

section \<open>A concrete kernel state\<close>

definition demo_ctx :: exec_context where
  "demo_ctx = \<lparr>ctx_id = 7, ctx_type = 2, status = 0, used_mem = 0, pgd = 0x2000, os_stack_pfn = 0,
     mms = [\<lparr>start = 0x100000000, seg_end = 0x100008000, next_free = 0x100008000, access_flags = 5\<rparr>,
            \<lparr>start = 0x140000000, seg_end = 0x140800000, next_free = 0x140001000, access_flags = 1\<rparr>,
            \<lparr>start = 0x180000000, seg_end = 0x180800000, next_free = 0x180001000, access_flags = 3\<rparr>,
            \<lparr>start = 0x7FF000000, seg_end = 0x800000000, next_free = 0x800000000, access_flags = 3\<rparr>],
     ctx_name = []\<rparr>"

text \<open>The root table is empty; \<open>demo_mapped\<close> is the state after a fault at \<open>0x180000000\<close>.\<close>

definition demo_empty :: frames where
  "demo_empty = \<lparr>vm = (\<lambda>_ _. 0), hist = [Alloc OS_PT_REG 0x2000]\<rparr>"

definition demo_mapped :: frames where
  "demo_mapped = fault_map demo_os 3 0x180000000 (osmap demo_os 0x2000) 4 demo_empty"

definition demo_kernel :: "frames \<Rightarrow> kernel" where
  "demo_kernel s = \<lparr>fr = s, current = demo_ctx, umem = (\<lambda>a. ucast a), console = []\<rparr>"

definition demo_gprs :: gprs where
  "demo_gprs = \<lparr>rax = 1, rbx = 2, rcx = 3, rdx = 4, rdi = 5, rsi = 6, r8 = 8, r9 = 9, r10 = 10,
     r11 = 11, r12 = 12, r13 = 13, r14 = 14, r15 = 15\<rparr>"

lemma demo_segs_wf: "segs_wf demo_ctx"
  by (simp add: segs_wf_def seg_wf_def demo_ctx_def)

lemma demo_empty_setting: "setting demo_os 100 None {} 0x2000 demo_empty"
proof -
  have e: "entry demo_os demo_empty p j = 0" for p j by (simp add: entry_def demo_empty_def)
  have "tabs demo_os demo_empty 0x2000 (i # js) = None" for i js
    by (simp add: tabs_def e present_def)
  then have t: "tabs demo_os demo_empty 0x2000 = [[] \<mapsto> 0x2000]"
    by (intro ext) (metis fun_upd_apply neq_Nil_conv tabs_Nil)
  have "space {} None [[] \<mapsto> 0x2000] (hist demo_empty)"
    by (auto simp: space_def owned_def region_at_def demo_empty_def split: if_splits)
  moreover have "history demo_os (hist demo_empty)"
    by (simp add: demo_empty_def demo_os_def demo_base_def)
  ultimately show ?thesis
    using demo_osmap_ok demo_frames_ok t by (simp add: setting_def)
qed

lemma demo_empty_clean: "walk_clean demo_os va root demo_empty"
  by (simp add: walk_clean_def zeroed_def entry_def demo_empty_def present_def)

lemma demo_mapped_built:
  "built demo_os True None (va_path 0x180000000) 0x2000 4 demo_empty demo_mapped"
  "setting demo_os 100 None {} 0x2000 demo_mapped"
proof -
  have "built demo_os (bit (3 :: u32) 1) None (va_path 0x180000000) 0x2000 4 demo_empty demo_mapped
      \<and> setting demo_os 100 None {} 0x2000 demo_mapped"
    unfolding demo_mapped_def
    by (rule fault.walk_built[OF demo_empty_setting demo_empty_clean]) (simp_all add: demo_empty_def)
  then show "built demo_os True None (va_path 0x180000000) 0x2000 4 demo_empty demo_mapped"
    "setting demo_os 100 None {} 0x2000 demo_mapped" by (simp_all add: bit_numeral_rec)
qed

lemma demo_empty_tabs: "js \<noteq> [] \<Longrightarrow> tabs demo_os demo_empty 0x2000 js = None"
  by (cases js) (simp_all add: tabs_def entry_def demo_empty_def present_def)

lemma demo_mapped_tables: "tables_ok demo_os 0x2000 demo_mapped"
  "tabs demo_os demo_mapped 0x2000 (va_path 0x180000000) \<noteq> None"
proof -
  let ?P = "va_path 0x180000000" and ?m = "tabs demo_os demo_mapped 0x2000"
  note sp = settingD(4)[OF demo_mapped_built(2)] and b = demo_mapped_built(1)[unfolded built_def]
  note none = demo_empty_tabs
  show "?m ?P \<noteq> None" using b by blast
  have leaf: "unat f < 2 ^ 20" if "?m ?P = Some f" for f
    using b none[of ?P] that by (simp add: va_path_def)
  have "unat p < (if length js \<le> 3 then 2 ^ 20 else 2 ^ 32)" if p: "?m js = Some p" for js p
  proof (cases "length js \<le> 3")
    case True then show ?thesis using spaceD(3)[OF sp p] by simp
  next
    case False
    then obtain k where "js = take k ?P" using b none[of js] p by (metis list.size(3) option.distinct(1) zero_le)
    then have "js = ?P" using False by (simp add: not_le)
    then show ?thesis using leaf p False by fastforce
  qed
  then show "tables_ok demo_os 0x2000 demo_mapped"
    unfolding tables_ok_def using demo_osmap_ok spaceD(2)[OF sp] by blast
qed

lemma demo_pages: "va_path 0x180000000 = [0, 6, 0, 0]" "va_path 0x180001000 = [0, 6, 0, 1]"
  "va_path 0x180100000 = [0, 6, 0, 256]"
  by (simp_all add: va_path_def va_index_def)

section \<open>Properties\<close>

text \<open>
  C22: \<open>write\<close> of at most 1024 bytes prints, after the line that every system call prints, exactly the
  bytes of the buffer and returns their number when the first page and the page of every byte are
  mapped, and otherwise prints nothing more and returns -1, also where the buffer crosses into an
  unmapped page.
\<close>

theorem sys_write_correct:
  assumes "unat param2 \<le> 1024"
  shows "do_syscall os SYSCALL_WRITE param1 param2 k = Some (
    if mapped os (fr k) (pgd (current k)) param1
      \<and> (\<forall>i<unat param2. mapped os (fr k) (pgd (current k)) (param1 + of_nat i))
    then Return param2 (k\<lparr>console := console k @ Syscall_invoked SYSCALL_WRITE #
      map (\<lambda>i. Out (umem k (param1 + of_nat i))) [0..<unat param2]\<rparr>)
    else Return (- 1) (k\<lparr>console := console k @ [Syscall_invoked SYSCALL_WRITE]\<rparr>))"
proof -
  define n where "n = unat param2"
  have n: "int_of_u64 param2 = int n" "n \<le> 1024"
    using assms int_of_u64_small[of param2] by (simp_all add: n_def)
  show ?thesis
    unfolding n_def[symmetric] using check_pages_mapped[OF n(2)] n
    by (auto simp: do_syscall_def syscall_numbers sys_write_def print_msgs_def Let_def n_def[symmetric])
qed

theorem sys_write_correct_witness:
  "do_syscall demo_os SYSCALL_WRITE 0x180000000 3 (demo_kernel demo_mapped)
     = Some (Return 3 ((demo_kernel demo_mapped)\<lparr>console := [Syscall_invoked SYSCALL_WRITE, Out 0, Out 1, Out 2]\<rparr>))"
proof -
  have m: "mapped demo_os demo_mapped 0x2000 0x180000000"
    using demo_mapped_tables(2) by (simp add: mapped_def tabs_def split: if_splits)
  have "mapped demo_os demo_mapped 0x2000 (0x180000000 + of_nat i)" if "i < 3" for i
  proof -
    have "va_path (0x180000000 + of_nat i) = va_path 0x180000000"
      by (rule va_path_page, rule page_of_add[of 0, simplified]) (use that in simp)
    then show ?thesis using m by (simp add: mapped_def)
  qed
  then show ?thesis
    using sys_write_correct[where ?param2.0 = 3 and os = demo_os and ?param1.0 = "0x180000000" and k = "demo_kernel demo_mapped"] m
    by (simp add: demo_kernel_def demo_ctx_def upt_conv_Cons)
qed

text \<open>
  A length whose low 32 bits are negative passes the test against 1024, and the bytes are then
  printed up to the overflow of the \<open>int\<close> counter.
\<close>

theorem sys_write_negative_length:
  assumes "int_of_u64 param2 \<le> 0" "2 ^ 31 \<le> unat param2"
    and "mapped os (fr k) (pgd (current k)) param1"
  shows "sys_write os param1 param2 k = None"
proof -
  have "check_pages os (fr k) (pgd (current k)) param1 off (int_of_u64 param2)" if "off < 4096" for off
    using assms that by (subst check_pages.simps) (simp add: walk_present_mapped)
  from this[OF page_offset_less] show ?thesis using assms by (simp add: sys_write_def)
qed

text \<open>
  C23: No system call takes a segment's break out of the segment: the invariant
  \<open>start \<le> next_free \<le> end\<close> of every segment is kept, whatever the arguments, and the limits of the
  segments never change.
\<close>

theorem do_syscall_keeps_segs:
  assumes wf: "segs_wf (current k)"
    and run: "do_syscall os syscall param1 param2 k = Some (Return r k')"
  shows "segs_wf (current k') \<and> map start (mms (current k')) = map start (mms (current k))
    \<and> map seg_end (mms (current k')) = map seg_end (mms (current k))"
proof -
  define b where "b = print_msgs [Syscall_invoked syscall] k"
  have b: "current b = current k" by (simp add: b_def print_msgs_def)
  have upd: "segs_wf (current (set_next_free i v k2)) \<and> map start (mms (current (set_next_free i v k2))) = map start (mms (current k))
      \<and> map seg_end (mms (current (set_next_free i v k2))) = map seg_end (mms (current k))"
    if "current k2 = current k" "i < 4" "start (mms (current k) ! i) \<le> v" "v \<le> seg_end (mms (current k) ! i)" for i v k2
    using set_next_free_wf[of k2 i v] that wf
    by (simp add: set_next_free_def map_update segs_wf_def map_update list_update_same_conv)
  have seg: "seg_wf (mms (current k) ! i)" if "map_segment param2 = Some i" for i
    using segs_wf_nth[OF wf] map_segment_less[OF that] by (auto simp: mm_segs)
  have lt: "i < 4" if "map_segment param2 = Some i" for i using map_segment_less[OF that] by (auto simp: mm_segs)
  consider "current k' = current k" | "Some (sys_expand param1 param2 b) = Some (Return r k')"
    | "sys_shrink os param1 param2 b = Some (Return r k')"
    using run by (auto simp: do_syscall_def sys_write_def print_msgs_def b_def Let_def split: if_splits)
  then show ?thesis
  proof cases
    case 1 then show ?thesis using wf by simp
  next
    case 2
    show ?thesis
    proof (cases "map_segment param2")
      case None then show ?thesis using 2 wf b by (simp add: sys_expand_def)
    next
      case (Some i)
      show ?thesis
        using 2 Some wf seg[OF Some] lt[OF Some] upd[of b i] b
          grow_bound[of "next_free (mms (current k) ! i)" "seg_end (mms (current k) ! i)" "push_bit 12 param1"]
        by (auto simp: sys_expand_def Let_def seg_wf_def split: if_splits dest: order_trans)
    qed
  next
    case 3
    show ?thesis
    proof (cases "map_segment param2")
      case None then show ?thesis using 3 wf b by (simp add: sys_shrink_def)
    next
      case (Some i)
      let ?s = "mms (current k) ! i"
      show ?thesis
      proof (cases "next_free ?s - start ?s < push_bit 12 param1")
        case True then show ?thesis using 3 Some wf b by (simp add: sys_shrink_def)
      next
        case False
        have "start ?s \<le> next_free ?s - push_bit 12 param1" "next_free ?s - push_bit 12 param1 \<le> seg_end ?s"
          using shrink_bound[OF _ False] seg[OF Some] by (auto simp: seg_wf_def dest: order_trans)
        then show ?thesis
          using 3 sys_shrink_loop[of b param2 i ?s param1 os] wf Some False b lt[OF Some] upd by auto
      qed
    qed
  qed
qed

theorem do_syscall_keeps_segs_witness:
  "segs_wf (current (set_next_free MM_SEG_DATA 0x180003000 (demo_kernel demo_empty)))"
  using do_syscall_keeps_segs[of "demo_kernel demo_empty" demo_os SYSCALL_EXPAND 2 1 "0x180001000"
      "set_next_free MM_SEG_DATA 0x180003000 (print_msgs [Syscall_invoked SYSCALL_EXPAND] (demo_kernel demo_empty))"] demo_segs_wf
  by (simp add: demo_kernel_def do_syscall_def syscall_numbers sys_expand_def map_segment_def
      MAP_RD_def MAP_WR_def demo_ctx_def mm_segs Let_def print_msgs_def set_next_free_def)

text \<open>The page count is shifted without a check: the high twelve bits of it are lost.\<close>

theorem sys_expand_wraps: "sys_expand (param1 + 2 ^ 52) param2 k = sys_expand param1 param2 k"
proof -
  have "push_bit 12 (param1 + 2 ^ 52) = push_bit 12 param1"
    by (simp add: push_bit_eq_mult distrib_right)
  then show ?thesis by (simp only: sys_expand_def)
qed

text \<open>
  C24: A \<open>shrink\<close> that directly follows a successful \<open>expand\<close> by the same number of pages undoes it: it
  returns the address that \<open>expand\<close> returned, and the whole kernel state, page tables and frames
  included, is as before. This is shown where no page from the old to the new break is mapped and
  none of them has an index above 255.
\<close>

theorem expand_shrink_roundtrip:
  assumes wf: "segs_wf (current k)" and seg: "map_segment flags = Some i"
    and fits: "\<not> seg_end (mms (current k) ! i) - next_free (mms (current k) ! i) < push_bit 12 pages"
    and run: "sys_expand pages flags k = Return r k1"
    and ok: "tables_ok os (ucast (pgd (current k))) (fr k)"
    and free: "\<forall>j\<le>unat (push_bit 12 pages :: u64) div 4096.
      low_page (next_free (mms (current k) ! i) + of_nat (4096 * j))
      \<and> \<not> mapped os (fr k) (pgd (current k)) (next_free (mms (current k) ! i) + of_nat (4096 * j))"
  shows "sys_shrink os pages flags k1 = Some (Return r k)"
proof -
  let ?s = "mms (current k) ! i" and ?p = "push_bit 12 pages :: u64"
  have i: "i < 4" "i < length (mms (current k))" "seg_wf ?s"
    using map_segment_less[OF seg] segs_wf_nth[OF wf] wf by (auto simp: mm_segs segs_wf_def)
  have k1: "k1 = set_next_free i (next_free ?s + ?p) k" "r = next_free ?s"
    using run seg fits by (auto simp: sys_expand_def Let_def)
  have b: "next_free ?s \<le> next_free ?s + ?p" "next_free ?s + ?p \<le> seg_end ?s"
    using grow_bound[OF _ fits] i(3) by (simp_all add: seg_wf_def)
  have wf1: "segs_wf (current k1)"
    unfolding k1(1) by (rule set_next_free_wf[OF wf i(1)]) (use b i(3) in \<open>auto simp: seg_wf_def dest: order_trans\<close>)
  have s1: "mms (current k1) ! i = ?s\<lparr>next_free := next_free ?s + ?p\<rparr>"
    using i(2) by (simp add: k1(1) set_next_free_def)
  have "\<not> next_free ?s + ?p - start ?s < ?p"
  proof -
    have "start ?s \<le> next_free ?s" using i(3) by (simp add: seg_wf_def)
    then show ?thesis using b(1) by unat_arith
  qed
  then have "sys_shrink os pages flags k1 = Some (Return (next_free ?s) (set_next_free i (next_free ?s)
      (k1\<lparr>fr := shrink_pages os (pgd (current k1)) (next_free ?s) (Suc (unat ?p div 4096)) (fr k1)\<rparr>)))"
    using sys_shrink_loop[OF wf1 seg refl, of pages os] by (simp add: s1 del: shrink_pages.simps)
  moreover have "shrink_pages os (pgd (current k1)) (next_free ?s) (Suc (unat ?p div 4096)) (fr k1) = fr k"
    using shrink_pages_unmapped[OF ok, of "Suc (unat ?p div 4096)"] free
    by (simp add: k1(1) set_next_free_def less_Suc_eq_le del: shrink_pages.simps)
  moreover have "set_next_free i (next_free ?s) (k1\<lparr>fr := fr k\<rparr>) = k"
    using i(2) by (simp add: k1(1) set_next_free_def)
  ultimately show ?thesis using k1(2) by (simp del: shrink_pages.simps)
qed

theorem expand_shrink_roundtrip_witness:
  "\<exists>k1. sys_expand 2 1 (demo_kernel demo_mapped) = Return 0x180001000 k1
     \<and> sys_shrink demo_os 2 1 k1 = Some (Return 0x180001000 (demo_kernel demo_mapped))"
proof -
  have m: "map_segment 1 = Some MM_SEG_DATA" by (simp add: map_segment_def MAP_RD_def MAP_WR_def)
  have r: "sys_expand 2 1 (demo_kernel demo_mapped)
      = Return 0x180001000 (set_next_free MM_SEG_DATA 0x180003000 (demo_kernel demo_mapped))"
    by (simp add: sys_expand_def m demo_kernel_def demo_ctx_def mm_segs)
  have free: "low_page (0x180001000 + of_nat (4096 * j)) \<and> \<not> mapped demo_os demo_mapped 0x2000 (0x180001000 + of_nat (4096 * j))"
    if "j \<le> 2" for j
  proof -
    have "j = 0 \<or> j = 1 \<or> j = 2" using that by auto
    then have v: "va_path (0x180001000 + of_nat (4096 * j)) = [0, 6, 0, Suc j]" by (auto simp: va_path_def va_index_def)
    have "[0, 6, 0, Suc j] \<noteq> take n (va_path 0x180000000)" for n
      by (cases "n \<le> 3") (auto simp: demo_pages dest: arg_cong[where f = length])
    then have "tabs demo_os demo_mapped 0x2000 [0, 6, 0, Suc j] = None"
      using demo_mapped_built(1) demo_empty_tabs[of "[0, 6, 0, Suc j]"] unfolding built_def by blast
    then show ?thesis using that v by (simp add: low_page_def mapped_def tabs_def valid_path_def)
  qed
  have k: "current (demo_kernel demo_mapped) = demo_ctx" "fr (demo_kernel demo_mapped) = demo_mapped" "pgd demo_ctx = 0x2000"
      "mms demo_ctx ! MM_SEG_DATA = \<lparr>start = 0x180000000, seg_end = 0x180800000, next_free = 0x180001000, access_flags = 3\<rparr>"
    by (simp_all add: demo_kernel_def demo_ctx_def mm_segs)
  show ?thesis
    using expand_shrink_roundtrip[OF _ m _ r, of demo_os, unfolded k] demo_segs_wf r demo_mapped_tables(1) free by simp
qed

text \<open>
  C26: \<open>shrink\<close> returns for every page count, page table and flag, although its loop counts an
  unsigned address down: a well-formed segment does not start in the first page.
\<close>

theorem sys_shrink_returns:
  assumes wf: "segs_wf (current k)"
  shows "\<exists>r k'. sys_shrink os pages flags k = Some (Return r k')"
proof (cases "map_segment flags")
  case None then show ?thesis by (simp add: sys_shrink_def)
next
  case (Some i)
  let ?s = "mms (current k) ! i"
  show ?thesis
  proof (cases "next_free ?s - start ?s < push_bit 12 pages")
    case True then show ?thesis using Some by (simp add: sys_shrink_def)
  next
    case False then show ?thesis using sys_shrink_loop[OF wf Some refl False] by blast
  qed
qed

theorem sys_shrink_returns_witness:
  "\<exists>r k'. sys_shrink demo_os 1 1 (demo_kernel demo_mapped) = Some (Return r k')"
  using sys_shrink_returns[of "demo_kernel demo_mapped" demo_os 1 1] demo_segs_wf
  by (simp add: demo_kernel_def)

text \<open>
  C25: Where no page of the range has an index above 255, \<open>shrink\<close> unmaps the pages between the new
  and the old break, frees exactly the frames mapped there, leaves every other mapping alone and
  moves the break. (The page at the old break is visited too.)
\<close>

theorem sys_shrink_unmaps:
  assumes wf: "segs_wf (current k)" and seg: "map_segment flags = Some i"
    and fits: "\<not> next_free (mms (current k) ! i) - start (mms (current k) ! i) < push_bit 12 pages"
    and ok: "tables_ok os (ucast (pgd (current k))) (fr k)"
    and nn: "nn = next_free (mms (current k) ! i) - push_bit 12 pages"
    and n: "n = unat (push_bit 12 pages :: u64) div 4096"
    and low: "\<forall>j\<le>n. low_page (nn + of_nat (4096 * j))"
  shows "\<exists>k'. sys_shrink os pages flags k = Some (Return nn k')
    \<and> next_free (mms (current k') ! i) = nn
    \<and> (\<forall>j\<le>n. \<not> mapped os (fr k') (pgd (current k)) (nn + of_nat (4096 * j)))
    \<and> (\<forall>is. valid_path is \<and> (\<forall>j\<le>n. is \<noteq> va_path (nn + of_nat (4096 * j))) \<longrightarrow>
         table_of os (fr k') (ucast (pgd (current k))) is = table_of os (fr k) (ucast (pgd (current k))) is)
    \<and> live (hist (fr k')) = live (hist (fr k)) - {(USER_REG, f) | f. \<exists>j\<le>n.
         table_of os (fr k) (ucast (pgd (current k))) (va_path (nn + of_nat (4096 * j))) = Some f}"
proof -
  let ?pg = "pgd (current k)" and ?r = "ucast (pgd (current k)) :: u64"
  define s where "s = shrink_pages os ?pg nn (Suc n) (fr k)"
  let ?k = "set_next_free i nn (k\<lparr>fr := s\<rparr>)"
  have run: "sys_shrink os pages flags k = Some (Return nn ?k)"
    using sys_shrink_loop[OF wf seg refl fits] unfolding s_def nn n by simp
  have c: "cut_path (nn + of_nat (4096 * j)) = va_path (nn + of_nat (4096 * j))" if "j < Suc n" for j
    using cut_path_low low that by (meson less_Suc_eq_le)
  note p = shrink_pages_tabs[OF ok, of nn "Suc n", folded s_def]
  have t: "tabs os s ?r js = (if \<exists>j<Suc n. js = va_path (nn + of_nat (4096 * j)) then None
      else tabs os (fr k) ?r js)" for js
    using conjunct1[OF p] c by (simp only:) metis
  have vt: "table_of os x ?r (va_path va) = tabs os x ?r (va_path va)" for x va by (simp add: tabs_def)
  have l: "live (hist s) = live (hist (fr k)) - {(USER_REG, f) | f. \<exists>j<Suc n.
      tabs os (fr k) ?r (va_path (nn + of_nat (4096 * j))) = Some f}"
    using conjunct2[OF p] c by (simp only: c cong: conj_cong)
  have "i < length (mms (current k))" using map_segment_less[OF seg] wf by (auto simp: mm_segs segs_wf_def)
  then have "fr ?k = s" "next_free (mms (current ?k) ! i) = nn" by (simp_all add: set_next_free_def)
  moreover have "\<forall>j\<le>n. \<not> mapped os s ?pg (nn + of_nat (4096 * j))"
    unfolding mapped_def vt t by (auto simp: less_Suc_eq_le)
  moreover have "\<forall>is. valid_path is \<and> (\<forall>j\<le>n. is \<noteq> va_path (nn + of_nat (4096 * j))) \<longrightarrow>
      table_of os s ?r is = table_of os (fr k) ?r is"
  proof (intro allI impI, elim conjE)
    fix js assume v: "valid_path js" and other: "\<forall>j\<le>n. js \<noteq> va_path (nn + of_nat (4096 * j))"
    have "\<not> (\<exists>j<Suc n. js = va_path (nn + of_nat (4096 * j)))"
      using other unfolding less_Suc_eq_le by blast
    then show "table_of os s ?r js = table_of os (fr k) ?r js"
      using t[of js] unfolding table_of_tabs[OF v] by (rule trans[OF _ if_not_P, rotated])
  qed
  ultimately show ?thesis
    using run l unfolding vt less_Suc_eq_le by (intro exI[of _ ?k]) simp
qed

theorem sys_shrink_unmaps_witness:
  "\<exists>k'. sys_shrink demo_os 1 1 (demo_kernel demo_mapped) = Some (Return 0x180000000 k')
     \<and> \<not> mapped demo_os (fr k') 0x2000 0x180000000"
proof -
  let ?k = "demo_kernel demo_mapped"
  have m: "map_segment 1 = Some MM_SEG_DATA" by (simp add: map_segment_def MAP_RD_def MAP_WR_def)
  have c: "current ?k = demo_ctx" "fr ?k = demo_mapped" "pgd demo_ctx = 0x2000"
    by (simp_all add: demo_kernel_def demo_ctx_def)
  have d: "next_free (mms demo_ctx ! MM_SEG_DATA) = 0x180001000" "start (mms demo_ctx ! MM_SEG_DATA) = 0x180000000"
    by (simp_all add: demo_ctx_def mm_segs)
  have low: "low_page (0x180000000 + of_nat (4096 * j))" if "j \<le> 1" for j
    using that demo_pages by (cases j) (auto simp: low_page_def)
  show ?thesis
    using sys_shrink_unmaps[of ?k 1 MM_SEG_DATA 1 demo_os "0x180000000" 1] demo_segs_wf m c d low
      demo_mapped_tables(1) by (fastforce simp del: of_nat_mult)
qed

text \<open>
  C27: The index into a table is kept in a \<open>u8\<close>. Shrinking past a page with an index above 255 leaves
  that page mapped and instead unmaps, and frees the frame of, the page whose indices are the
  same modulo 256.
\<close>

theorem shrink_cuts_index:
  assumes ok: "tables_ok os root s" and cut: "cut_path va \<noteq> va_path va"
    and victim: "table_of os s root (cut_path va) = Some f"
  shows "table_of os (shrink_walk os va (osmap os root) 4 s) root (va_path va) = table_of os s root (va_path va)
    \<and> table_of os (shrink_walk os va (osmap os root) 4 s) root (cut_path va) = None
    \<and> hist (shrink_walk os va (osmap os root) 4 s) = Free USER_REG f # hist s"
proof -
  note w = shrink_walk_tabs[OF ok, of va] and v = table_of_tabs[OF valid_va_path]
    and c = table_of_tabs[OF cut_path_simps(2)]
  show ?thesis
    unfolding v c w(1) using w(2) victim[unfolded c] cut by simp
qed

theorem shrink_cuts_index_witness:
  "\<exists>s'. s' = shrink_walk demo_os 0x180100000 (osmap demo_os 0x2000) 4 demo_mapped
     \<and> table_of demo_os s' 0x2000 (va_path 0x180000000) = None"
proof -
  have c: "cut_path 0x180100000 = va_path 0x180000000" by (simp add: cut_path_def demo_pages)
  obtain f where f: "table_of demo_os demo_mapped 0x2000 (cut_path 0x180100000) = Some f"
    using demo_mapped_tables(2) unfolding c by (auto simp: tabs_def)
  show ?thesis
    using shrink_cuts_index[OF demo_mapped_tables(1) _ f] c by (simp add: demo_pages)
qed

text \<open>
  C21: A fault that the handler accepts, at an address whose page table of the last level exists
  already, is served: all general registers are restored, the page is mapped afterwards, a page that
  was not mapped before gets a frame that was not in use and the write permission of its segment, all
  other mappings stay, no other page becomes mapped, and no other frame is taken. (Where a table is
  missing the handler adds one without clearing it, and none of this holds in general.)
\<close>

theorem handle_page_fault_maps:
  assumes acc: "fault_segment (current k) cr2 (error_code f) = Some i"
    and set: "setting os N arg base (ucast (pgd (current k))) (fr k)"
    and last: "table_of os (fr k) (ucast (pgd (current k))) (take 3 (va_path cr2)) \<noteq> None"
    and len: "length (hist (fr k)) + 4 \<le> N"
  shows "\<exists>s' p. handle_page_fault os g clobber cr2 f st k
        = Some (Resume g (saved_rbp f) (iret_words f) (k\<lparr>fr := s'\<rparr>))
    \<and> table_of os s' (ucast (pgd (current k))) (va_path cr2) = Some p
    \<and> (\<not> mapped os (fr k) (pgd (current k)) cr2 \<longrightarrow> p \<notin> snd ` live (hist (fr k))
        \<and> writable os s' (ucast (pgd (current k))) (va_path cr2)
            = bit (access_flags (mms (current k) ! i)) 1)
    \<and> (\<forall>va. va_path va \<noteq> va_path cr2 \<longrightarrow>
        table_of os s' (ucast (pgd (current k))) (va_path va)
          = table_of os (fr k) (ucast (pgd (current k))) (va_path va))
    \<and> live (hist s') = insert (USER_REG, p) (live (hist (fr k)))"
proof -
  let ?r = "ucast (pgd (current k)) :: u64" and ?a = "access_flags (mms (current k) ! i)" and ?P = "va_path cr2"
  define s' where "s' = fault_map os ?a cr2 (osmap os ?r) 4 (fr k)"
  have tl: "tabs os (fr k) ?r (take 3 ?P) \<noteq> None"
    using last by (simp add: table_of_tabs valid_path_take)
  have wc: "walk_clean os cr2 ?r (fr k)" using tl by (simp add: walk_clean_def)
  have "built os (bit ?a 1) None ?P ?r 4 (fr k) s' \<and> setting os N arg base ?r s'"
    unfolding s'_def using fault.walk_built[OF set wc len] by simp
  then have le: "tabs os (fr k) ?r \<subseteq>\<^sub>m tabs os s' ?r" and set': "setting os N arg base ?r s'"
    and dom: "\<And>js. tabs os s' ?r js \<noteq> None \<Longrightarrow> tabs os (fr k) ?r js \<noteq> None \<or> (\<exists>n. js = take n ?P)"
    and P: "tabs os s' ?r ?P \<noteq> None"
    and new: "tabs os (fr k) ?r ?P = None \<Longrightarrow> writable os s' ?r ?P = bit ?a 1
      \<and> (\<forall>p. tabs os s' ?r ?P = Some p \<longrightarrow> p \<notin> snd ` live (hist (fr k)))"
    unfolding built_def by simp_all
  obtain p where p: "tabs os s' ?r ?P = Some p" using P by blast
  have upper: "tabs os (fr k) ?r (take n ?P) \<noteq> None" if "take n ?P \<noteq> ?P" for n
  proof -
    have "n \<le> 3" using that by (cases "n \<le> 3") simp_all
    then have "take n (take 3 ?P) = take n ?P" by (simp add: min_def)
    then show ?thesis using tabs_prefix[OF tl, of n] by simp
  qed
  have tq: "tabs os s' ?r = (tabs os (fr k) ?r)(?P \<mapsto> p)"
    by (rule map_extended[OF le p]) (use dom upper in blast)
  have "live (hist s') = insert (USER_REG, p) (live (hist (fr k)))"
    unfolding spaceD(1)[OF settingD(4)[OF set]] spaceD(1)[OF settingD(4)[OF set']] tq
    using owned_extend[of "tabs os (fr k) ?r" ?P p] map_le_same[OF le p] by (simp add: region_at_def)
  moreover have "handle_page_fault os g clobber cr2 f st k = Some (Resume g (saved_rbp f) (iret_words f) (k\<lparr>fr := s'\<rparr>))"
    using acc by (simp add: handle_page_fault_def Let_def pop_push_gprs s'_def)
  ultimately show ?thesis
    using new p tq unfolding mapped_def table_of_tabs[OF valid_va_path]
    by (intro exI[of _ s'] exI[of _ p]) auto
qed

theorem handle_page_fault_maps_witness:
  "\<exists>s'. handle_page_fault demo_os demo_gprs (demo_gprs\<lparr>rax := 0\<rparr>) 0x180000123
       \<lparr>saved_rbp = 5, error_code = 6, iret_words = [8]\<rparr> [] (demo_kernel demo_mapped)
     = Some (Resume demo_gprs 5 [8] ((demo_kernel demo_mapped)\<lparr>fr := s'\<rparr>))
     \<and> mapped demo_os s' 0x2000 0x180000123"
proof -
  let ?k = "demo_kernel demo_mapped"
  have c: "current ?k = demo_ctx" "fr ?k = demo_mapped" "pgd demo_ctx = 0x2000"
    by (simp_all add: demo_kernel_def demo_ctx_def)
  have a: "fault_segment (current ?k) 0x180000123 (error_code \<lparr>saved_rbp = 5, error_code = 6, iret_words = [8]\<rparr>)
      = Some MM_SEG_DATA"
    by (simp add: c fault_segment_def in_seg_def demo_ctx_def mm_segs)
  have s: "setting demo_os 100 None {} (ucast (pgd (current ?k))) (fr ?k)"
    using demo_mapped_built(2) by (simp add: c)
  have "va_path 0x180000123 = va_path 0x180000000" by (simp add: va_path_def va_index_def)
  then have t: "table_of demo_os (fr ?k) (ucast (pgd (current ?k))) (take 3 (va_path 0x180000123)) \<noteq> None"
    using tabs_prefix[OF demo_mapped_tables(2), of 3] by (simp add: c table_of_tabs valid_path_take)
  have l: "length (hist (fr ?k)) + 4 \<le> 100"
    using demo_mapped_built(1) unfolding c by (simp add: built_def demo_empty_def)
  show ?thesis
    using handle_page_fault_maps[OF a s t l, of demo_gprs "demo_gprs\<lparr>rax := 0\<rparr>" "[]"] c
    by (auto simp: mapped_def)
qed

text \<open>
  The test for faults in the read-only segment compares with the break of the data segment:
  a read anywhere in the read-only segment below that break is served, also beyond the segment's
  own break.
\<close>

theorem fault_rodata_wrong_bound:
  assumes "in_seg (mms ctx ! MM_SEG_RODATA) va" "\<not> in_seg (mms ctx ! MM_SEG_DATA) va"
    and "va < next_free (mms ctx ! MM_SEG_DATA)" "error AND 0x1 = 0" "error AND 0x2 = 0"
  shows "fault_segment ctx va error = Some MM_SEG_RODATA"
  using assms by (simp add: fault_segment_def not_le)

theorem fault_rodata_wrong_bound_witness:
  "0x140700000 \<ge> next_free (mms demo_ctx ! MM_SEG_RODATA)
     \<and> fault_segment demo_ctx 0x140700000 4 = Some MM_SEG_RODATA"
  using fault_rodata_wrong_bound[of demo_ctx "0x140700000" 4]
  by (simp add: in_seg_def demo_ctx_def mm_segs)

text \<open>
  A new table is not cleared: where the frame that the allocator returns for the last table holds
  a present entry, the page is served with the stale frame and nothing is allocated for it.
\<close>

theorem fault_stale_table:
  assumes "present (entry os s t (va_index va 1))" "osmap_ok os" "unat t < 2 ^ 20"
  shows "frame_of (entry os (fault_map os access va (osmap os t) 1 s) t (va_index va 1))
      = frame_of (entry os s t (va_index va 1)) \<and> hist (fault_map os access va (osmap os t) 1 s) = hist s"
  using fault_entry_present[OF assms(2,3) refl assms(1) refl, of access] fault.walk_last
  by (simp add: made_def)

end
