(* ===== verification/Sched.thy ===== *)
theory Sched
  imports Prelude
begin

text \<open>
  The scheduler of gemOS, \<open>gemOS-a3/schedule.c\<close> with the structures of \<open>context.h\<close> and
  \<open>schedule.h\<close>: the timer tick, round robin, \<open>exit\<close>, \<open>sleep\<close>, \<open>clone\<close>, signals and alarms.

  The machine state has the table of 16 contexts, the index of the current one, byte-addressed
  memory, the two static variables and a log of the calls into prebuilt code. That code is a
  parameter, the record \<open>services\<close>. A pointer to a context is its index in the table. Registers
  that inline assembly moves are values of the record \<open>user_regs\<close>; \<open>Iret\<close> is the end of a handler
  that loads the register file and returns to user mode, \<open>Back\<close> an ordinary return, \<open>Shutdown\<close> a
  call of \<open>do_cleanup\<close>, which does not return. Which hardware register the compiler gives an
  operand of an assembly block is not modelled.
\<close>

section \<open>Contexts\<close>

datatype process_state = UNUSED | NEW | READY | RUNNING | WAITING | EXITING

record mm_segment =
  start :: u64
  seg_end :: u64
  next_free :: u64
  access_flags :: u32

record user_regs =
  r15 :: u64
  r14 :: u64
  r13 :: u64
  r12 :: u64
  r11 :: u64
  r10 :: u64
  r9 :: u64
  r8 :: u64
  rbp :: u64
  rdi :: u64
  rsi :: u64
  rdx :: u64
  rcx :: u64
  rbx :: u64
  rax :: u64
  entry_rip :: u64
  entry_cs :: u64
  entry_rflags :: u64
  entry_rsp :: u64
  entry_ss :: u64

record exec_context =
  pid :: u32
  ctx_type :: u8
  state :: process_state
  used_mem :: u16
  pgd :: u32
  os_stack_pfn :: u32
  os_rsp :: u64
  mms :: "mm_segment list"
  ctx_name :: "byte list"
  regs :: user_regs
  pending_signal_bitmap :: u32
  sighandlers :: "u64 list"
  ticks_to_sleep :: u32
  alarm_config_time :: u32
  ticks_to_alarm :: u32

definition MAX_PROCESSES :: nat where "MAX_PROCESSES = 16"
definition CNAME_MAX :: nat where "CNAME_MAX = 64"

definition SIGSEGV :: int where "SIGSEGV = 0"
definition SIGFPE :: int where "SIGFPE = 1"
definition SIGALRM :: int where "SIGALRM = 2"
definition MAX_SIGNALS :: int where "MAX_SIGNALS = 3"

lemmas signal_numbers = SIGSEGV_def SIGFPE_def SIGALRM_def MAX_SIGNALS_def

section \<open>The machine\<close>

datatype event = Ack_irq | Set_tss nat | Pfn_alloc u32 | Pfn_free u32

type_synonym memory = "u64 \<Rightarrow> byte"

record machine =
  ctxs :: "exec_context list"
  cur :: nat
  mem :: memory
  numticks :: u64
  stack_to_free :: u32
  log :: "event list"

record services =
  osmap :: "u64 \<Rightarrow> u64"
  get_ctx_by_pid :: "exec_context list \<Rightarrow> u32 \<Rightarrow> nat"
  get_new_ctx :: "exec_context list \<Rightarrow> nat \<times> exec_context list"
  os_pfn_alloc :: "event list \<Rightarrow> u32"

datatype outcome = Iret user_regs machine | Back machine | Shutdown machine

definition read64 :: "memory \<Rightarrow> u64 \<Rightarrow> u64" where
  "read64 m a = u64_at (\<lambda>k. m (a + of_nat k)) 0"

definition write64 :: "memory \<Rightarrow> u64 \<Rightarrow> u64 \<Rightarrow> memory" where
  "write64 m a v = (\<lambda>x. if unat (x - a) < 8 then u64_byte v (unat (x - a)) else m x)"

definition get_current_ctx :: "machine \<Rightarrow> exec_context" where
  "get_current_ctx m = ctxs m ! cur m"

definition upd_ctx :: "nat \<Rightarrow> (exec_context \<Rightarrow> exec_context) \<Rightarrow> machine \<Rightarrow> machine" where
  "upd_ctx i f m = m\<lparr>ctxs := (ctxs m)[i := f (ctxs m ! i)]\<rparr>"

definition upd_regs :: "(user_regs \<Rightarrow> user_regs) \<Rightarrow> exec_context \<Rightarrow> exec_context" where
  "upd_regs f c = c\<lparr>regs := f (regs c)\<rparr>"

definition emit :: "event \<Rightarrow> machine \<Rightarrow> machine" where
  "emit e m = m\<lparr>log := log m @ [e]\<rparr>"

section \<open>Saving and restoring\<close>

definition translate :: "services \<Rightarrow> u64 \<Rightarrow> u64" where
  "translate sv phy_addr = osmap sv (drop_bit 12 phy_addr) OR (phy_addr AND 0xFFF)"

definition word_at :: "memory \<Rightarrow> u64 \<Rightarrow> nat \<Rightarrow> u64" where
  "word_at m p i = read64 m (p + of_nat (8 * i))"

text \<open>The words of the exception frame and of the saved general registers, by index.\<close>

definition load_frame :: "(nat \<Rightarrow> u64) \<Rightarrow> user_regs \<Rightarrow> user_regs" where
  "load_frame w r = r\<lparr>rbp := w 0, entry_rip := w 1, entry_cs := w 2, entry_rflags := w 3,
     entry_rsp := w 4, entry_ss := w 5\<rparr>"

definition load_gprs :: "(nat \<Rightarrow> u64) \<Rightarrow> user_regs \<Rightarrow> user_regs" where
  "load_gprs w r = r\<lparr>r15 := w 0, r14 := w 1, r13 := w 2, r12 := w 3, r11 := w 4, r10 := w 5,
     r9 := w 6, r8 := w 7, rdi := w 8, rsi := w 9, rdx := w 10, rcx := w 11, rbx := w 12\<rparr>"

definition save_current_context ::
  "services \<Rightarrow> process_state \<Rightarrow> u64 \<Rightarrow> u64 \<Rightarrow> bool \<Rightarrow> machine \<Rightarrow> machine" where
  "save_current_context sv st rsp_bak rbp_bak skip_rax m = (
     let rbp_point = translate sv rbp_bak; rsp_point = translate sv rsp_bak in
     upd_ctx (cur m) (\<lambda>c. let c = c\<lparr>state := st\<rparr>;
         c = upd_regs (load_frame (word_at (mem m) rbp_point)) c;
         c = upd_regs (load_gprs (word_at (mem m) rsp_point)) c
       in if \<not> skip_rax then upd_regs (\<lambda>r. r\<lparr>rax := word_at (mem m) rsp_point 13\<rparr>) c else c) m)"

text \<open>
  \<open>fp\<close> is the frame pointer of \<open>schedule_context\<close>: the saved registers are written to the frame,
  \<open>pop %rbp\<close> and \<open>iretq\<close> take them from there, and the general registers are loaded directly.
\<close>

definition write_frame :: "u64 \<Rightarrow> user_regs \<Rightarrow> memory \<Rightarrow> memory" where
  "write_frame fp r m = write64 (write64 (write64 (write64 (write64 (write64 m
     fp (rbp r)) (fp + 8) (entry_rip r)) (fp + 16) (entry_cs r)) (fp + 24) (entry_rflags r))
     (fp + 32) (entry_rsp r)) (fp + 40) (entry_ss r)"

definition schedule_context :: "nat \<Rightarrow> bool \<Rightarrow> u64 \<Rightarrow> machine \<Rightarrow> outcome" where
  "schedule_context next do_ack_irq fp m = (
     let m = upd_ctx next (\<lambda>c. c\<lparr>state := RUNNING\<rparr>) m;
         m = (if do_ack_irq then emit Ack_irq m else m);
         m = emit (Set_tss next) m;
         m = m\<lparr>cur := next\<rparr>;
         r = regs (ctxs m ! next);
         m = m\<lparr>mem := write_frame fp r (mem m)\<rparr>
     in Iret (load_frame (word_at (mem m) fp) r) m)"

section \<open>Choosing the next context\<close>

text \<open>The loops \<open>for (i = \<dots>; i < n && !P; i++);\<close> over the table.\<close>

function scan :: "(exec_context \<Rightarrow> bool) \<Rightarrow> exec_context list \<Rightarrow> nat \<Rightarrow> nat \<Rightarrow> nat" where
  "scan P list i n = (if i < n \<and> \<not> P (list ! i) then scan P list (i + 1) n else i)"
  by pat_completeness auto
termination by (relation "measure (\<lambda>(_, _, i, n). n - i)") auto

declare scan.simps [simp del]

text \<open>\<open>None\<close>: \<open>do_cleanup\<close> was called.\<close>

definition pick_next_context :: "exec_context list \<Rightarrow> nat option" where
  "pick_next_context list = (
     let running = scan (\<lambda>c. state c = RUNNING) list 1 MAX_PROCESSES in
     if running \<ge> MAX_PROCESSES then
       let i = scan (\<lambda>c. state c = READY) list 1 MAX_PROCESSES in
       if i < MAX_PROCESSES then Some i
       else if scan (\<lambda>c. state c = WAITING) list 1 MAX_PROCESSES < MAX_PROCESSES then Some 0
       else None
     else
       let i = scan (\<lambda>c. state c = READY) list (running + 1) MAX_PROCESSES in
       if i < MAX_PROCESSES then Some i
       else let i = scan (\<lambda>c. state c = READY) list 1 running in
         if i < running then Some i else Some running)"

definition waiting_proc_exists :: "exec_context list \<Rightarrow> bool" where
  "waiting_proc_exists list \<longleftrightarrow> scan (\<lambda>c. state c = WAITING) list 1 MAX_PROCESSES < MAX_PROCESSES"

section \<open>Exit and signals\<close>

definition do_exit :: "services \<Rightarrow> u64 \<Rightarrow> machine \<Rightarrow> outcome" where
  "do_exit sv fp m = (case pick_next_context (ctxs m) of None \<Rightarrow> Shutdown m
   | Some next \<Rightarrow>
       let m = m\<lparr>stack_to_free := os_stack_pfn (get_current_ctx m)\<rparr>;
           m = upd_ctx (cur m) (\<lambda>c. c\<lparr>state := UNUSED\<rparr>) m in
       if pid (ctxs m ! next) \<noteq> pid (get_current_ctx m) then schedule_context next False fp m
       else if waiting_proc_exists (ctxs m)
       then schedule_context (get_ctx_by_pid sv (ctxs m) 0) False fp m
       else Shutdown m)"

text \<open>
  \<open>invoke_sync_signal\<close> on the values behind \<open>ustackp\<close> and \<open>urip\<close>: \<open>Inl\<close> is the call of \<open>do_exit\<close>.
  \<open>None\<close>: \<open>signo\<close> is not an index of the table of handlers.
\<close>

definition invoke_sync_signal ::
  "services \<Rightarrow> int \<Rightarrow> u64 \<Rightarrow> u64 \<Rightarrow> u64 \<Rightarrow> machine \<Rightarrow> (outcome + u64 \<times> u64 \<times> machine) option" where
  "invoke_sync_signal sv signo ustack urip fp m = (
     if signo < 0 \<or> signo \<ge> MAX_SIGNALS then None
     else let handler = sighandlers (get_current_ctx m) ! nat signo in
       if handler = 0 \<and> signo \<noteq> SIGALRM then Some (Inl (do_exit sv fp m))
       else Some (Inr (ustack - 8, handler, m\<lparr>mem := write64 (mem m) (ustack - 8) urip\<rparr>)))"

definition do_signal :: "int \<Rightarrow> u64 \<Rightarrow> machine \<Rightarrow> machine option" where
  "do_signal signo handler m = (if signo < 0 \<or> signo \<ge> MAX_SIGNALS then None
     else Some (upd_ctx (cur m)
       (\<lambda>c. c\<lparr>sighandlers := (sighandlers c)[nat signo := handler]\<rparr>) m))"

definition do_alarm :: "u32 \<Rightarrow> machine \<Rightarrow> machine" where
  "do_alarm ticks m = upd_ctx (cur m)
     (\<lambda>c. c\<lparr>ticks_to_alarm := ticks, alarm_config_time := ticks\<rparr>) m"

section \<open>The timer tick\<close>

definition sleep_account :: "exec_context \<Rightarrow> exec_context" where
  "sleep_account c = (if ticks_to_sleep c > 0 then
     let c = c\<lparr>ticks_to_sleep := ticks_to_sleep c - 1\<rparr> in
     if ticks_to_sleep c = 0 then c\<lparr>state := READY\<rparr> else c
   else c)"

definition alarm_signal :: "services \<Rightarrow> u64 \<Rightarrow> nat \<Rightarrow> machine \<Rightarrow> machine" where
  "alarm_signal sv fp i m = (let r = regs (ctxs m ! i) in
     case invoke_sync_signal sv SIGALRM (entry_rsp r) (entry_rip r) fp m of
       Some (Inr (rsp, rip, m)) \<Rightarrow> upd_ctx i (upd_regs (\<lambda>r. r\<lparr>entry_rsp := rsp, entry_rip := rip\<rparr>)) m
     | _ \<Rightarrow> m)"

text \<open>The body of the loop in \<open>do_sleep_and_alarm_account\<close>.\<close>

definition account_one :: "services \<Rightarrow> u64 \<Rightarrow> nat \<Rightarrow> machine \<Rightarrow> machine" where
  "account_one sv fp i m = (
     let m = upd_ctx i sleep_account m; c = ctxs m ! i in
     if ticks_to_alarm c > 0 then
       let c = c\<lparr>ticks_to_alarm := ticks_to_alarm c - 1\<rparr>;
           fires = (ticks_to_alarm c = 0);
           c = (if fires then c\<lparr>ticks_to_alarm := alarm_config_time c\<rparr> else c);
           m = upd_ctx i (\<lambda>_. c) m
       in if fires \<and> state c = RUNNING then alarm_signal sv fp i m else m
     else m)"

definition do_sleep_and_alarm_account :: "services \<Rightarrow> u64 \<Rightarrow> machine \<Rightarrow> machine" where
  "do_sleep_and_alarm_account sv fp m = foldl (\<lambda>m i. account_one sv fp i m) m [0..<MAX_PROCESSES]"

fun push_all :: "memory \<Rightarrow> u64 \<Rightarrow> u64 list \<Rightarrow> memory \<times> u64" where
  "push_all m sp [] = (m, sp)"
| "push_all m sp (v # vs) = push_all (write64 m (sp - 8) v) (sp - 8) vs"

text \<open>
  \<open>cpu\<close> holds the interrupted registers, \<open>rsp\<close> and \<open>rbp\<close> the kernel stack and frame pointer of the
  handler, \<open>fp\<close> the frame pointer of its call of \<open>schedule_context\<close>. The processor has put the
  interrupted frame at \<open>rbp\<close>.
\<close>

definition handle_timer_tick ::
  "services \<Rightarrow> user_regs \<Rightarrow> u64 \<Rightarrow> u64 \<Rightarrow> u64 \<Rightarrow> machine \<Rightarrow> outcome" where
  "handle_timer_tick sv cpu rsp rbp_bak fp m = (
     let (mem1, rsp_bak) = push_all (mem m) rsp
           [rax cpu, rbx cpu, rcx cpu, rdx cpu, rsi cpu, rdi cpu, r8 cpu, r9 cpu, r10 cpu, r11 cpu,
            r12 cpu, r13 cpu, r14 cpu, r15 cpu];
         m = m\<lparr>mem := mem1\<rparr>;
         proc_rip = word_at mem1 rbp_bak 1;
         proc_rsp = word_at mem1 rbp_bak 4;
         m = upd_ctx (cur m) (upd_regs (\<lambda>r. r\<lparr>rbp := word_at mem1 rbp_bak 0, entry_rsp := proc_rsp,
               entry_rip := proc_rip\<rparr>)) m;
         m = m\<lparr>numticks := numticks m + 1\<rparr>;
         m = (if stack_to_free m \<noteq> 0
              then (emit (Pfn_free (stack_to_free m)) m)\<lparr>stack_to_free := 0\<rparr> else m);
         m = do_sleep_and_alarm_account sv fp m
     in case pick_next_context (ctxs m) of None \<Rightarrow> Shutdown m
      | Some next \<Rightarrow>
          if pid (ctxs m ! next) = pid (get_current_ctx m) then
            let m = emit Ack_irq m; r = regs (get_current_ctx m);
                m = m\<lparr>mem := write64 (write64 (mem m) (rbp_bak + 8) (entry_rip r))
                       (rbp_bak + 32) (entry_rsp r)\<rparr>;
                g = word_at (mem m) rsp_bak
            in Iret ((load_frame (word_at (mem m) rbp_bak) (load_gprs g cpu))\<lparr>rax := g 13\<rparr>) m
          else schedule_context next True fp (save_current_context sv READY rsp_bak rbp_bak False m))"

section \<open>Sleep\<close>

text \<open>\<open>rs\<close> is the pointer \<open>os_rsp\<close> that the handler finds at \<open>(%rbp)\<close>.\<close>

definition set_word :: "memory \<Rightarrow> u64 \<Rightarrow> nat \<Rightarrow> u64 \<Rightarrow> memory" where
  "set_word m p i v = write64 m (p + of_nat (8 * i)) v"

definition rearrange :: "u64 \<Rightarrow> memory \<Rightarrow> memory" where
  "rearrange rs m = (let rbp_bak = word_at m rs 10;
     m = set_word m rs 10 (word_at m rs 11);
     m = set_word m rs 11 (word_at m rs 12);
     m = set_word m rs 12 (word_at m rs 13);
     m = set_word m rs 13 (word_at m rs 14);
     m = set_word m rs 14 (word_at m rs 15)
   in set_word m rs 15 rbp_bak)"

definition do_sleep :: "services \<Rightarrow> u32 \<Rightarrow> u64 \<Rightarrow> u64 \<Rightarrow> machine \<Rightarrow> outcome" where
  "do_sleep sv ticks rs fp m = (
     let m = upd_ctx (cur m) (\<lambda>c. c\<lparr>ticks_to_sleep := ticks\<rparr>) m;
         m = m\<lparr>mem := rearrange rs (mem m)\<rparr>;
         m = save_current_context sv WAITING (rs + 16) (rs + 120) True m
     in case pick_next_context (ctxs m) of None \<Rightarrow> Shutdown m
      | Some next \<Rightarrow> schedule_context next False fp m)"

section \<open>Clone\<close>

text \<open>The two loops of \<open>num_to_str\<close>; \<open>None\<close>: the \<open>int\<close> variable \<open>rev\<close> overflows.\<close>

function rev_loop :: "nat \<Rightarrow> nat \<Rightarrow> nat option" where
  "rev_loop num rv = (if num > 0 then
     let rv' = rv * 10 + num mod 10 in
     if rv' < 2 ^ 31 then rev_loop (num div 10) rv' else None
   else Some rv)"
  by pat_completeness auto
termination by (relation "measure fst") auto

function digit_loop :: "nat \<Rightarrow> byte list" where
  "digit_loop rv = (if rv > 0 then of_nat (48 + rv mod 10) # digit_loop (rv div 10) else [])"
  by pat_completeness auto
termination by (relation "measure id") auto

declare rev_loop.simps [simp del] digit_loop.simps [simp del]

definition num_to_str :: "int \<Rightarrow> byte list option" where
  "num_to_str num = map_option digit_loop (rev_loop (nat num) 0)"

text \<open>
  The name of the new context. \<open>junk\<close> is what the 64 bytes of the local array \<open>name\<close> hold before
  they are written, \<open>old\<close> the new context's old name. \<open>strcat\<close> looks for the end of the string in
  \<open>name\<close>, which was copied without its terminator. \<open>None\<close>: an access outside an array.
\<close>

definition clone_name :: "byte list \<Rightarrow> byte list \<Rightarrow> u32 \<Rightarrow> byte list \<Rightarrow> byte list option" where
  "clone_name parent old parent_pid junk = do {
     digits \<leftarrow> num_to_str (sint parent_pid);
     let len = length (cstr parent);
     let pid_len = length digits;
     let name = take len parent @ drop len junk;
     name \<leftarrow> (if len + pid_len + 1 < CNAME_MAX then
         (let k = length (cstr name) in
          if k + pid_len < CNAME_MAX then Some (take k name @ digits @ [0] @ drop (k + pid_len + 1) name)
          else None)
       else Some name);
     if len + pid_len + 1 < CNAME_MAX
     then Some ((take (len + pid_len + 1) name @ drop (len + pid_len + 1) old)[len + pid_len + 1 := 0])
     else None }"

definition do_clone :: "services \<Rightarrow> u64 \<Rightarrow> u64 \<Rightarrow> byte list \<Rightarrow> machine \<Rightarrow> machine option" where
  "do_clone sv th_func user_stack junk m = (
     let (new, list) = get_new_ctx sv (ctxs m);
         m = m\<lparr>ctxs := list\<rparr>;
         current = get_current_ctx m;
         pfn = os_pfn_alloc sv (log m);
         flags = read64 (mem m)
           (translate sv (push_bit 12 (ucast (os_stack_pfn current) + 1) - 8) - 16)
     in map_option (\<lambda>nm. upd_ctx new (\<lambda>c. c\<lparr>ctx_type := ctx_type current, used_mem := used_mem current,
            pgd := pgd current, os_rsp := os_rsp current, mms := mms current,
            sighandlers := sighandlers current, pending_signal_bitmap := 0, ticks_to_sleep := 0,
            alarm_config_time := 0, ticks_to_alarm := 0, os_stack_pfn := pfn, ctx_name := nm,
            regs := (regs current)\<lparr>entry_rip := th_func, entry_cs := 0x23, entry_rsp := user_stack,
              entry_ss := 0x2B, rbp := user_stack, entry_rflags := flags\<rparr>,
            state := READY\<rparr>) (emit (Pfn_alloc pfn) m))
          (clone_name (ctx_name current) (ctx_name (ctxs m ! new)) (pid current) junk))"

end
