(* ===== verification/Scheduling.thy ===== *)
theory Scheduling
  imports Sched
begin

text \<open>
  What the scheduler of \<open>Sched\<close> guarantees about process states: exactly the current context is
  running, in every state that handlers can reach (\<open>step\<close> is the transition relation); round
  robin reaches every ready process as long as nobody sleeps; a sleeping process wakes after its ticks.
\<close>

section \<open>Scans of the table\<close>

lemma scan_spec:
  "i \<le> n \<Longrightarrow> i \<le> scan P l i n \<and> scan P l i n \<le> n \<and> (\<forall>j. i \<le> j \<and> j < scan P l i n \<longrightarrow> \<not> P (l ! j))
     \<and> (scan P l i n < n \<longrightarrow> P (l ! scan P l i n))"
proof (induction P l i n rule: scan.induct)
  case (1 P l i n)
  show ?case
  proof (cases "i < n \<and> \<not> P (l ! i)")
    case True
    then have "scan P l i n = scan P l (i + 1) n" by (subst scan.simps) simp
    then show ?thesis using 1 True by (metis Suc_eq_plus1 Suc_leD Suc_leI le_neq_implies_less)
  next
    case False
    then have "scan P l i n = i" by (subst scan.simps) auto
    then show ?thesis using False 1 by auto
  qed
qed

lemma scan_found:
  assumes "i \<le> j" "j < n" "P (l ! j)"
  shows "i \<le> scan P l i n" "scan P l i n \<le> j" "P (l ! scan P l i n)"
  using scan_spec[of i n P l] assms by (meson le_less_trans not_le order_trans less_imp_le)+

lemma scan_none: "(\<And>j. i \<le> j \<Longrightarrow> j < n \<Longrightarrow> \<not> P (l ! j)) \<Longrightarrow> i \<le> n \<Longrightarrow> scan P l i n = n"
  using scan_spec[of i n P l] by (meson le_neq_implies_less)

section \<open>Round robin\<close>

text \<open>How far \<open>j\<close> is from \<open>c\<close> in the cyclic order of the slots 1 to 15.\<close>

definition dist :: "nat \<Rightarrow> nat \<Rightarrow> nat" where
  "dist c j = (if c \<le> j then j - c else j + 15 - c)"

definition only_running :: "exec_context list \<Rightarrow> nat \<Rightarrow> bool" where
  "only_running l c \<longleftrightarrow> length l = 16 \<and> c < 16 \<and> (\<forall>i<16. state (l ! i) = RUNNING \<longleftrightarrow> i = c)"

lemma running_scan:
  assumes "only_running l c"
  shows "scan (\<lambda>c. state c = RUNNING) l 1 16 = (if c = 0 then 16 else c)"
proof (cases "c = 0")
  case True
  then show ?thesis using assms by (auto simp: only_running_def intro!: scan_none)
next
  case False
  then have "1 \<le> c" "c < 16" "state (l ! c) = RUNNING" using assms by (auto simp: only_running_def)
  from scan_found[where P = "\<lambda>c. state c = RUNNING", OF this]
  have s: "scan (\<lambda>c. state c = RUNNING) l 1 16 \<le> c"
    "state (l ! scan (\<lambda>c. state c = RUNNING) l 1 16) = RUNNING" by auto
  then show ?thesis using assms False by (auto simp: only_running_def)
qed

lemma pick_running:
  assumes r: "only_running l c" and p: "pick_next_context l = Some n"
  shows "n < 16" "n \<noteq> c \<Longrightarrow> n = 0 \<or> state (l ! n) = READY" "n = 0 \<Longrightarrow> c = 0"
    and "1 \<le> j \<Longrightarrow> j < 16 \<Longrightarrow> state (l ! j) = READY \<Longrightarrow> dist n j < dist c j"
proof -
  let ?R = "\<lambda>c. state c = READY"
  note s = running_scan[OF r]
  define a where "a = scan ?R l (c + 1) 16"
  define b where "b = scan ?R l 1 c"
  define d where "d = scan ?R l 1 16"
  have c: "c < 16" using r by (simp add: only_running_def)
  have n: "n = (if c = 0 then (if d < 16 then d else 0) else if a < 16 then a else if b < c then b else c)"
    and c0: "c = 0 \<Longrightarrow> d < 16 \<or> scan (\<lambda>c. state c = WAITING) l 1 16 < 16"
    using p c unfolding pick_next_context_def MAX_PROCESSES_def Let_def s a_def b_def d_def
    by (auto split: if_splits)
  have A: "c + 1 \<le> a \<and> a \<le> 16 \<and> (\<forall>j. c + 1 \<le> j \<and> j < a \<longrightarrow> \<not> ?R (l ! j)) \<and> (a < 16 \<longrightarrow> ?R (l ! a))"
    using scan_spec[of "c + 1" 16 ?R l] c by (simp add: a_def)
  have B: "1 \<le> c \<Longrightarrow> 1 \<le> b \<and> b \<le> c \<and> (\<forall>j. 1 \<le> j \<and> j < b \<longrightarrow> \<not> ?R (l ! j)) \<and> (b < c \<longrightarrow> ?R (l ! b))"
    using scan_spec[of 1 c ?R l] by (simp add: b_def)
  have D: "1 \<le> d \<and> d \<le> 16 \<and> (\<forall>j. 1 \<le> j \<and> j < d \<longrightarrow> \<not> ?R (l ! j)) \<and> (d < 16 \<longrightarrow> ?R (l ! d))"
    using scan_spec[of 1 16 ?R l] by (simp add: d_def)
  show "n < 16" using n A B c by (auto split: if_splits)
  show "n = 0 \<or> ?R (l ! n)" if "n \<noteq> c" using n A B D that by (auto split: if_splits)
  show "c = 0" if "n = 0" using n A B that by (auto split: if_splits)
  show "dist n j < dist c j" if j: "1 \<le> j" "j < 16" "?R (l ! j)"
  proof -
    have jc: "j \<noteq> c" using r j by (auto simp: only_running_def)
    consider "c = 0" | "c \<noteq> 0" "c < j" | "c \<noteq> 0" "j < c" using jc by linarith
    then show ?thesis
    proof cases
      case 1
      then have "d \<le> j" using D j by (meson not_le)
      then show ?thesis using n 1 D j by (auto simp: dist_def)
    next
      case 2
      then have "a \<le> j" using A j(3) 2(2) by (metis Suc_eq_plus1 Suc_leI not_le)
      then show ?thesis using n 2 A j by (auto simp: dist_def)
    next
      case 3
      then have "b \<le> j" using B j by (meson less_one not_le)
      then show ?thesis using n 3 A B j c by (auto simp: dist_def)
    qed
  qed
qed

section \<open>Accounting\<close>

definition alarm_fires :: "exec_context \<Rightarrow> bool" where
  "alarm_fires c \<longleftrightarrow> ticks_to_alarm c = 1 \<and> state (sleep_account c) = RUNNING"

text \<open>What accounting does to one context, as far as scheduling is concerned.\<close>

definition accounted :: "exec_context \<Rightarrow> exec_context \<Rightarrow> bool" where
  "accounted c c' \<longleftrightarrow> state c' = state (sleep_account c) \<and> pid c' = pid c
     \<and> ticks_to_sleep c' = ticks_to_sleep (sleep_account c) \<and> sighandlers c' = sighandlers c
     \<and> (\<not> alarm_fires c \<longrightarrow> regs c' = regs c)"

lemma sleep_account_simps [simp]:
  "pid (sleep_account c) = pid c" "ticks_to_alarm (sleep_account c) = ticks_to_alarm c"
  "alarm_config_time (sleep_account c) = alarm_config_time c" "regs (sleep_account c) = regs c"
  "sighandlers (sleep_account c) = sighandlers c"
  by (simp_all add: sleep_account_def Let_def)

lemma upd_ctx_simps [simp]:
  "cur (upd_ctx i f m) = cur m" "mem (upd_ctx i f m) = mem m" "log (upd_ctx i f m) = log m"
  "numticks (upd_ctx i f m) = numticks m" "stack_to_free (upd_ctx i f m) = stack_to_free m"
  "length (ctxs (upd_ctx i f m)) = length (ctxs m)"
  "ctxs (m\<lparr>mem := u\<rparr>) = ctxs m" "cur (emit e m) = cur m" "ctxs (emit e m) = ctxs m"
  "mem (emit e m) = mem m" "stack_to_free (emit e m) = stack_to_free m"
  by (simp_all add: upd_ctx_def emit_def)

lemma ctxs_upd_ctx:
  "j < length (ctxs m) \<Longrightarrow> ctxs (upd_ctx i f m) ! j = (if j = i then f (ctxs m ! i) else ctxs m ! j)"
  by (simp add: upd_ctx_def nth_list_update)

lemma alarm_signal_eq: "alarm_signal sv fp i m =
    upd_ctx i (upd_regs (\<lambda>r. r\<lparr>entry_rsp := entry_rsp (regs (ctxs m ! i)) - 8,
        entry_rip := sighandlers (get_current_ctx m) ! 2\<rparr>))
      (m\<lparr>mem := write64 (mem m) (entry_rsp (regs (ctxs m ! i)) - 8) (entry_rip (regs (ctxs m ! i)))\<rparr>)"
  by (simp add: alarm_signal_def invoke_sync_signal_def signal_numbers Let_def)

lemma account_one_frame:
  "cur (account_one sv fp i m) = cur m" "length (ctxs (account_one sv fp i m)) = length (ctxs m)"
  "j < length (ctxs m) \<Longrightarrow> j \<noteq> i \<Longrightarrow> ctxs (account_one sv fp i m) ! j = ctxs m ! j"
  by (auto simp: account_one_def Let_def alarm_signal_eq ctxs_upd_ctx)

lemma ticks_minus_one: "(x :: u32) > 0 \<Longrightarrow> x - 1 = 0 \<longleftrightarrow> x = 1"
  by (metis add.commute add_0 diff_add_cancel diff_self)

lemma account_one_self:
  assumes "i < length (ctxs m)"
  shows "accounted (ctxs m ! i) (ctxs (account_one sv fp i m) ! i)"
    and "\<not> alarm_fires (ctxs m ! i) \<Longrightarrow> mem (account_one sv fp i m) = mem m"
  using assms
  by (auto simp: accounted_def alarm_fires_def account_one_def Let_def alarm_signal_eq ctxs_upd_ctx
      upd_regs_def ticks_minus_one)

lemma account_fold:
  assumes "length (ctxs m) = 16" "k \<le> 16" "m' = foldl (\<lambda>m i. account_one sv fp i m) m [0..<k]"
  shows "cur m' = cur m \<and> length (ctxs m') = 16
    \<and> (\<forall>j<k. accounted (ctxs m ! j) (ctxs m' ! j))
    \<and> (\<forall>j<16. k \<le> j \<longrightarrow> ctxs m' ! j = ctxs m ! j)
    \<and> ((\<forall>j<k. \<not> alarm_fires (ctxs m ! j)) \<longrightarrow> mem m' = mem m)"
  using assms(2,3)
proof (induction k arbitrary: m')
  case 0 then show ?case using assms(1) by simp
next
  case (Suc k)
  define m1 where "m1 = foldl (\<lambda>m i. account_one sv fp i m) m [0..<k]"
  have IH: "cur m1 = cur m" "length (ctxs m1) = 16" "\<And>j. j < k \<Longrightarrow> accounted (ctxs m ! j) (ctxs m1 ! j)"
    "\<And>j. j < 16 \<Longrightarrow> k \<le> j \<Longrightarrow> ctxs m1 ! j = ctxs m ! j"
    "(\<And>j. j < k \<Longrightarrow> \<not> alarm_fires (ctxs m ! j)) \<Longrightarrow> mem m1 = mem m"
    using Suc.IH[OF _ m1_def] Suc.prems(1) by auto
  have m': "m' = account_one sv fp k m1" using Suc.prems(2) by (simp add: m1_def)
  have k: "k < length (ctxs m1)" "ctxs m1 ! k = ctxs m ! k" using IH(2,4) Suc.prems(1) by auto
  note s = account_one_self[OF k(1), where sv = sv and fp = fp, unfolded k(2)]
    and f = account_one_frame[where sv = sv and fp = fp and i = k and m = m1]
  have "accounted (ctxs m ! j) (ctxs m' ! j)" if "j < Suc k" for j
    using that s(1) f(3)[of j] IH(2,3) Suc.prems(1) unfolding m' by (cases "j = k") auto
  moreover have "ctxs m' ! j = ctxs m ! j" if "j < 16" "Suc k \<le> j" for j
    using that f(3)[of j] IH(2,4) unfolding m' by auto
  moreover have "mem m' = mem m" if "\<forall>j<Suc k. \<not> alarm_fires (ctxs m ! j)"
    using that s(2) IH(5) unfolding m' by simp
  ultimately show ?case using f(1,2) IH(1,2) unfolding m' by auto
qed

lemma account_all:
  assumes "length (ctxs m) = 16" "m' = do_sleep_and_alarm_account sv fp m"
  shows "cur m' = cur m" "length (ctxs m') = 16"
    and "j < 16 \<Longrightarrow> accounted (ctxs m ! j) (ctxs m' ! j)"
    and "(\<And>j. j < 16 \<Longrightarrow> \<not> alarm_fires (ctxs m ! j)) \<Longrightarrow> mem m' = mem m"
  using account_fold[OF assms(1) le_refl, of m' sv fp] assms(2)
  by (auto simp: do_sleep_and_alarm_account_def MAX_PROCESSES_def)

section \<open>The invariant\<close>

text \<open>
  The pid of a context is its index in the table. Slots that are not in use have no pid yet:
  \<open>get_new_ctx\<close> sets it. The swapper in slot 0 always exists.
\<close>

definition in_use :: "exec_context list \<Rightarrow> nat \<Rightarrow> bool" where
  "in_use l i \<longleftrightarrow> i = 0 \<or> state (l ! i) \<noteq> UNUSED"

definition pids_ok :: "exec_context list \<Rightarrow> bool" where
  "pids_ok l \<longleftrightarrow> (\<forall>i<16. in_use l i \<longrightarrow> pid (l ! i) = of_nat i)"

definition sched_inv :: "machine \<Rightarrow> bool" where
  "sched_inv m \<longleftrightarrow> only_running (ctxs m) (cur m) \<and> pids_ok (ctxs m)
     \<and> (\<forall>i<16. ticks_to_sleep (ctxs m ! i) > 0 \<longrightarrow> state (ctxs m ! i) = WAITING)
     \<and> ticks_to_sleep (ctxs m ! 0) = 0"

lemma sched_invD:
  assumes "sched_inv m"
  shows "length (ctxs m) = 16" "cur m < 16" "only_running (ctxs m) (cur m)"
    and "i < 16 \<Longrightarrow> state (ctxs m ! i) = RUNNING \<longleftrightarrow> i = cur m"
    and "i < 16 \<Longrightarrow> in_use (ctxs m) i \<Longrightarrow> pid (ctxs m ! i) = of_nat i"
    and "i < 16 \<Longrightarrow> state (ctxs m ! i) \<noteq> WAITING \<Longrightarrow> ticks_to_sleep (ctxs m ! i) = 0"
    and "ticks_to_sleep (ctxs m ! 0) = 0"
    and "i < 16 \<Longrightarrow> ticks_to_sleep (ctxs m ! i) > 0 \<Longrightarrow> state (ctxs m ! i) = WAITING"
proof -
  show "state (ctxs m ! i) \<noteq> WAITING \<Longrightarrow> ticks_to_sleep (ctxs m ! i) = 0" if "i < 16"
    using assms that unfolding sched_inv_def by (metis word_gt_0)
qed (use assms in \<open>auto simp: sched_inv_def only_running_def pids_ok_def\<close>)

lemma cur_in_use: "sched_inv m \<Longrightarrow> in_use (ctxs m) (cur m)"
  using sched_invD(2)[of m] sched_invD(4)[of m "cur m"] by (simp add: in_use_def)

text \<open>The pids stay right when contexts keep theirs and no context comes into use.\<close>

lemma pids_ok_keep:
  assumes "pids_ok l" "\<And>i. i < 16 \<Longrightarrow> in_use l' i \<Longrightarrow> in_use l i \<and> pid (l' ! i) = pid (l ! i)"
  shows "pids_ok l'"
  using assms unfolding pids_ok_def by metis

lemma sched_inv_pids: "sched_inv m \<Longrightarrow> pids_ok (ctxs m)"
  by (simp add: sched_inv_def)

lemma sleep_account_wake:
  "sched_inv m \<Longrightarrow> i < 16 \<Longrightarrow> state (sleep_account (ctxs m ! i)) =
     (if ticks_to_sleep (ctxs m ! i) = 1 then READY else state (ctxs m ! i))"
  by (auto simp: sleep_account_def Let_def ticks_minus_one)

text \<open>Accounting keeps the invariant: a running process does not sleep.\<close>

lemma account_inv:
  assumes inv: "sched_inv m" and m': "m' = do_sleep_and_alarm_account sv fp m"
  shows "sched_inv m'" "cur m' = cur m"
proof -
  note a = account_all[OF sched_invD(1)[OF inv] m']
  show "cur m' = cur m" by (rule a(1))
  have s: "state (ctxs m' ! i) = (if ticks_to_sleep (ctxs m ! i) = 1 then READY else state (ctxs m ! i))"
    and p: "pid (ctxs m' ! i) = pid (ctxs m ! i)"
    and t: "ticks_to_sleep (ctxs m' ! i) = ticks_to_sleep (sleep_account (ctxs m ! i))" if "i < 16" for i
    using a(3)[OF that] sleep_account_wake[OF inv that] by (auto simp: accounted_def)
  have "state (ctxs m' ! i) = RUNNING \<longleftrightarrow> i = cur m" if "i < 16" for i
    using s[OF that] sched_invD(4,6)[OF inv that] by auto
  moreover have "state (ctxs m' ! i) = WAITING" if "i < 16" "ticks_to_sleep (ctxs m' ! i) > 0" for i
    using s[OF that(1)] t[OF that(1)] that sched_invD(6)[OF inv that(1)]
    by (cases "state (ctxs m ! i) = WAITING")
      (auto simp: sleep_account_def Let_def ticks_minus_one split: if_splits)
  moreover have "ticks_to_sleep (ctxs m' ! 0) = 0"
    using t[of 0] sched_invD(7)[OF inv] by (simp add: sleep_account_def)
  moreover have "pids_ok (ctxs m')"
    by (rule pids_ok_keep[OF sched_inv_pids[OF inv]])
      (use p s sched_invD(6)[OF inv] in \<open>fastforce simp: in_use_def split: if_splits\<close>)
  ultimately show "sched_inv m'"
    using a(1,2) sched_invD(1,2)[OF inv] by (simp add: sched_inv_def only_running_def)
qed

section \<open>The handlers\<close>

text \<open>What the scheduler expects of the prebuilt functions on the table of contexts.\<close>

definition services_ok :: "services \<Rightarrow> bool" where
  "services_ok sv \<longleftrightarrow> (\<forall>l. length l = 16 \<and> pids_ok l \<longrightarrow>
     get_ctx_by_pid sv l 0 = 0
     \<and> ((\<exists>i. 1 \<le> i \<and> i < 16 \<and> state (l ! i) = UNUSED) \<longrightarrow>
          (case get_new_ctx sv l of (i, l') \<Rightarrow> 1 \<le> i \<and> i < 16 \<and> state (l ! i) = UNUSED
             \<and> length l' = 16 \<and> (\<forall>j<16. j \<noteq> i \<longrightarrow> l' ! j = l ! j) \<and> pid (l' ! i) = of_nat i)))"

lemma pid_eq_iff: "i < 16 \<Longrightarrow> j < 16 \<Longrightarrow> (of_nat i :: u32) = of_nat j \<longleftrightarrow> i = j"
proof -
  assume "i < 16" "j < 16"
  then have "unat (of_nat i :: u32) = i" "unat (of_nat j :: u32) = j" by simp_all
  then show ?thesis by metis
qed

text \<open>The comparison of pids in the handlers tells whether the choice is the current context.\<close>

lemma pick_pid:
  assumes inv: "sched_inv m" and n: "pick_next_context (ctxs m) = Some n"
  shows "pid (ctxs m ! n) = pid (get_current_ctx m) \<longleftrightarrow> n = cur m"
proof (cases "n = cur m")
  case False
  note p = pick_running[OF sched_invD(3)[OF inv] n]
  have "in_use (ctxs m) n" using p(2)[OF False] by (auto simp: in_use_def)
  then show ?thesis
    using sched_invD(5)[OF inv] cur_in_use[OF inv] pid_eq_iff p(1) sched_invD(2)[OF inv] by (simp add: get_current_ctx_def)
qed (simp add: get_current_ctx_def)

lemma schedule_context_view:
  assumes "schedule_context next ack fp m = r"
  shows "\<exists>cpu m'. r = Iret cpu m' \<and> cur m' = next \<and> stack_to_free m' = stack_to_free m
    \<and> ctxs m' = (ctxs m)[next := (ctxs m ! next)\<lparr>state := RUNNING\<rparr>]"
  using assms by (auto simp: schedule_context_def Let_def upd_ctx_def emit_def)

text \<open>The state before the choice, with the current context in state \<open>st\<close>, and the choice made.\<close>

lemma switch_inv:
  assumes inv: "sched_inv m" and len: "length l = 16"
    and same: "\<And>i. i < 16 \<Longrightarrow> i \<noteq> cur m \<Longrightarrow> l ! i = ctxs m ! i"
    and self: "pid (l ! cur m) = pid (ctxs m ! cur m)" "state (l ! cur m) \<noteq> RUNNING"
      "ticks_to_sleep (l ! cur m) > 0 \<Longrightarrow> state (l ! cur m) = WAITING \<and> cur m \<noteq> 0"
    and next': "n < 16" "n \<noteq> cur m" "n = 0 \<or> state (ctxs m ! n) = READY"
    and m': "ctxs m' = l[n := (l ! n)\<lparr>state := RUNNING\<rparr>]" "cur m' = n"
  shows "sched_inv m'"
proof -
  have c: "cur m < 16" using sched_invD(2)[OF inv] .
  have x: "ctxs m' ! i = (if i = n then (ctxs m ! n)\<lparr>state := RUNNING\<rparr> else if i = cur m then l ! cur m
      else ctxs m ! i)" if "i < 16" for i
    using that len same next'(1,2) m'(1) by (simp add: nth_list_update)
  have n0: "ticks_to_sleep (ctxs m ! n) = 0"
    using next' sched_invD(6,7)[OF inv] by (metis process_state.distinct(21))
  have run: "state (ctxs m' ! i) = RUNNING \<longleftrightarrow> i = n" if "i < 16" for i
    using x[OF that] sched_invD(4)[OF inv that] self(2) by auto
  have pids: "pids_ok (ctxs m')"
  proof (rule pids_ok_keep[OF sched_inv_pids[OF inv]])
    fix i :: nat assume i: "i < 16" "in_use (ctxs m') i"
    then have "in_use (ctxs m) i"
      using x[of i] next'(1,3) cur_in_use[OF inv] by (auto simp: in_use_def split: if_splits)
    then show "in_use (ctxs m) i \<and> pid (ctxs m' ! i) = pid (ctxs m ! i)"
      using x[of i] i(1) self(1) by simp
  qed
  have wait: "state (ctxs m' ! i) = WAITING" if "i < 16" "ticks_to_sleep (ctxs m' ! i) > 0" for i
    using x[OF that(1)] that n0 self(3) sched_invD(8)[OF inv that(1)] by (auto split: if_splits)
  have "ticks_to_sleep (l ! cur m) = 0" if "cur m = 0" using self(3) that by (metis word_gt_0)
  then have "ticks_to_sleep (ctxs m' ! 0) = 0" using x[of 0] n0 sched_invD(7)[OF inv] by auto
  then show ?thesis
    using run pids wait len next'(1) m' by (simp add: sched_inv_def only_running_def)
qed

lemma save_current_view:
  "cur (save_current_context sv st a b sk m) = cur m"
  "stack_to_free (save_current_context sv st a b sk m) = stack_to_free m"
  "length (ctxs (save_current_context sv st a b sk m)) = length (ctxs m)"
  "i < length (ctxs m) \<Longrightarrow> i \<noteq> cur m \<Longrightarrow> ctxs (save_current_context sv st a b sk m) ! i = ctxs m ! i"
  "cur m < length (ctxs m) \<Longrightarrow> (let c = ctxs (save_current_context sv st a b sk m) ! cur m in
     state c = st \<and> pid c = pid (ctxs m ! cur m) \<and> ticks_to_sleep c = ticks_to_sleep (ctxs m ! cur m)
     \<and> sighandlers c = sighandlers (ctxs m ! cur m))"
  by (simp_all add: save_current_context_def Let_def ctxs_upd_ctx upd_regs_def)

text \<open>The tick, up to the choice of the next context.\<close>

definition before_account :: "user_regs \<Rightarrow> u64 \<Rightarrow> u64 \<Rightarrow> machine \<Rightarrow> machine" where
  "before_account cpu rsp rbp_bak m = (
     let (mem1, rsp_bak) = push_all (mem m) rsp
           [rax cpu, rbx cpu, rcx cpu, rdx cpu, rsi cpu, rdi cpu, r8 cpu, r9 cpu, r10 cpu, r11 cpu,
            r12 cpu, r13 cpu, r14 cpu, r15 cpu];
         m = m\<lparr>mem := mem1\<rparr>;
         m = upd_ctx (cur m) (upd_regs (\<lambda>r. r\<lparr>rbp := word_at mem1 rbp_bak 0,
               entry_rsp := word_at mem1 rbp_bak 4, entry_rip := word_at mem1 rbp_bak 1\<rparr>)) m;
         m = m\<lparr>numticks := numticks m + 1\<rparr>
     in if stack_to_free m \<noteq> 0
        then (emit (Pfn_free (stack_to_free m)) m)\<lparr>stack_to_free := 0\<rparr> else m)"

lemma before_account_view:
  assumes "cur m < length (ctxs m)"
  shows "cur (before_account cpu rsp rb m) = cur m" "length (ctxs (before_account cpu rsp rb m)) = length (ctxs m)"
    and "i < length (ctxs m) \<Longrightarrow> i \<noteq> cur m \<Longrightarrow> ctxs (before_account cpu rsp rb m) ! i = ctxs m ! i"
    and "ctxs (before_account cpu rsp rb m) ! cur m
      = upd_regs (\<lambda>_. regs (ctxs (before_account cpu rsp rb m) ! cur m)) (ctxs m ! cur m)"
    and "stack_to_free (before_account cpu rsp rb m) = 0"
  using assms
  by (simp_all add: before_account_def Let_def split_beta ctxs_upd_ctx upd_regs_def)

lemma tick_unfold: "handle_timer_tick sv cpu rsp rbp_bak fp m = (
     let m1 = before_account cpu rsp rbp_bak m;
         rsp_bak = rsp - 112;
         m = do_sleep_and_alarm_account sv fp m1
     in case pick_next_context (ctxs m) of None \<Rightarrow> Shutdown m
      | Some next \<Rightarrow>
          if pid (ctxs m ! next) = pid (get_current_ctx m) then
            let m = emit Ack_irq m; r = regs (get_current_ctx m);
                m = m\<lparr>mem := write64 (write64 (mem m) (rbp_bak + 8) (entry_rip r))
                       (rbp_bak + 32) (entry_rsp r)\<rparr>;
                g = word_at (mem m) rsp_bak
            in Iret ((load_frame (word_at (mem m) rbp_bak) (load_gprs g cpu))\<lparr>rax := g 13\<rparr>) m
          else schedule_context next True fp (save_current_context sv READY rsp_bak rbp_bak False m))"
  unfolding handle_timer_tick_def before_account_def by (simp add: Let_def)

lemma before_account_inv:
  assumes inv: "sched_inv m" shows "sched_inv (before_account cpu rsp rb m)"
proof -
  have c: "cur m < length (ctxs m)" using sched_invD(1,2)[OF inv] by simp
  note v = before_account_view[OF c, where cpu = cpu and rsp = rsp and rb = rb]
  define x where "x = ctxs (before_account cpu rsp rb m)"
  have e: "\<exists>r. x ! i = upd_regs (\<lambda>_. r) (ctxs m ! i)" if "i < 16" for i
    using v(3)[of i] v(4) that sched_invD(1)[OF inv] unfolding x_def[symmetric]
    by (cases "i = cur m") (auto simp: upd_regs_def intro!: exI[of _ "regs (x ! i)"])
  have "state (x ! i) = state (ctxs m ! i)" "pid (x ! i) = pid (ctxs m ! i)"
    "ticks_to_sleep (x ! i) = ticks_to_sleep (ctxs m ! i)" if "i < 16" for i
    using e[OF that] by (auto simp: upd_regs_def)
  then show ?thesis
    using inv v(1,2) unfolding sched_inv_def only_running_def pids_ok_def in_use_def x_def by simp
qed

lemma sleep_account_regs:
  "state (sleep_account (upd_regs f c)) = state (sleep_account c)"
  "ticks_to_sleep (sleep_account (upd_regs f c)) = ticks_to_sleep (sleep_account c)"
  by (simp_all add: sleep_account_def upd_regs_def Let_def)

text \<open>The machine when the tick has done its accounting.\<close>

definition at_pick :: "services \<Rightarrow> user_regs \<Rightarrow> u64 \<Rightarrow> u64 \<Rightarrow> u64 \<Rightarrow> machine \<Rightarrow> machine" where
  "at_pick sv cpu rsp rb fp m = do_sleep_and_alarm_account sv fp (before_account cpu rsp rb m)"

lemma at_pick_view:
  assumes inv: "sched_inv m"
  shows "sched_inv (at_pick sv cpu rsp rb fp m)" "cur (at_pick sv cpu rsp rb fp m) = cur m"
    and "i < 16 \<Longrightarrow> state (ctxs (at_pick sv cpu rsp rb fp m) ! i) = state (sleep_account (ctxs m ! i))"
    and "i < 16 \<Longrightarrow> ticks_to_sleep (ctxs (at_pick sv cpu rsp rb fp m) ! i)
      = ticks_to_sleep (sleep_account (ctxs m ! i))"
proof -
  define b where "b = before_account cpu rsp rb m"
  have c: "cur m < length (ctxs m)" using sched_invD(1,2)[OF inv] by simp
  note v = before_account_view[OF c, where cpu = cpu and rsp = rsp and rb = rb, folded b_def]
  have b: "sched_inv b" unfolding b_def by (rule before_account_inv[OF inv])
  have a: "at_pick sv cpu rsp rb fp m = do_sleep_and_alarm_account sv fp b" by (simp add: at_pick_def b_def)
  show "sched_inv (at_pick sv cpu rsp rb fp m)" "cur (at_pick sv cpu rsp rb fp m) = cur m"
    using account_inv[OF b a] v(1) by simp_all
  assume i: "i < 16"
  have "\<exists>f. ctxs b ! i = upd_regs f (ctxs m ! i)"
  proof (cases "i = cur m")
    case True then show ?thesis using v(4) by blast
  next
    case False
    then have "ctxs b ! i = upd_regs id (ctxs m ! i)"
      using v(3)[of i] i sched_invD(1)[OF inv] by (simp add: upd_regs_def)
    then show ?thesis by blast
  qed
  then show "state (ctxs (at_pick sv cpu rsp rb fp m) ! i) = state (sleep_account (ctxs m ! i))"
    "ticks_to_sleep (ctxs (at_pick sv cpu rsp rb fp m) ! i) = ticks_to_sleep (sleep_account (ctxs m ! i))"
    using account_all(3)[OF sched_invD(1)[OF b] a i] by (auto simp: accounted_def sleep_account_regs)
qed

lemma tick_view:
  assumes inv: "sched_inv m" and run: "handle_timer_tick sv cpu rsp rb fp m = Iret cpu' m'"
  shows "pick_next_context (ctxs (at_pick sv cpu rsp rb fp m)) = Some (cur m')" "sched_inv m'"
    and "i < 16 \<Longrightarrow> i \<noteq> cur m' \<Longrightarrow> i \<noteq> cur m \<Longrightarrow>
      state (ctxs m' ! i) = state (sleep_account (ctxs m ! i))"
    and "cur m' \<noteq> cur m \<Longrightarrow> state (ctxs m' ! cur m) = READY"
    and "i < 16 \<Longrightarrow> ticks_to_sleep (ctxs m' ! i) = ticks_to_sleep (sleep_account (ctxs m ! i))"
proof -
  define a where "a = at_pick sv cpu rsp rb fp m"
  note v = at_pick_view[OF inv, where sv = sv and cpu = cpu and rsp = rsp and rb = rb and fp = fp, folded a_def]
  have c: "cur m < 16" "length (ctxs a) = 16" using sched_invD(1,2)[OF v(1)] v(2) by simp_all
  from run obtain n where n: "pick_next_context (ctxs a) = Some n"
    by (cases "pick_next_context (ctxs a)") (simp_all add: tick_unfold a_def at_pick_def Let_def)
  have n16: "n < 16" using pick_running(1)[OF sched_invD(3)[OF v(1)] n] .
  have pid: "pid (ctxs a ! n) = pid (get_current_ctx a) \<longleftrightarrow> n = cur m"
    using pick_pid[OF v(1) n] by (simp add: v(2))
  have main: "pick_next_context (ctxs a) = Some (cur m') \<and> sched_inv m' \<and>
      (i < 16 \<longrightarrow> i \<noteq> cur m' \<longrightarrow> i \<noteq> cur m \<longrightarrow> state (ctxs m' ! i) = state (sleep_account (ctxs m ! i))) \<and>
      (cur m' \<noteq> cur m \<longrightarrow> state (ctxs m' ! cur m) = READY) \<and>
      (i < 16 \<longrightarrow> ticks_to_sleep (ctxs m' ! i) = ticks_to_sleep (sleep_account (ctxs m ! i)))" for i
  proof (cases "n = cur m")
    case True
    have "\<exists>u. m' = (emit Ack_irq a)\<lparr>mem := u\<rparr>"
      using run n pid True by (auto simp: tick_unfold a_def[symmetric] at_pick_def[symmetric] Let_def)
    then have m': "ctxs m' = ctxs a" "cur m' = cur m" using v(2) by auto
    then have "sched_inv m'" using v(1,2) by (simp add: sched_inv_def)
    then show ?thesis
      using v m' n True by simp
  next
    case False
    define s where "s = save_current_context sv READY (rsp - 112) rb False a"
    have "schedule_context n True fp s = Iret cpu' m'"
      using run n pid False by (simp add: tick_unfold a_def[symmetric] at_pick_def[symmetric] Let_def s_def)
    then have m': "cur m' = n" "ctxs m' = (ctxs s)[n := (ctxs s ! n)\<lparr>state := RUNNING\<rparr>]"
      using schedule_context_view by blast+
    have s: "cur s = cur m" "length (ctxs s) = 16" "\<And>j. j < 16 \<Longrightarrow> j \<noteq> cur m \<Longrightarrow> ctxs s ! j = ctxs a ! j"
      "state (ctxs s ! cur m) = READY" "pid (ctxs s ! cur m) = pid (ctxs a ! cur m)"
      "ticks_to_sleep (ctxs s ! cur m) = ticks_to_sleep (ctxs a ! cur m)"
      using save_current_view[where sv = sv and st = READY and a = "rsp - 112" and b = rb and sk = False and m = a]
        c v(2) by (simp_all add: s_def Let_def)
    have z: "ticks_to_sleep (ctxs a ! cur m) = 0"
      using sched_invD(6)[OF v(1) c(1)] sched_invD(4)[OF v(1) c(1)] v(2) by simp
    have inv': "sched_inv m'"
      by (rule switch_inv[OF v(1) s(2), of n])
        (use s v(2) z n16 False m' pick_running(2)[OF sched_invD(3)[OF v(1)] n] in auto)
    have "ticks_to_sleep (ctxs m' ! j) = ticks_to_sleep (ctxs a ! j)" if "j < 16" for j
      using that m'(2) s n16 by (cases "j = n"; cases "j = cur m") (simp_all add: nth_list_update)
    moreover have "state (ctxs m' ! j) = state (ctxs a ! j)" if "j < 16" "j \<noteq> n" "j \<noteq> cur m" for j
      using that m'(2) s by simp
    moreover have "state (ctxs m' ! cur m) = READY" using m'(2) s(4) False by simp
    ultimately show ?thesis
      using v(3,4) m'(1) n inv' by simp
  qed
  then show "pick_next_context (ctxs (at_pick sv cpu rsp rb fp m)) = Some (cur m')" "sched_inv m'"
    "i < 16 \<Longrightarrow> i \<noteq> cur m' \<Longrightarrow> i \<noteq> cur m \<Longrightarrow> state (ctxs m' ! i) = state (sleep_account (ctxs m ! i))"
    "cur m' \<noteq> cur m \<Longrightarrow> state (ctxs m' ! cur m) = READY"
    "i < 16 \<Longrightarrow> ticks_to_sleep (ctxs m' ! i) = ticks_to_sleep (sleep_account (ctxs m ! i))"
    unfolding a_def by blast+
qed

lemma sched_inv_mem [simp]: "sched_inv (m\<lparr>mem := u\<rparr>) = sched_inv m"
  by (simp add: sched_inv_def)

text \<open>While a user process is alive, the tick and \<open>sleep\<close> go on with some process.\<close>

definition alive :: "process_state \<Rightarrow> bool" where
  "alive st \<longleftrightarrow> st = READY \<or> st = RUNNING \<or> st = WAITING"

lemma pick_alive:
  assumes "1 \<le> j" "j < 16" "alive (state (l ! j))"
  shows "pick_next_context l \<noteq> None"
  using assms scan_found[of 1 j 16 "\<lambda>c. state c = RUNNING" l]
    scan_found[of 1 j 16 "\<lambda>c. state c = READY" l] scan_found[of 1 j 16 "\<lambda>c. state c = WAITING" l]
  by (auto simp: pick_next_context_def MAX_PROCESSES_def Let_def alive_def)

lemma tick_returns:
  assumes inv: "sched_inv m" and j: "1 \<le> j" "j < 16" "alive (state (ctxs m ! j))"
  shows "\<exists>cpu' m'. handle_timer_tick sv cpu rsp rb fp m = Iret cpu' m'"
proof -
  have "alive (state (ctxs (at_pick sv cpu rsp rb fp m) ! j))"
    unfolding at_pick_view(3)[OF inv j(2)] sleep_account_wake[OF inv j(2)] using j(3) by (simp add: alive_def)
  then have "pick_next_context (ctxs (at_pick sv cpu rsp rb fp m)) \<noteq> None"
    using pick_alive j(1,2) by blast
  then show ?thesis
    using schedule_context_view[OF refl]
    by (auto simp: tick_unfold at_pick_def[symmetric] Let_def) blast+
qed

lemma do_exit_inv:
  assumes inv: "sched_inv m" and sv: "services_ok sv" and c: "cur m \<noteq> 0"
    and run: "do_exit sv fp m = Iret cpu m'"
  shows "sched_inv m'"
proof -
  define l where "l = (ctxs m)[cur m := (ctxs m ! cur m)\<lparr>state := UNUSED\<rparr>]"
  note d = sched_invD(1,2,3)[OF inv]
  from run obtain n where n: "pick_next_context (ctxs m) = Some n"
    by (cases "pick_next_context (ctxs m)") (simp_all add: do_exit_def)
  note p = pick_running[OF d(3) n]
  have l: "length l = 16" "\<And>i. i < 16 \<Longrightarrow> i \<noteq> cur m \<Longrightarrow> l ! i = ctxs m ! i"
    "pid (l ! i) = pid (ctxs m ! i)" "state (l ! cur m) = UNUSED"
    "ticks_to_sleep (l ! cur m) = ticks_to_sleep (ctxs m ! cur m)" for i
    using d by (auto simp: l_def nth_list_update)
  have z: "ticks_to_sleep (ctxs m ! cur m) = 0"
    using sched_invD(4,6)[OF inv d(2)] by simp
  have g: "get_ctx_by_pid sv l 0 = 0"
  proof -
    have "pids_ok l"
      by (rule pids_ok_keep[OF sched_inv_pids[OF inv]])
        (use l cur_in_use[OF inv] in \<open>metis in_use_def\<close>)
    then show ?thesis using sv l(1) unfolding services_ok_def by blast
  qed
  obtain k where k: "k < 16" "k \<noteq> cur m" "k = 0 \<or> state (ctxs m ! k) = READY"
    and m': "cur m' = k" "ctxs m' = l[k := (l ! k)\<lparr>state := RUNNING\<rparr>]"
  proof (cases "pid (l ! n) \<noteq> pid (l ! cur m)")
    case True
    then have "schedule_context n False fp (m\<lparr>stack_to_free := os_stack_pfn (get_current_ctx m), ctxs := l\<rparr>) = Iret cpu m'"
      using run n by (simp add: do_exit_def Let_def upd_ctx_def get_current_ctx_def l_def)
    from schedule_context_view[OF this]
    have "cur m' = n" "ctxs m' = l[n := (l ! n)\<lparr>state := RUNNING\<rparr>]" by auto
    moreover have "n \<noteq> cur m" using True by auto
    ultimately show ?thesis using that[of n] p(1,2) by blast
  next
    case False
    then have "schedule_context 0 False fp (m\<lparr>stack_to_free := os_stack_pfn (get_current_ctx m), ctxs := l\<rparr>) = Iret cpu m'"
      using run n g by (simp add: do_exit_def Let_def upd_ctx_def get_current_ctx_def l_def split: if_splits)
    from schedule_context_view[OF this] show ?thesis
      using that[of 0] c by auto
  qed
  show ?thesis
    by (rule switch_inv[OF inv l(1) l(2) l(3) _ _ k m'(2,1)]) (use l(4,5) z in auto)
qed

lemma pick_not_running:
  assumes none: "\<And>i. 1 \<le> i \<Longrightarrow> i < 16 \<Longrightarrow> state (l ! i) \<noteq> RUNNING" and p: "pick_next_context l = Some n"
  shows "n < 16" "n = 0 \<or> state (l ! n) = READY"
proof -
  let ?R = "\<lambda>c. state c = READY"
  have "scan (\<lambda>c. state c = RUNNING) l 1 16 = 16" by (rule scan_none) (use none in auto)
  then have "n = (if scan ?R l 1 16 < 16 then scan ?R l 1 16 else 0)"
    using p by (auto simp: pick_next_context_def MAX_PROCESSES_def Let_def split: if_splits)
  then show "n < 16" "n = 0 \<or> ?R (l ! n)" using scan_spec[of 1 16 ?R l] by (auto split: if_splits)
qed

lemma pick_lowest:
  assumes none: "\<And>i. 1 \<le> i \<Longrightarrow> i < 16 \<Longrightarrow> state (l ! i) \<noteq> RUNNING"
    and b: "1 \<le> b" "b < 16" "state (l ! b) = READY" "\<And>i. 1 \<le> i \<Longrightarrow> i < b \<Longrightarrow> state (l ! i) \<noteq> READY"
  shows "pick_next_context l = Some b"
proof -
  have "scan (\<lambda>c. state c = RUNNING) l 1 16 = 16" by (rule scan_none) (use none in auto)
  moreover have "scan (\<lambda>c. state c = READY) l 1 16 = b"
    using scan_found[of 1 b 16 "\<lambda>c. state c = READY" l] b by (meson le_neq_implies_less)
  ultimately show ?thesis using b(2) by (simp add: pick_next_context_def MAX_PROCESSES_def)
qed

text \<open>The table on which \<open>sleep\<close> chooses, with the current process waiting.\<close>

lemma do_sleep_choice:
  assumes inv: "sched_inv m" and run: "do_sleep sv ticks rs fp m = Iret cpu m'"
  shows "\<exists>l. length l = 16 \<and> (\<forall>i<16. i \<noteq> cur m \<longrightarrow> l ! i = ctxs m ! i)
    \<and> state (l ! cur m) = WAITING \<and> pid (l ! cur m) = pid (ctxs m ! cur m)
    \<and> ticks_to_sleep (l ! cur m) = ticks \<and> (\<forall>i<16. state (l ! i) \<noteq> RUNNING)
    \<and> pick_next_context l = Some (cur m') \<and> ctxs m' = l[cur m' := (l ! cur m')\<lparr>state := RUNNING\<rparr>]"
proof -
  define m1 where "m1 = (upd_ctx (cur m) (\<lambda>c. c\<lparr>ticks_to_sleep := ticks\<rparr>) m)\<lparr>mem := rearrange rs (mem m)\<rparr>"
  define s where "s = save_current_context sv WAITING (rs + 16) (rs + 120) True m1"
  note d = sched_invD(1,2,3)[OF inv]
  have m1: "cur m1 = cur m" "length (ctxs m1) = 16" "\<And>i. i < 16 \<Longrightarrow> i \<noteq> cur m \<Longrightarrow> ctxs m1 ! i = ctxs m ! i"
    "ctxs m1 ! cur m = (ctxs m ! cur m)\<lparr>ticks_to_sleep := ticks\<rparr>"
    using d by (simp_all add: m1_def ctxs_upd_ctx)
  have s: "length (ctxs s) = 16" "\<And>i. i < 16 \<Longrightarrow> i \<noteq> cur m \<Longrightarrow> ctxs s ! i = ctxs m ! i"
    "state (ctxs s ! cur m) = WAITING" "pid (ctxs s ! cur m) = pid (ctxs m ! cur m)"
    "ticks_to_sleep (ctxs s ! cur m) = ticks"
    using save_current_view[where sv = sv and st = WAITING and a = "rs + 16" and b = "rs + 120" and sk = True and m = m1]
      m1 d by (simp_all add: s_def Let_def)
  have run': "(case pick_next_context (ctxs s) of None \<Rightarrow> Shutdown s
      | Some next \<Rightarrow> schedule_context next False fp s) = Iret cpu m'"
    using run by (simp only: do_sleep_def Let_def s_def m1_def upd_ctx_simps)
  then obtain n where n: "pick_next_context (ctxs s) = Some n" by (cases "pick_next_context (ctxs s)") auto
  have r: "state (ctxs s ! i) \<noteq> RUNNING" if "i < 16" for i
    using s(2,3) sched_invD(4)[OF inv that] that by (cases "i = cur m") auto
  have m': "cur m' = n" "ctxs m' = (ctxs s)[n := (ctxs s ! n)\<lparr>state := RUNNING\<rparr>]"
    using run' n schedule_context_view[of n False fp s] by auto
  show ?thesis by (rule exI[of _ "ctxs s"]) (use s r n m' in simp)
qed

lemma do_sleep_view:
  assumes inv: "sched_inv m" and c: "cur m \<noteq> 0" and run: "do_sleep sv ticks rs fp m = Iret cpu m'"
  shows "sched_inv m'" "state (ctxs m' ! cur m) = WAITING" "ticks_to_sleep (ctxs m' ! cur m) = ticks"
proof -
  obtain l where l: "length l = 16" "\<forall>i<16. i \<noteq> cur m \<longrightarrow> l ! i = ctxs m ! i"
    "state (l ! cur m) = WAITING" "pid (l ! cur m) = pid (ctxs m ! cur m)"
    "ticks_to_sleep (l ! cur m) = ticks" "\<forall>i<16. state (l ! i) \<noteq> RUNNING"
    "pick_next_context l = Some (cur m')" "ctxs m' = l[cur m' := (l ! cur m')\<lparr>state := RUNNING\<rparr>]"
    using do_sleep_choice[OF inv run] by blast
  note p = pick_not_running[OF _ l(7)]
  have nc: "cur m' \<noteq> cur m" using p(2) l(3,6) c by auto
  show "sched_inv m'"
    by (rule switch_inv[OF inv l(1) _ l(4) _ _ _ nc _ l(8) refl]) (use l p nc c in auto)
  show "state (ctxs m' ! cur m) = WAITING" "ticks_to_sleep (ctxs m' ! cur m) = ticks"
    using l nc by simp_all
qed

lemma do_clone_inv:
  assumes inv: "sched_inv m" and sv: "services_ok sv" and free: "\<exists>i. 1 \<le> i \<and> i < 16 \<and> state (ctxs m ! i) = UNUSED"
    and run: "do_clone sv th us junk m = Some m'"
  shows "sched_inv m'"
proof -
  obtain n l where nl: "get_new_ctx sv (ctxs m) = (n, l)" by (cases "get_new_ctx sv (ctxs m)")
  have "length (ctxs m) = 16 \<and> pids_ok (ctxs m)" using sched_invD(1)[OF inv] sched_inv_pids[OF inv] by blast
  then have n: "1 \<le> n" "n < 16" "state (ctxs m ! n) = UNUSED" "length l = 16"
    "\<And>j. j < 16 \<Longrightarrow> j \<noteq> n \<Longrightarrow> l ! j = ctxs m ! j" "pid (l ! n) = of_nat n"
    using sv free nl unfolding services_ok_def by fastforce+
  have nc: "n \<noteq> cur m" using n(2,3) sched_invD(4)[OF inv n(2)] by auto
  obtain c' where m': "ctxs m' = l[n := c']" "cur m' = cur m" "state c' = READY" "pid c' = pid (l ! n)"
      "ticks_to_sleep c' = 0"
    using run nl by (auto simp: do_clone_def Let_def upd_ctx_def emit_def)
  have x: "ctxs m' ! i = (if i = n then c' else ctxs m ! i)" if "i < 16" for i
    using that n(4,5) m'(1) by (simp add: nth_list_update)
  have "ticks_to_sleep (ctxs m' ! 0) = 0" using x[of 0] n(1) sched_invD(7)[OF inv] by simp
  moreover have "length (ctxs m') = 16" using m'(1) n(4) by simp
  moreover have "pids_ok (ctxs m')"
    using x m'(4) n(6) sched_inv_pids[OF inv] unfolding pids_ok_def in_use_def by metis
  ultimately show ?thesis
    using x m'(2-5) n(2) nc sched_invD(2,4,8)[OF inv] by (simp add: sched_inv_def only_running_def)
qed

lemma upd_cur_inv:
  assumes inv: "sched_inv m"
    and f: "\<And>c. state (f c) = state c" "\<And>c. pid (f c) = pid c" "\<And>c. ticks_to_sleep (f c) = ticks_to_sleep c"
  shows "sched_inv (upd_ctx i f m)"
proof -
  have "state (ctxs (upd_ctx i f m) ! j) = state (ctxs m ! j)" "pid (ctxs (upd_ctx i f m) ! j) = pid (ctxs m ! j)"
    "ticks_to_sleep (ctxs (upd_ctx i f m) ! j) = ticks_to_sleep (ctxs m ! j)" if "j < 16" for j
    using that sched_invD(1)[OF inv] f by (simp_all add: ctxs_upd_ctx)
  then show ?thesis using inv by (simp add: sched_inv_def only_running_def pids_ok_def in_use_def)
qed

section \<open>Runs of the kernel\<close>

text \<open>
  Between two handlers user code may change memory, hence the arbitrary \<open>u\<close>. The swapper, context
  0, makes no system calls.
\<close>

inductive step :: "services \<Rightarrow> machine \<Rightarrow> machine \<Rightarrow> bool" for sv where
  tick: "handle_timer_tick sv cpu rsp rb fp (m\<lparr>mem := u\<rparr>) = Iret cpu' m' \<Longrightarrow> step sv m m'"
| exit: "cur m \<noteq> 0 \<Longrightarrow> do_exit sv fp (m\<lparr>mem := u\<rparr>) = Iret cpu' m' \<Longrightarrow> step sv m m'"
| sleep: "cur m \<noteq> 0 \<Longrightarrow> do_sleep sv ticks rs fp (m\<lparr>mem := u\<rparr>) = Iret cpu' m' \<Longrightarrow> step sv m m'"
| clone: "\<exists>i. 1 \<le> i \<and> i < 16 \<and> state (ctxs m ! i) = UNUSED \<Longrightarrow>
    do_clone sv th us junk (m\<lparr>mem := u\<rparr>) = Some m' \<Longrightarrow> step sv m m'"
| signal: "do_signal signo h m = Some m' \<Longrightarrow> step sv m m'"
| alarm: "step sv m (do_alarm ticks m)"
| fault_exit: "cur m \<noteq> 0 \<Longrightarrow>
    invoke_sync_signal sv signo us ur fp (m\<lparr>mem := u\<rparr>) = Some (Inl (Iret cpu' m')) \<Longrightarrow> step sv m m'"
| fault_handler: "invoke_sync_signal sv signo us ur fp (m\<lparr>mem := u\<rparr>) = Some (Inr (us', ur', m')) \<Longrightarrow>
    step sv m m'"

lemma step_inv:
  assumes "step sv m m'" "services_ok sv" "sched_inv m" shows "sched_inv m'"
  using assms(1)
proof cases
  case (tick cpu rsp rb fp u cpu')
  then show ?thesis using tick_view(2)[of "m\<lparr>mem := u\<rparr>"] assms(3) by simp
next
  case (exit fp u cpu')
  then show ?thesis using do_exit_inv[of "m\<lparr>mem := u\<rparr>"] assms by simp
next
  case (sleep ticks rs fp u cpu')
  then show ?thesis using do_sleep_view(1)[of "m\<lparr>mem := u\<rparr>"] assms by simp
next
  case (clone th us junk u)
  then show ?thesis using do_clone_inv[of "m\<lparr>mem := u\<rparr>"] assms by simp
next
  case (signal signo h)
  then show ?thesis using upd_cur_inv[OF assms(3)] by (auto simp: do_signal_def split: if_splits)
next
  case (alarm ticks)
  then show ?thesis using upd_cur_inv[OF assms(3)] by (auto simp: do_alarm_def)
next
  case (fault_exit signo us ur fp u cpu')
  then have "do_exit sv fp (m\<lparr>mem := u\<rparr>) = Iret cpu' m'"
    by (auto simp: invoke_sync_signal_def Let_def split: if_splits)
  then show ?thesis using do_exit_inv[of "m\<lparr>mem := u\<rparr>"] assms fault_exit(1) by simp
next
  case (fault_handler signo us ur fp u us' ur')
  then show ?thesis using assms(3) by (auto simp: invoke_sync_signal_def Let_def split: if_splits)
qed

definition tick_step :: "services \<Rightarrow> machine \<Rightarrow> machine \<Rightarrow> bool" where
  "tick_step sv m m' \<longleftrightarrow> (\<exists>cpu rsp rb fp u cpu'.
     handle_timer_tick sv cpu rsp rb fp (m\<lparr>mem := u\<rparr>) = Iret cpu' m')"

lemma tick_step_view:
  assumes inv: "sched_inv m" and st: "tick_step sv m m'"
  shows "sched_inv m'"
    and "1 \<le> j \<Longrightarrow> j < 16 \<Longrightarrow> j \<noteq> cur m \<Longrightarrow> state (ctxs m ! j) = READY \<Longrightarrow>
      dist (cur m') j < dist (cur m) j \<and> (j = cur m' \<or> state (ctxs m' ! j) = READY)"
    and "1 \<le> j \<Longrightarrow> j < 16 \<Longrightarrow> state (ctxs m ! j) = WAITING \<Longrightarrow>
      (if ticks_to_sleep (ctxs m ! j) = 1 then state (ctxs m' ! j) \<in> {READY, RUNNING}
       else state (ctxs m' ! j) = WAITING
         \<and> ticks_to_sleep (ctxs m' ! j) = (if ticks_to_sleep (ctxs m ! j) = 0 then 0 else ticks_to_sleep (ctxs m ! j) - 1))"
proof -
  obtain cpu rsp rb fp u cpu' where run: "handle_timer_tick sv cpu rsp rb fp (m\<lparr>mem := u\<rparr>) = Iret cpu' m'"
    using st unfolding tick_step_def by blast
  have inv': "sched_inv (m\<lparr>mem := u\<rparr>)" using inv by simp
  define a where "a = at_pick sv cpu rsp rb fp (m\<lparr>mem := u\<rparr>)"
  note v = at_pick_view[OF inv', where sv = sv and cpu = cpu and rsp = rsp and rb = rb and fp = fp, folded a_def, simplified]
  note w = tick_view[OF inv' run, folded a_def, simplified]
  note p = pick_running[OF sched_invD(3)[OF v(1)] w(1), unfolded v(2)]
  show "sched_inv m'" by (rule w(2))
  show "dist (cur m') j < dist (cur m) j \<and> (j = cur m' \<or> state (ctxs m' ! j) = READY)"
    if j: "1 \<le> j" "j < 16" "j \<noteq> cur m" "state (ctxs m ! j) = READY"
  proof -
    have "ticks_to_sleep (ctxs m ! j) = 0" using sched_invD(6)[OF inv j(2)] j(4) by simp
    then have s: "state (sleep_account (ctxs m ! j)) = READY" using j(4) by (simp add: sleep_account_def)
    show ?thesis using p(4)[OF j(1,2)] v(3)[OF j(2)] w(3)[OF j(2) _ j(3)] s by auto
  qed
  show "if ticks_to_sleep (ctxs m ! j) = 1 then state (ctxs m' ! j) \<in> {READY, RUNNING}
       else state (ctxs m' ! j) = WAITING
         \<and> ticks_to_sleep (ctxs m' ! j) = (if ticks_to_sleep (ctxs m ! j) = 0 then 0 else ticks_to_sleep (ctxs m ! j) - 1)"
    if j: "1 \<le> j" "j < 16" "state (ctxs m ! j) = WAITING"
  proof -
    have jc: "j \<noteq> cur m" using sched_invD(4)[OF inv j(2)] j(3) by auto
    note s = sleep_account_wake[OF inv j(2)]
    have run_j: "state (ctxs m' ! j) = RUNNING" if "j = cur m'" using sched_invD(4)[OF w(2) j(2)] that by simp
    have "j \<noteq> cur m'" if "ticks_to_sleep (ctxs m ! j) \<noteq> 1"
      using p(2) v(3)[OF j(2)] s that j jc by auto
    moreover have "ticks_to_sleep (sleep_account (ctxs m ! j)) = (if ticks_to_sleep (ctxs m ! j) = 0 then 0
        else ticks_to_sleep (ctxs m ! j) - 1)"
      by (auto simp: sleep_account_def Let_def word_gt_0)
    ultimately show ?thesis
      using w(3)[OF j(2) _ jc] w(5)[OF j(2)] s j(3) run_j by (cases "j = cur m'") auto
  qed
qed

text \<open>
  The other steps, but for \<open>sleep\<close>: those that end the turn of the current process, and those
  that leave it running.
\<close>

definition turn_step :: "services \<Rightarrow> machine \<Rightarrow> machine \<Rightarrow> bool" where
  "turn_step sv m m' \<longleftrightarrow> tick_step sv m m'
     \<or> (cur m \<noteq> 0 \<and> (\<exists>fp u cpu'. do_exit sv fp (m\<lparr>mem := u\<rparr>) = Iret cpu' m'))
     \<or> (cur m \<noteq> 0 \<and> (\<exists>signo us ur fp u cpu'.
          invoke_sync_signal sv signo us ur fp (m\<lparr>mem := u\<rparr>) = Some (Inl (Iret cpu' m'))))"

definition quiet_step :: "services \<Rightarrow> machine \<Rightarrow> machine \<Rightarrow> bool" where
  "quiet_step sv m m' \<longleftrightarrow>
     ((\<exists>i. 1 \<le> i \<and> i < 16 \<and> state (ctxs m ! i) = UNUSED)
       \<and> (\<exists>th us junk u. do_clone sv th us junk (m\<lparr>mem := u\<rparr>) = Some m'))
     \<or> (\<exists>signo h. do_signal signo h m = Some m') \<or> (\<exists>ticks. m' = do_alarm ticks m)
     \<or> (\<exists>signo us ur fp u us' ur'.
          invoke_sync_signal sv signo us ur fp (m\<lparr>mem := u\<rparr>) = Some (Inr (us', ur', m')))"

lemma do_exit_turn:
  assumes inv: "sched_inv m" and run: "do_exit sv fp m = Iret cpu m'"
    and j: "1 \<le> j" "j < 16" "j \<noteq> cur m" "state (ctxs m ! j) = READY"
  shows "dist (cur m') j < dist (cur m) j \<and> (j = cur m' \<or> state (ctxs m' ! j) = READY)"
proof -
  from run obtain n where n: "pick_next_context (ctxs m) = Some n"
    by (cases "pick_next_context (ctxs m)") (simp_all add: do_exit_def)
  note p = pick_running(1,4)[OF sched_invD(3)[OF inv] n]
  have d: "dist n j < dist (cur m) j" using p(2)[OF j(1,2,4)] .
  then have ne: "n \<noteq> cur m" by auto
  define l where "l = (ctxs m)[cur m := (ctxs m ! cur m)\<lparr>state := UNUSED\<rparr>]"
  have "pid (l ! n) \<noteq> pid (l ! cur m)"
    using pick_pid[OF inv n] ne sched_invD(1,2)[OF inv] by (simp add: l_def get_current_ctx_def)
  then have "schedule_context n False fp (m\<lparr>stack_to_free := os_stack_pfn (get_current_ctx m), ctxs := l\<rparr>) = Iret cpu m'"
    using run n by (simp add: do_exit_def Let_def upd_ctx_def get_current_ctx_def l_def)
  from schedule_context_view[OF this] have "cur m' = n" "ctxs m' = l[n := (l ! n)\<lparr>state := RUNNING\<rparr>]" by auto
  then show ?thesis using d j by (cases "j = n") (simp_all add: l_def)
qed

lemma turn_step_view:
  assumes inv: "sched_inv m" and sv: "services_ok sv" and st: "turn_step sv m m'"
    and j: "1 \<le> j" "j < 16" "j \<noteq> cur m" "state (ctxs m ! j) = READY"
  shows "sched_inv m' \<and> dist (cur m') j < dist (cur m) j \<and> (j = cur m' \<or> state (ctxs m' ! j) = READY)"
proof -
  consider "tick_step sv m m'" | fp u cpu' where "cur m \<noteq> 0" "do_exit sv fp (m\<lparr>mem := u\<rparr>) = Iret cpu' m'"
    using st by (auto simp: turn_step_def invoke_sync_signal_def Let_def split: if_splits)
  then show ?thesis
  proof cases
    case 1 then show ?thesis using tick_step_view(1,2)[OF inv 1] j by blast
  next
    case 2
    then show ?thesis
      using do_exit_inv[of "m\<lparr>mem := u\<rparr>"] do_exit_turn[of "m\<lparr>mem := u\<rparr>"] inv sv j by simp
  qed
qed

lemma upd_ctx_state:
  "(\<And>c. state (f c) = state c) \<Longrightarrow> j < length (ctxs m) \<Longrightarrow> state (ctxs (upd_ctx i f m) ! j) = state (ctxs m ! j)"
  by (simp add: ctxs_upd_ctx)

lemma quiet_step_view:
  assumes inv: "sched_inv m" and sv: "services_ok sv" and st: "quiet_step sv m m'"
    and j: "j < 16" "state (ctxs m ! j) = READY"
  shows "sched_inv m' \<and> cur m' = cur m \<and> state (ctxs m' ! j) = READY"
proof -
  have "step sv m m'" using st step.clone step.signal step.alarm step.fault_handler unfolding quiet_step_def by metis
  then have "sched_inv m'" using step_inv inv sv by blast
  moreover have "cur m' = cur m \<and> state (ctxs m' ! j) = READY"
    using st unfolding quiet_step_def
  proof (elim disjE conjE exE)
    fix i th us junk u
    assume clone: "do_clone sv th us junk (m\<lparr>mem := u\<rparr>) = Some m'" "1 \<le> i" "i < 16" "state (ctxs m ! i) = UNUSED"
    obtain n l where nl: "get_new_ctx sv (ctxs m) = (n, l)" by (cases "get_new_ctx sv (ctxs m)")
    have "length (ctxs m) = 16 \<and> pids_ok (ctxs m)" using sched_invD(1)[OF inv] sched_inv_pids[OF inv] by blast
    then have n: "state (ctxs m ! n) = UNUSED" "\<And>i. i < 16 \<Longrightarrow> i \<noteq> n \<Longrightarrow> l ! i = ctxs m ! i"
      using sv clone(2-4) nl unfolding services_ok_def by fastforce+
    moreover have "n \<noteq> j" using n(1) j(2) by auto
    ultimately show ?thesis
      using clone(1) nl j by (auto simp: do_clone_def Let_def upd_ctx_def emit_def)
  next
    fix signo h assume "do_signal signo h m = Some m'"
    then show ?thesis
      using j sched_invD(1)[OF inv] by (auto simp: do_signal_def upd_ctx_state split: if_splits)
  next
    fix ticks assume "m' = do_alarm ticks m"
    then show ?thesis using j sched_invD(1)[OF inv] by (simp add: do_alarm_def upd_ctx_state)
  next
    fix signo us ur fp u us' ur'
    assume "invoke_sync_signal sv signo us ur fp (m\<lparr>mem := u\<rparr>) = Some (Inr (us', ur', m'))"
    then show ?thesis using j by (auto simp: invoke_sync_signal_def Let_def split: if_splits)
  qed
  ultimately show ?thesis by blast
qed

lemma do_sleep_returns:
  assumes inv: "sched_inv m" and c: "cur m \<noteq> 0"
  shows "\<exists>cpu m'. do_sleep sv ticks rs fp m = Iret cpu m'"
proof -
  define m1 where "m1 = (upd_ctx (cur m) (\<lambda>c. c\<lparr>ticks_to_sleep := ticks\<rparr>) m)\<lparr>mem := rearrange rs (mem m)\<rparr>"
  define s where "s = save_current_context sv WAITING (rs + 16) (rs + 120) True m1"
  have "state (ctxs s ! cur m) = WAITING"
    using save_current_view(5)[of m1 sv WAITING "rs + 16" "rs + 120" True] sched_invD(1,2)[OF inv]
    by (simp add: s_def m1_def Let_def)
  then have "pick_next_context (ctxs s) \<noteq> None"
    using pick_alive[of "cur m"] sched_invD(2)[OF inv] c by (simp add: alive_def)
  then obtain n where "pick_next_context (ctxs s) = Some n" by blast
  then have "do_sleep sv ticks rs fp m = schedule_context n False fp s"
    by (simp only: do_sleep_def Let_def s_def m1_def upd_ctx_simps option.case)
  then show ?thesis using schedule_context_view[OF refl] by metis
qed

section \<open>A concrete machine\<close>

definition demo_regs :: "nat \<Rightarrow> user_regs" where
  "demo_regs k = \<lparr>r15 = of_nat k, r14 = 14, r13 = 13, r12 = 12, r11 = 11, r10 = 10, r9 = 9, r8 = 8,
     rbp = 7, rdi = 6, rsi = 5, rdx = 4, rcx = 3, rbx = 2, rax = 1, entry_rip = 0x100000000,
     entry_cs = 0x23, entry_rflags = 2, entry_rsp = 0x7FFFFF000, entry_ss = 0x2B\<rparr>"

definition demo_state :: "nat \<Rightarrow> process_state" where
  "demo_state i = (if i = 1 then RUNNING else if i = 0 \<or> i = 2 then READY else UNUSED)"

definition demo_ctx :: "nat \<Rightarrow> exec_context" where
  "demo_ctx i = \<lparr>pid = (if demo_state i = UNUSED then 0 else of_nat i), ctx_type = 2, state = demo_state i, used_mem = 0, pgd = 0,
     os_stack_pfn = 0, os_rsp = 0, mms = [], ctx_name = replicate 64 0, regs = demo_regs i,
     pending_signal_bitmap = 0, sighandlers = [0, 0, 0], ticks_to_sleep = 0, alarm_config_time = 0,
     ticks_to_alarm = 0\<rparr>"

definition demo_machine :: machine where
  "demo_machine = \<lparr>ctxs = map demo_ctx [0..<16], cur = 1, mem = (\<lambda>_. 0), numticks = 0,
     stack_to_free = 0, log = []\<rparr>"

definition demo_sv :: services where
  "demo_sv = \<lparr>osmap = push_bit 12, get_ctx_by_pid = (\<lambda>_ p. unat p),
     get_new_ctx = (\<lambda>l. let i = scan (\<lambda>c. state c = UNUSED) l 1 16 in
       (i, l[i := (l ! i)\<lparr>pid := of_nat i, state := NEW\<rparr>])), os_pfn_alloc = (\<lambda>_. 5)\<rparr>"

lemma demo_ctxs: "i < 16 \<Longrightarrow> ctxs demo_machine ! i = demo_ctx i" "cur demo_machine = 1"
  by (simp_all add: demo_machine_def del: upt_conv_Cons upt_Suc)

lemma demo_machine_inv: "sched_inv demo_machine"
proof -
  have "length (ctxs demo_machine) = 16" by (simp add: demo_machine_def)
  then show ?thesis
    by (simp add: sched_inv_def only_running_def pids_ok_def in_use_def demo_ctxs) (auto simp: demo_ctx_def demo_state_def)
qed

lemma demo_services: "services_ok demo_sv"
proof -
  have "1 \<le> scan (\<lambda>c. state c = UNUSED) l 1 16 \<and> scan (\<lambda>c. state c = UNUSED) l 1 16 < 16
      \<and> state (l ! scan (\<lambda>c. state c = UNUSED) l 1 16) = UNUSED"
    if "1 \<le> i" "i < 16" "state (l ! i) = UNUSED" for l i
    using scan_found[of 1 i 16 "\<lambda>c. state c = UNUSED" l] that by auto
  then show ?thesis by (fastforce simp: services_ok_def demo_sv_def Let_def pids_ok_def in_use_def)
qed

lemma tick_step_exists:
  assumes "sched_inv m" "1 \<le> j" "j < 16" "alive (state (ctxs m ! j))"
  shows "\<exists>m'. tick_step sv m m'"
  using tick_returns[of "m\<lparr>mem := u\<rparr>" j sv cpu rsp rb fp for u cpu rsp rb fp] assms
  unfolding tick_step_def by (metis sched_inv_mem upd_ctx_simps(7))

lemma demo_tick: "\<exists>m'. tick_step demo_sv demo_machine m'"
  by (rule tick_step_exists[OF demo_machine_inv, of 1]) (simp_all add: demo_ctxs demo_ctx_def demo_state_def alive_def)

section \<open>Properties\<close>

text \<open>
  C30: In every state that the kernel reaches from a well-formed one, through any sequence of timer
  ticks, \<open>exit\<close>, \<open>sleep\<close>, \<open>clone\<close>, \<open>signal\<close>, \<open>alarm\<close> and faults with arbitrary arguments and
  memory, exactly the current context is in state RUNNING, only waiting processes have ticks left to
  sleep, and every context in use has its index as pid.
\<close>

theorem sched_inv_reachable:
  assumes "(step sv)\<^sup>*\<^sup>* m m'" "services_ok sv" "sched_inv m"
  shows "sched_inv m'"
  using assms by (induction rule: rtranclp_induct) (blast intro: step_inv)+

theorem sched_inv_reachable_witness:
  "\<exists>m1. tick_step demo_sv demo_machine m1 \<and> sched_inv (do_alarm 3 m1)"
proof -
  obtain m1 where m1: "tick_step demo_sv demo_machine m1" using demo_tick by blast
  have "(step demo_sv)\<^sup>*\<^sup>* demo_machine (do_alarm 3 m1)"
    using m1 step.tick step.alarm unfolding tick_step_def by (metis rtranclp.simps)
  from sched_inv_reachable[OF this demo_services demo_machine_inv] show ?thesis using m1 by blast
qed

text \<open>
  C31: Round robin is fair as long as no process calls \<open>sleep\<close>: consider any sequence of timer ticks,
  exits (by system call or by a fault), clones, signals, alarms and faults with a handler. A ready
  process has the processor at the latest when as many ticks and exits have happened as its distance
  from the current process in the cyclic order of the table, at most 15. (\<open>sleep\<close> does not continue the
  round but starts it again at the first slot, so that it can starve a process.)
\<close>

theorem round_robin_reaches:
  assumes inv: "sched_inv (f 0)" and sv: "services_ok sv"
    and j: "1 \<le> j" "j < 16" "state (ctxs (f 0) ! j) = READY"
    and steps: "\<forall>k<n. turn_step sv (f k) (f (Suc k)) \<or> quiet_step sv (f k) (f (Suc k))"
    and turns: "dist (cur (f 0)) j \<le> card {k. k < n \<and> turn_step sv (f k) (f (Suc k))}"
  shows "dist (cur (f 0)) j \<le> 15 \<and> (\<exists>k\<le>n. cur (f k) = j)"
proof
  show "dist (cur (f 0)) j \<le> 15" using j(1,2) sched_invD(2)[OF inv] by (auto simp: dist_def)
  define d where "d = dist (cur (f 0)) j"
  let ?T = "\<lambda>n. {k. k < n \<and> turn_step sv (f k) (f (Suc k))}"
  have "(\<exists>k\<le>i. cur (f k) = j) \<or> sched_inv (f i) \<and> state (ctxs (f i) ! j) = READY \<and> dist (cur (f i)) j + card (?T i) \<le> d"
    if "i \<le> n" for i
    using that
  proof (induction i)
    case 0 then show ?case using inv j(3) by (simp add: d_def)
  next
    case (Suc i)
    then consider "\<exists>k\<le>i. cur (f k) = j"
      | "cur (f i) \<noteq> j" "sched_inv (f i)" "state (ctxs (f i) ! j) = READY" "dist (cur (f i)) j + card (?T i) \<le> d"
      by (metis Suc_leD order_refl)
    then show ?case
    proof cases
      case 1 then show ?thesis using le_SucI by blast
    next
      case 2
      show ?thesis
      proof (cases "turn_step sv (f i) (f (Suc i))")
        case True
        have "?T (Suc i) = insert i (?T i)" using True by (auto simp: less_Suc_eq)
        then have "card (?T (Suc i)) = Suc (card (?T i))" by simp
        then show ?thesis
          using turn_step_view[OF 2(2) sv True j(1,2) _ 2(3)] 2(1,4) by (cases "cur (f (Suc i)) = j") auto
      next
        case False
        have "?T (Suc i) = ?T i" using False by (auto simp: less_Suc_eq)
        moreover have "quiet_step sv (f i) (f (Suc i))"
          using steps[rule_format, OF Suc_le_lessD[OF Suc.prems]] False by blast
        ultimately show ?thesis using quiet_step_view[OF 2(2) sv _ j(2) 2(3)] 2(4) by simp
      qed
    qed
  qed
  from this[of n] have "(\<exists>k\<le>n. cur (f k) = j) \<or> dist (cur (f n)) j = 0 \<and> cur (f n) < 16"
    using turns sched_invD(2) by (auto simp: d_def)
  moreover have "c = j" if "dist c j = 0" "c < 16" for c
    using that j(1,2) by (auto simp: dist_def split: if_splits)
  ultimately show "\<exists>k\<le>n. cur (f k) = j" by blast
qed

theorem round_robin_reaches_witness: "\<exists>m'. tick_step demo_sv demo_machine m' \<and> cur m' = 2"
proof -
  obtain m' where m': "tick_step demo_sv demo_machine m'" using demo_tick by blast
  define f where "f = (\<lambda>n :: nat. if n = 0 then demo_machine else m')"
  have d: "dist (cur (f 0)) 2 = 1" by (simp add: f_def demo_ctxs dist_def)
  have "{k. k < 1 \<and> turn_step demo_sv (f k) (f (Suc k))} = {0}"
    using m' by (auto simp: f_def turn_step_def)
  then have "\<exists>k\<le>1. cur (f k) = 2"
    using round_robin_reaches[of f demo_sv 2 1] d demo_machine_inv demo_services m'
    by (simp add: f_def turn_step_def demo_ctxs demo_ctx_def demo_state_def)
  then show ?thesis using m' by (auto simp: f_def demo_ctxs le_Suc_eq split: if_splits)
qed

text \<open>
  With \<open>sleep\<close> round robin is not fair. Let the current process \<open>c\<close> call \<open>sleep(1)\<close> while a process
  \<open>b\<close> in a lower slot is ready: \<open>sleep\<close> chooses \<open>b\<close>, the next tick wakes \<open>c\<close> and chooses it, and every
  process behind \<open>c\<close> that was ready is still waiting for its turn in the same situation as before.
  So it never runs while \<open>c\<close> goes on like this.
\<close>

theorem do_sleep_starves:
  assumes inv: "sched_inv m" and b: "1 \<le> b" "b < cur m" "state (ctxs m ! b) = READY"
    and low: "\<forall>i. 1 \<le> i \<and> i < cur m \<and> i \<noteq> b \<longrightarrow> state (ctxs m ! i) = UNUSED"
    and run: "do_sleep sv 1 rs fp m = Iret cpu m1" and tick: "tick_step sv m1 m2"
  shows "cur m1 = b \<and> cur m2 = cur m \<and> state (ctxs m2 ! b) = READY
    \<and> (\<forall>j<16. cur m < j \<and> state (ctxs m ! j) = READY \<longrightarrow> state (ctxs m2 ! j) = READY)
    \<and> sched_inv m2 \<and> (\<forall>i. 1 \<le> i \<and> i < cur m2 \<and> i \<noteq> b \<longrightarrow> state (ctxs m2 ! i) = UNUSED)"
proof -
  let ?c = "cur m"
  have c: "?c \<noteq> 0" "?c < 16" using b(2) sched_invD(2)[OF inv] by auto
  obtain l where l: "length l = 16" "\<forall>i<16. i \<noteq> ?c \<longrightarrow> l ! i = ctxs m ! i"
    "state (l ! ?c) = WAITING" "pid (l ! ?c) = pid (ctxs m ! ?c)" "ticks_to_sleep (l ! ?c) = 1"
    "\<forall>i<16. state (l ! i) \<noteq> RUNNING"
    "pick_next_context l = Some (cur m1)" "ctxs m1 = l[cur m1 := (l ! cur m1)\<lparr>state := RUNNING\<rparr>]"
    using do_sleep_choice[OF inv run] by blast
  note s = do_sleep_view[OF inv c(1) run]
  have "pick_next_context l = Some b"
    by (rule pick_lowest) (use l(2,6) b c low in auto)
  then have m1: "cur m1 = b" using l(7) by simp
  have x: "ctxs m1 ! i = ctxs m ! i" if "i < 16" "i \<noteq> b" "i \<noteq> ?c" for i
    using that l(2,8) m1 by simp
  obtain cpu' rsp rb fp' u cpu2 where t: "handle_timer_tick sv cpu' rsp rb fp' (m1\<lparr>mem := u\<rparr>) = Iret cpu2 m2"
    using tick unfolding tick_step_def by blast
  have inv1: "sched_inv (m1\<lparr>mem := u\<rparr>)" using s(1) by simp
  note v = at_pick_view[OF inv1, where sv = sv and cpu = cpu' and rsp = rsp and rb = rb and fp = fp', simplified]
    and w = tick_view[OF inv1 t, simplified]
  note p = pick_running[OF sched_invD(3)[OF v(1)] w(1), unfolded v(2) m1]
  have wake: "state (sleep_account (ctxs m1 ! ?c)) = READY" using sleep_account_wake[OF s(1) c(2)] s(3) by simp
  have "dist (cur m2) ?c < dist b ?c" using p(4)[of ?c] c v(3)[OF c(2)] wake by simp
  then have n: "b < cur m2" "cur m2 \<le> ?c" "cur m2 \<noteq> b" using b(2) p(1,3) c by (auto simp: dist_def split: if_splits)
  have c2: "cur m2 = ?c"
  proof (rule ccontr)
    assume ne: "cur m2 \<noteq> ?c"
    then have "state (ctxs m1 ! cur m2) = UNUSED" using x[OF p(1)] low n b(1) by simp
    moreover have "state (sleep_account (ctxs m1 ! cur m2)) = READY" using p(2) n v(3)[OF p(1)] by simp
    ultimately show False
      using sleep_account_wake[OF s(1) p(1)] sched_invD(6)[OF s(1) p(1)] by (simp split: if_splits)
  qed
  have "state (ctxs m2 ! b) = READY" using w(4) m1 c2 b(2) by simp
  moreover have "state (ctxs m2 ! j) = READY" if j: "j < 16" "?c < j" "state (ctxs m ! j) = READY" for j
  proof -
    have y: "ctxs m1 ! j = ctxs m ! j" using x[of j] j b(2) by simp
    then show ?thesis using w(3)[of j] sleep_account_wake[OF s(1) j(1)] j m1 c2 b(2) by (simp split: if_splits)
  qed
  moreover have "state (ctxs m2 ! i) = UNUSED" if i: "1 \<le> i" "i < ?c" "i \<noteq> b" for i
  proof -
    have "i < 16" "ctxs m1 ! i = ctxs m ! i" using x[of i] i c by simp_all
    then show ?thesis
      using w(3)[of i] sleep_account_wake[OF s(1), of i] sched_invD(6)[OF inv, of i] low i m1 c2
      by (simp split: if_splits)
  qed
  ultimately show ?thesis using m1 c2 w(2) by simp
qed

text \<open>
  C32: A process that calls \<open>sleep\<close> with a positive number of ticks is waiting during exactly that
  many timer ticks and is ready (or already running) after the last of them.
\<close>

theorem do_sleep_wakes:
  assumes inv: "sched_inv m" and c: "cur m \<noteq> 0" and run: "do_sleep sv ticks rs fp m = Iret cpu (f 0)"
    and pos: "0 < unat ticks" and seq: "\<forall>k<unat ticks. tick_step sv (f k) (f (Suc k))"
  shows "(\<forall>k<unat ticks. state (ctxs (f k) ! cur m) = WAITING)
    \<and> state (ctxs (f (unat ticks)) ! cur m) \<in> {READY, RUNNING}"
proof -
  let ?j = "cur m"
  have j: "1 \<le> ?j" "?j < 16" using c sched_invD(2)[OF inv] by auto
  note s = do_sleep_view[OF inv c run]
  have "sched_inv (f k) \<and> state (ctxs (f k) ! ?j) = WAITING \<and> unat (ticks_to_sleep (ctxs (f k) ! ?j)) = unat ticks - k"
    if "k < unat ticks" for k
    using that
  proof (induction k)
    case 0 then show ?case using s by simp
  next
    case (Suc k)
    let ?t = "ticks_to_sleep (ctxs (f k) ! ?j)"
    have IH: "sched_inv (f k)" "state (ctxs (f k) ! ?j) = WAITING" "unat ?t = unat ticks - k" using Suc by simp_all
    have t: "?t \<noteq> 1" "?t \<noteq> 0" using IH(3) Suc.prems by auto
    have st: "tick_step sv (f k) (f (Suc k))" using seq Suc.prems by simp
    have "unat (?t - 1) = unat ?t - 1" using t(2) by (metis unat_minus_one)
    then show ?case
      using tick_step_view(1)[OF IH(1) st] tick_step_view(3)[OF IH(1) st j IH(2)] t IH(3) by simp
  qed
  note all = this
  have last: "unat ticks - 1 < unat ticks" "Suc (unat ticks - 1) = unat ticks" using pos by auto
  have "ticks_to_sleep (ctxs (f (unat ticks - 1)) ! ?j) = 1"
    using all[OF last(1)] pos by (metis diff_diff_cancel last(2) Suc_leI unat_1 word_unat_eq_iff One_nat_def)
  then have "state (ctxs (f (unat ticks)) ! ?j) \<in> {READY, RUNNING}"
    using tick_step_view(3)[of "f (unat ticks - 1)" sv "f (unat ticks)" ?j] all[OF last(1)] j seq last by metis
  then show ?thesis using all by blast
qed

theorem do_sleep_wakes_witness:
  "\<exists>cpu m1 m2. do_sleep demo_sv 1 0 0x9000 demo_machine = Iret cpu m1 \<and> tick_step demo_sv m1 m2
     \<and> state (ctxs m1 ! 1) = WAITING \<and> state (ctxs m2 ! 1) \<in> {READY, RUNNING}"
proof -
  have c: "cur demo_machine \<noteq> 0" by (simp add: demo_ctxs)
  obtain cpu m1 where r: "do_sleep demo_sv 1 0 0x9000 demo_machine = Iret cpu m1"
    using do_sleep_returns[OF demo_machine_inv c] by blast
  note s = do_sleep_view[OF demo_machine_inv c r, unfolded demo_ctxs(2)]
  obtain m2 where m2: "tick_step demo_sv m1 m2"
    using tick_step_exists[OF s(1), of 1 demo_sv] s(2) by (auto simp: alive_def)
  define f where "f = (\<lambda>n :: nat. if n = 0 then m1 else m2)"
  have "do_sleep demo_sv 1 0 0x9000 demo_machine = Iret cpu (f 0)" using r by (simp add: f_def)
  from do_sleep_wakes[where f = f, OF demo_machine_inv c this] show ?thesis
    using r m2 by (auto simp: f_def demo_ctxs)
qed

text \<open>
  C35: \<open>sleep\<close> with zero ticks never ends: the accounting only wakes a process whose counter reaches
  zero, so the process stays waiting through any number of ticks.
\<close>

theorem do_sleep_zero_never_wakes:
  assumes inv: "sched_inv m" and c: "cur m \<noteq> 0" and run: "do_sleep sv 0 rs fp m = Iret cpu (f 0)"
    and seq: "\<forall>k<n. tick_step sv (f k) (f (Suc k))"
  shows "state (ctxs (f n) ! cur m) = WAITING"
proof -
  let ?j = "cur m"
  have j: "1 \<le> ?j" "?j < 16" using c sched_invD(2)[OF inv] by auto
  have "sched_inv (f k) \<and> state (ctxs (f k) ! ?j) = WAITING \<and> ticks_to_sleep (ctxs (f k) ! ?j) = 0"
    if "k \<le> n" for k
    using that
  proof (induction k)
    case 0 then show ?case using do_sleep_view[OF inv c run] by simp
  next
    case (Suc k)
    then have IH: "sched_inv (f k)" "state (ctxs (f k) ! ?j) = WAITING" "ticks_to_sleep (ctxs (f k) ! ?j) = 0"
      and st: "tick_step sv (f k) (f (Suc k))" using seq by simp_all
    show ?case using tick_step_view(1)[OF IH(1) st] tick_step_view(3)[OF IH(1) st j IH(2)] IH(3) by simp
  qed
  then show ?thesis by simp
qed

theorem do_sleep_zero_never_wakes_witness:
  "\<exists>cpu m1 m2. do_sleep demo_sv 0 0 0x9000 demo_machine = Iret cpu m1 \<and> tick_step demo_sv m1 m2
     \<and> state (ctxs m2 ! 1) = WAITING"
proof -
  have c: "cur demo_machine \<noteq> 0" by (simp add: demo_ctxs)
  obtain cpu m1 where r: "do_sleep demo_sv 0 0 0x9000 demo_machine = Iret cpu m1"
    using do_sleep_returns[OF demo_machine_inv c] by blast
  note s = do_sleep_view[OF demo_machine_inv c r, unfolded demo_ctxs(2)]
  obtain m2 where m2: "tick_step demo_sv m1 m2"
    using tick_step_exists[OF s(1), of 1 demo_sv] s(2) by (auto simp: alive_def)
  define f where "f = (\<lambda>n :: nat. if n = 0 then m1 else m2)"
  have "do_sleep demo_sv 0 0 0x9000 demo_machine = Iret cpu (f 0)" using r by (simp add: f_def)
  from do_sleep_zero_never_wakes[where f = f and n = 1, OF demo_machine_inv c this] show ?thesis
    using r m2 by (auto simp: f_def demo_ctxs)
qed

end
