(* ===== verification/Switching.thy ===== *)
theory Switching
  imports Scheduling
begin

text \<open>
  Registers and memory across the timer tick of \<open>Sched\<close>: what a context switch saves and restores,
  what an alarm does to the interrupted process, and the remaining parts of \<open>clone\<close> and of the
  signal calls.
\<close>

section \<open>Words in memory\<close>

lemma u64_at_cong: "(\<And>k. k < 8 \<Longrightarrow> f k = g k) \<Longrightarrow> u64_at f 0 = u64_at g 0"
  by (simp add: u64_at_def)

lemma read_write_same [simp]: "read64 (write64 m a v) a = v"
  unfolding read64_def
proof (rule u64_at_bytes)
  fix k :: nat assume "k < 8"
  then have "unat (of_nat k :: u64) = k" by (intro unat_u64_of_nat) simp
  then show "write64 m a v (a + of_nat (0 + k)) = u64_byte v k" using \<open>k < 8\<close> by (simp add: write64_def)
qed

lemma unat_diff_of_nat:
  assumes "a < 2 ^ 64" "b < 2 ^ 64"
  shows "unat (of_nat a - of_nat b :: u64) = (if b \<le> a then a - b else 2 ^ 64 + a - b)"
  using unat_u64_of_nat[OF assms(1)] unat_u64_of_nat[OF assms(2)]
  by (auto simp: unat_sub_if')

lemma read_write_other:
  assumes "x + 8 \<le> y \<or> y + 8 \<le> x" "x + 8 \<le> 2 ^ 64" "y + 8 \<le> 2 ^ 64"
  shows "read64 (write64 m (of_nat x) v) (of_nat y) = read64 m (of_nat y)"
  unfolding read64_def
proof (rule u64_at_cong)
  fix k :: nat assume k: "k < 8"
  have "unat (of_nat (y + k) - of_nat x :: u64) = (if x \<le> y + k then y + k - x else 2 ^ 64 + (y + k) - x)"
    using assms k by (intro unat_diff_of_nat) auto
  then have "\<not> unat (of_nat (y + k) - of_nat x :: u64) < 8" using assms k by (auto split: if_splits)
  then show "write64 m (of_nat x) v (of_nat y + of_nat k) = m (of_nat y + of_nat k)"
    by (simp add: write64_def)
qed

lemma word_at_of_nat: "word_at m (of_nat p) i = read64 m (of_nat (p + 8 * i))"
  by (simp add: word_at_def)

lemma push_all_reads:
  assumes "8 * length vs \<le> s" "s \<le> 2 ^ 64"
  shows "snd (push_all m (of_nat s) vs) = of_nat (s - 8 * length vs)
    \<and> (\<forall>k<length vs. read64 (fst (push_all m (of_nat s) vs)) (of_nat (s - 8 * Suc k)) = vs ! k)
    \<and> (\<forall>y. s \<le> y \<and> y + 8 \<le> 2 ^ 64 \<longrightarrow>
      read64 (fst (push_all m (of_nat s) vs)) (of_nat y) = read64 m (of_nat y))"
  using assms
proof (induction vs arbitrary: m s)
  case (Cons v vs)
  have a: "of_nat s - 8 = (of_nat (s - 8) :: u64)" using Cons.prems(1) by (simp add: of_nat_diff)
  let ?m = "write64 m (of_nat (s - 8)) v"
  have IH: "snd (push_all ?m (of_nat (s - 8)) vs) = of_nat (s - 8 - 8 * length vs)"
    "\<And>k. k < length vs \<Longrightarrow> read64 (fst (push_all ?m (of_nat (s - 8)) vs)) (of_nat (s - 8 - 8 * Suc k)) = vs ! k"
    "\<And>y. s - 8 \<le> y \<Longrightarrow> y + 8 \<le> 2 ^ 64 \<Longrightarrow>
      read64 (fst (push_all ?m (of_nat (s - 8)) vs)) (of_nat y) = read64 ?m (of_nat y)"
    using Cons.IH[of "s - 8" ?m] Cons.prems by auto
  have eq: "push_all m (of_nat s) (v # vs) = push_all ?m (of_nat (s - 8)) vs"
    unfolding push_all.simps a by (rule refl)
  have "read64 (fst (push_all ?m (of_nat (s - 8)) vs)) (of_nat (s - 8 * Suc k)) = (v # vs) ! k"
    if "k < Suc (length vs)" for k
  proof (cases k)
    case 0 then show ?thesis using IH(3)[of "s - 8"] Cons.prems by simp
  next
    case (Suc i)
    have "s - 8 * Suc k = s - 8 - 8 * Suc i" using Suc by simp
    then show ?thesis using IH(2)[of i] Suc that by (simp only:) simp
  qed
  moreover have "read64 (fst (push_all ?m (of_nat (s - 8)) vs)) (of_nat y) = read64 m (of_nat y)"
    if "s \<le> y" "y + 8 \<le> 2 ^ 64" for y
    using IH(3)[of y] read_write_other[of "s - 8" y m v] that Cons.prems by simp
  moreover have "snd (push_all ?m (of_nat (s - 8)) vs) = of_nat (s - 8 * length (v # vs))"
    using IH(1) by (simp add: diff_diff_eq)
  ultimately show ?case unfolding eq by simp
qed simp

section \<open>Accounting and memory\<close>

text \<open>Only the current context can get an alarm, so accounting writes at most one word.\<close>

lemma alarm_only_current:
  assumes "sched_inv m" "j < 16" "alarm_fires (ctxs m ! j)" shows "j = cur m"
  using assms sleep_account_wake[OF assms(1,2)] sched_invD(4)[OF assms(1,2)]
  by (auto simp: alarm_fires_def split: if_splits)

definition alarm_regs :: "machine \<Rightarrow> user_regs \<Rightarrow> user_regs" where
  "alarm_regs m r = r\<lparr>entry_rsp := entry_rsp r - 8, entry_rip := sighandlers (get_current_ctx m) ! 2\<rparr>"

lemma account_one_alarm:
  assumes "i < length (ctxs m)" "alarm_fires (ctxs m ! i)" "i = cur m"
  shows "mem (account_one sv fp i m) = write64 (mem m) (entry_rsp (regs (ctxs m ! i)) - 8)
      (entry_rip (regs (ctxs m ! i)))"
    and "regs (ctxs (account_one sv fp i m) ! i) = alarm_regs m (regs (ctxs m ! i))"
  using assms
  by (auto simp: alarm_fires_def account_one_def Let_def alarm_signal_eq ctxs_upd_ctx
      upd_regs_def alarm_regs_def get_current_ctx_def)

lemma account_alarm:
  assumes inv: "sched_inv m" and m': "m' = do_sleep_and_alarm_account sv fp m"
    and fires: "alarm_fires (ctxs m ! cur m)"
  shows "mem m' = write64 (mem m) (entry_rsp (regs (ctxs m ! cur m)) - 8) (entry_rip (regs (ctxs m ! cur m)))"
    and "regs (ctxs m' ! cur m) = alarm_regs m (regs (ctxs m ! cur m))"
proof -
  let ?c = "cur m"
  define step where "step = (\<lambda>m i. account_one sv fp i m)"
  note l = sched_invD(1,2)[OF inv]
  define m1 where "m1 = foldl step m [0..<?c]"
  define m2 where "m2 = account_one sv fp ?c m1"
  have split: "[0..<16] = [0..<?c] @ ?c # [Suc ?c..<16]"
    using upt_add_eq_append[of 0 ?c "16 - ?c"] upt_conv_Cons[OF l(2)] l(2) by simp
  have m'2: "m' = foldl step m2 [Suc ?c..<16]"
    unfolding m' do_sleep_and_alarm_account_def MAX_PROCESSES_def step_def[symmetric] split
    by (simp add: m1_def m2_def step_def)
  have quiet: "mem (foldl step x js) = mem x \<and> ctxs (foldl step x js) ! ?c = ctxs x ! ?c
      \<and> cur (foldl step x js) = cur x \<and> length (ctxs (foldl step x js)) = 16"
    if "length (ctxs x) = 16" "\<And>j. j \<in> set js \<Longrightarrow> j < 16 \<and> j \<noteq> ?c \<and> \<not> alarm_fires (ctxs x ! j)" "distinct js" for x js
    using that
  proof (induction js arbitrary: x)
    case (Cons j js)
    have j: "j < length (ctxs x)" "j \<noteq> ?c" "\<not> alarm_fires (ctxs x ! j)" using Cons.prems by auto
    have "mem (step x j) = mem x" using account_one_self(2)[OF j(1,3)] by (simp add: step_def)
    moreover have "ctxs (step x j) ! k = ctxs x ! k" if "k < 16" "k \<noteq> j" for k
      using account_one_frame(3)[of k x j sv fp] that Cons.prems(1) by (simp add: step_def)
    moreover have "cur (step x j) = cur x" "length (ctxs (step x j)) = 16"
      using account_one_frame(1,2)[of sv fp j x] Cons.prems(1) by (simp_all add: step_def)
    moreover have "k < 16 \<and> k \<noteq> ?c \<and> \<not> alarm_fires (ctxs (step x j) ! k)" if "k \<in> set js" for k
    proof -
      have "k < 16" "k \<noteq> ?c" "\<not> alarm_fires (ctxs x ! k)" "k \<noteq> j" using Cons.prems(2,3) that by auto
      then show ?thesis using account_one_frame(3)[of k x j sv fp] Cons.prems(1) by (simp add: step_def)
    qed
    ultimately show ?case using Cons.IH[of "step x j"] Cons.prems(3) j(2) l(2) by simp
  qed simp
  have nf: "\<not> alarm_fires (ctxs m ! j)" if "j < 16" "j \<noteq> ?c" for j
    using alarm_only_current[OF inv that(1)] that(2) by blast
  have q1: "mem m1 = mem m" "ctxs m1 ! ?c = ctxs m ! ?c" "cur m1 = ?c" "length (ctxs m1) = 16"
    using quiet[of m "[0..<?c]"] l nf unfolding m1_def by auto
  have f1: "ctxs m1 ! j = ctxs m ! j" if "?c \<le> j" "j < 16" for j
    using account_fold[OF l(1), of ?c m1 sv fp] l(2) that unfolding m1_def step_def by auto
  have c1: "?c < length (ctxs m1)" using q1(4) l(2) by simp
  note a = account_one_alarm[OF c1 _ q1(3)[symmetric], of sv fp, folded m2_def, unfolded q1(2), OF fires]
  have len2: "length (ctxs m2) = 16" using account_one_frame(2)[of sv fp ?c m1] q1(4) by (simp add: m2_def)
  have "ctxs m2 ! j = ctxs m ! j" if "?c < j" "j < 16" for j
    using account_one_frame(3)[of j m1 ?c sv fp] f1[of j] that q1(4) by (simp add: m2_def)
  then have q2: "mem m' = mem m2" "ctxs m' ! ?c = ctxs m2 ! ?c"
    using quiet[of m2 "[Suc ?c..<16]"] len2 nf unfolding m'2 by auto
  have "alarm_regs m1 r = alarm_regs m r" for r
    by (simp add: alarm_regs_def get_current_ctx_def q1(2,3))
  then show "mem m' = write64 (mem m) (entry_rsp (regs (ctxs m ! ?c)) - 8) (entry_rip (regs (ctxs m ! ?c)))"
    "regs (ctxs m' ! ?c) = alarm_regs m (regs (ctxs m ! ?c))"
    using q2 a q1(1) by simp_all
qed

section \<open>The interrupted frame\<close>

text \<open>
  The interrupted registers: the processor and the entry stub have put the frame at \<open>B\<close>, the stack
  of the handler starts at \<open>S\<close> below it, and the word below the user's stack pointer is not part
  of the kernel stack that is used.
\<close>

definition interrupted :: "user_regs \<Rightarrow> nat \<Rightarrow> nat \<Rightarrow> machine \<Rightarrow> bool" where
  "interrupted cpu S B m \<longleftrightarrow> 112 \<le> S \<and> S \<le> B \<and> B + 48 \<le> 2 ^ 64
     \<and> map (word_at (mem m) (of_nat B)) [0..<6]
         = [rbp cpu, entry_rip cpu, entry_cs cpu, entry_rflags cpu, entry_rsp cpu, entry_ss cpu]
     \<and> 8 \<le> unat (entry_rsp cpu)
     \<and> (unat (entry_rsp cpu) \<le> S - 112 \<or> B + 48 \<le> unat (entry_rsp cpu) - 8)"

definition saved_gprs :: "user_regs \<Rightarrow> u64 list" where
  "saved_gprs cpu = [r15 cpu, r14 cpu, r13 cpu, r12 cpu, r11 cpu, r10 cpu, r9 cpu, r8 cpu, rdi cpu,
     rsi cpu, rdx cpu, rcx cpu, rbx cpu, rax cpu]"

definition frame_words :: "user_regs \<Rightarrow> u64 list" where
  "frame_words cpu =
     [rbp cpu, entry_rip cpu, entry_cs cpu, entry_rflags cpu, entry_rsp cpu, entry_ss cpu]"

definition holds :: "memory \<Rightarrow> nat \<Rightarrow> u64 list \<Rightarrow> bool" where
  "holds mm p ws \<longleftrightarrow> (\<forall>i<length ws. word_at mm (of_nat p) i = ws ! i)"

lemma interruptedD:
  assumes "interrupted cpu S B m"
  shows "112 \<le> S" "S \<le> B" "B + 48 \<le> 2 ^ 64" "holds (mem m) B (frame_words cpu)"
    and "\<exists>U. entry_rsp cpu - 8 = of_nat U \<and> U + 8 \<le> 2 ^ 64 \<and> (U + 8 \<le> S - 112 \<or> B + 48 \<le> U)"
proof -
  note a = assms[unfolded interrupted_def]
  show "112 \<le> S" "S \<le> B" "B + 48 \<le> 2 ^ 64" using a by blast+
  have "map (word_at (mem m) (of_nat B)) [0..<6] = frame_words cpu"
    using a unfolding frame_words_def by blast
  then show "holds (mem m) B (frame_words cpu)"
    unfolding holds_def by (metis add_0 diff_zero length_map length_upt nth_map nth_upt)
  define U where "U = unat (entry_rsp cpu) - 8"
  have "U + 8 = unat (entry_rsp cpu)" using a by (simp add: U_def)
  moreover have "unat (entry_rsp cpu) < 2 ^ 64" using unsigned_less[of "entry_rsp cpu"] by simp
  moreover have "entry_rsp cpu - 8 = of_nat U"
    using a by (simp add: U_def of_nat_diff)
  ultimately show "\<exists>U. entry_rsp cpu - 8 = of_nat U \<and> U + 8 \<le> 2 ^ 64 \<and> (U + 8 \<le> S - 112 \<or> B + 48 \<le> U)"
    using a by (intro exI[of _ U]) auto
qed

lemma holds_write:
  assumes "holds mm p ws" "U + 8 \<le> p \<or> p + 8 * length ws \<le> U" "U + 8 \<le> 2 ^ 64" "p + 8 * length ws \<le> 2 ^ 64"
  shows "holds (write64 mm (of_nat U) v) p ws"
  unfolding holds_def word_at_of_nat
proof (intro allI impI)
  fix i assume i: "i < length ws"
  have "read64 (write64 mm (of_nat U) v) (of_nat (p + 8 * i)) = read64 mm (of_nat (p + 8 * i))"
    using assms(2-4) i by (intro read_write_other) auto
  then show "read64 (write64 mm (of_nat U) v) (of_nat (p + 8 * i)) = ws ! i"
    using assms(1) i by (simp add: holds_def word_at_of_nat)
qed

text \<open>Pushing in one order is reading in the other.\<close>

lemma push_all_holds:
  assumes "8 * length vs \<le> s" "s \<le> 2 ^ 64"
  shows "holds (fst (push_all m (of_nat s) vs)) (s - 8 * length vs) (rev vs)"
  unfolding holds_def word_at_of_nat
proof (intro allI impI)
  fix i assume i: "i < length (rev vs)"
  define k where "k = length vs - Suc i"
  have "s - 8 * length vs + 8 * i = s - 8 * Suc k" using i assms(1) by (simp add: k_def)
  moreover have "rev vs ! i = vs ! k" using i by (simp add: rev_nth k_def)
  ultimately show "read64 (fst (push_all m (of_nat s) vs)) (of_nat (s - 8 * length vs + 8 * i)) = rev vs ! i"
    using push_all_reads[OF assms, of m] i by (simp add: k_def)
qed

lemma push_all_keeps:
  assumes "8 * length vs \<le> s" "s \<le> p" "p + 8 * length ws \<le> 2 ^ 64" "holds m p ws"
  shows "holds (fst (push_all m (of_nat s) vs)) p ws"
  unfolding holds_def word_at_of_nat
proof (intro allI impI)
  fix i assume i: "i < length ws"
  have "s \<le> p + 8 * i" "p + 8 * i + 8 \<le> 2 ^ 64" "s \<le> 2 ^ 64" using assms(2,3) i by simp_all
  then have "read64 (fst (push_all m (of_nat s) vs)) (of_nat (p + 8 * i)) = read64 m (of_nat (p + 8 * i))"
    using push_all_reads[OF assms(1), of m] by blast
  then show "read64 (fst (push_all m (of_nat s) vs)) (of_nat (p + 8 * i)) = ws ! i"
    using assms(4) i by (simp add: holds_def word_at_of_nat)
qed

lemma before_account_holds:
  assumes i: "interrupted cpu S B m" and c: "cur m < length (ctxs m)"
    and b: "b = before_account cpu (of_nat S) (of_nat B) m"
  shows "holds (mem b) (S - 112) (saved_gprs cpu)" "holds (mem b) B (frame_words cpu)"
    and "ctxs b ! cur m = upd_regs (\<lambda>r. r\<lparr>rbp := rbp cpu, entry_rsp := entry_rsp cpu,
      entry_rip := entry_rip cpu\<rparr>) (ctxs m ! cur m)"
proof -
  define mm where "mm = fst (push_all (mem m) (of_nat S) (rev (saved_gprs cpu)))"
  have len: "length (saved_gprs cpu) = 14" "length (frame_words cpu) = 6"
    by (simp_all add: saved_gprs_def frame_words_def)
  have "mem b = mm" unfolding b before_account_def mm_def saved_gprs_def
    by (simp add: Let_def split_beta)
  moreover have "holds mm (S - 112) (saved_gprs cpu)"
    using push_all_holds[of "rev (saved_gprs cpu)" S "mem m"] interruptedD(1-3)[OF i] len by (simp add: mm_def)
  moreover have f: "holds mm B (frame_words cpu)"
    unfolding mm_def by (rule push_all_keeps) (use interruptedD(1-4)[OF i] len in simp_all)
  ultimately show "holds (mem b) (S - 112) (saved_gprs cpu)" "holds (mem b) B (frame_words cpu)" by simp_all
  have "word_at mm (of_nat B) 0 = rbp cpu" "word_at mm (of_nat B) 1 = entry_rip cpu"
    "word_at mm (of_nat B) 4 = entry_rsp cpu"
    using f[unfolded holds_def, rule_format, of 0] f[unfolded holds_def, rule_format, of 1]
      f[unfolded holds_def, rule_format, of 4] by (simp_all add: frame_words_def)
  then show "ctxs b ! cur m = upd_regs (\<lambda>r. r\<lparr>rbp := rbp cpu, entry_rsp := entry_rsp cpu,
      entry_rip := entry_rip cpu\<rparr>) (ctxs m ! cur m)"
    using c unfolding b before_account_def mm_def saved_gprs_def
    by (simp add: Let_def split_beta ctxs_upd_ctx)
qed

text \<open>The registers the process goes on with when it keeps the processor.\<close>

definition resumed :: "machine \<Rightarrow> user_regs \<Rightarrow> user_regs" where
  "resumed m cpu = (if alarm_fires (ctxs m ! cur m) then alarm_regs m cpu else cpu)"

lemma alarm_fires_upd_regs [simp]: "alarm_fires (upd_regs f c) = alarm_fires c"
  by (simp add: alarm_fires_def sleep_account_regs) (simp add: upd_regs_def)

lemma at_pick_holds:
  assumes inv: "sched_inv m" and i: "interrupted cpu S B m"
    and a: "a = at_pick sv cpu (of_nat S) (of_nat B) fp m"
  shows "holds (mem a) (S - 112) (saved_gprs cpu)" "holds (mem a) B (frame_words cpu)"
    and "entry_rip (regs (ctxs a ! cur m)) = entry_rip (resumed m cpu)"
      "entry_rsp (regs (ctxs a ! cur m)) = entry_rsp (resumed m cpu)"
    and "j < 16 \<Longrightarrow> j \<noteq> cur m \<Longrightarrow> regs (ctxs a ! j) = regs (ctxs m ! j)"
    and "alarm_fires (ctxs m ! cur m) \<Longrightarrow> read64 (mem a) (entry_rsp cpu - 8) = entry_rip cpu"
proof -
  define b where "b = before_account cpu (of_nat S) (of_nat B) m"
  let ?c = "cur m" and ?f = "\<lambda>r. r\<lparr>rbp := rbp cpu, entry_rsp := entry_rsp cpu, entry_rip := entry_rip cpu\<rparr>"
  have c: "?c < length (ctxs m)" using sched_invD(1,2)[OF inv] by simp
  note v = before_account_view[OF c, where cpu = cpu and rsp = "of_nat S" and rb = "of_nat B", folded b_def]
    and h = before_account_holds[OF i c b_def]
  have binv: "sched_inv b" unfolding b_def by (rule before_account_inv[OF inv])
  have ab: "a = do_sleep_and_alarm_account sv fp b" by (simp add: a at_pick_def b_def)
  have fires: "alarm_fires (ctxs b ! ?c) = alarm_fires (ctxs m ! ?c)" using h(3) by simp
  have len: "length (saved_gprs cpu) = 14" "length (frame_words cpu) = 6"
    by (simp_all add: saved_gprs_def frame_words_def)
  have other: "\<not> alarm_fires (ctxs b ! j)" if "j < 16" "j \<noteq> ?c" for j
    using alarm_only_current[OF binv that(1)] that(2) v(1) by auto
  note all = account_all[OF sched_invD(1)[OF binv] ab]
  show "regs (ctxs a ! j) = regs (ctxs m ! j)" if "j < 16" "j \<noteq> ?c"
    using all(3)[OF that(1)] other[OF that] v(3)[of j] that sched_invD(1)[OF inv] by (simp add: accounted_def)
  have "holds (mem a) (S - 112) (saved_gprs cpu) \<and> holds (mem a) B (frame_words cpu)
    \<and> entry_rip (regs (ctxs a ! ?c)) = entry_rip (resumed m cpu)
    \<and> entry_rsp (regs (ctxs a ! ?c)) = entry_rsp (resumed m cpu)
    \<and> (alarm_fires (ctxs m ! ?c) \<longrightarrow> read64 (mem a) (entry_rsp cpu - 8) = entry_rip cpu)"
  proof (cases "alarm_fires (ctxs m ! ?c)")
    case False
    have "mem a = mem b" using all(4) other False fires by blast
    moreover have "regs (ctxs a ! ?c) = ?f (regs (ctxs m ! ?c))"
      using all(3)[of ?c] False fires h(3) sched_invD(2)[OF inv] by (simp add: accounted_def upd_regs_def)
    ultimately show ?thesis using h(1,2) False by (simp add: resumed_def)
  next
    case True
    have "alarm_fires (ctxs b ! cur b)" using True fires v(1) by simp
    note al = account_alarm[OF binv ab this, unfolded v(1) h(3)]
    obtain U where U: "entry_rsp cpu - 8 = of_nat U" "U + 8 \<le> 2 ^ 64" "U + 8 \<le> S - 112 \<or> B + 48 \<le> U"
      using interruptedD(5)[OF i] by blast
    have m: "mem a = write64 (mem b) (of_nat U) (entry_rip cpu)" using al(1) U(1) by (simp add: upd_regs_def)
    have r: "regs (ctxs a ! ?c) = alarm_regs b (?f (regs (ctxs m ! ?c)))" using al(2) by (simp add: upd_regs_def)
    have "sighandlers (get_current_ctx b) = sighandlers (get_current_ctx m)"
      using h(3) by (simp add: get_current_ctx_def v(1) upd_regs_def)
    moreover have "U + 8 \<le> S - 112 \<or> S \<le> U" "U + 8 \<le> B \<or> B + 48 \<le> U"
      using interruptedD(1-3)[OF i] U(3) by auto
    ultimately show ?thesis
      using holds_write[OF h(1), of U] holds_write[OF h(2), of U] interruptedD(1-3)[OF i] U len m r True
      by (simp add: resumed_def alarm_regs_def)
  qed
  then show "holds (mem a) (S - 112) (saved_gprs cpu)" "holds (mem a) B (frame_words cpu)"
    "entry_rip (regs (ctxs a ! ?c)) = entry_rip (resumed m cpu)"
    "entry_rsp (regs (ctxs a ! ?c)) = entry_rsp (resumed m cpu)"
    "alarm_fires (ctxs m ! ?c) \<Longrightarrow> read64 (mem a) (entry_rsp cpu - 8) = entry_rip cpu" by blast+
qed

text \<open>Loading what was saved gives the registers back.\<close>

lemma load_saved:
  assumes "holds mm p (saved_gprs cpu)" "holds mm' q (frame_words cpu)"
  shows "(load_frame (word_at mm' (of_nat q)) (load_gprs (word_at mm (of_nat p)) r))
      \<lparr>rax := word_at mm (of_nat p) 13\<rparr> = cpu"
proof -
  note g = assms(1)[unfolded holds_def, rule_format] and f = assms(2)[unfolded holds_def, rule_format]
  have "map (word_at mm (of_nat p)) [0..<14] = saved_gprs cpu"
    by (rule nth_equalityI) (use g in \<open>auto simp: saved_gprs_def\<close>)
  moreover have "map (word_at mm' (of_nat q)) [0..<6] = frame_words cpu"
    by (rule nth_equalityI) (use f in \<open>auto simp: frame_words_def\<close>)
  ultimately show ?thesis
    by (simp add: load_frame_def load_gprs_def saved_gprs_def frame_words_def upt_rec eval_nat_numeral)
qed

section \<open>Resuming and switching\<close>

text \<open>The kernel's memory is mapped at its physical addresses, which is what \<open>translate\<close> relies on.\<close>

definition direct_mapped :: "services \<Rightarrow> bool" where
  "direct_mapped sv \<longleftrightarrow> (\<forall>p. osmap sv p = push_bit 12 p)"

lemma translate_direct: "direct_mapped sv \<Longrightarrow> translate sv a = a"
proof (rule bit_word_eqI)
  fix k assume "direct_mapped sv" "k < LENGTH(64)"
  moreover have "bit (0xFFF :: u64) k \<longleftrightarrow> k < 12"
  proof -
    have "(0xFFF :: u64) = mask 12" by (simp add: mask_eq_exp_minus_1)
    then show ?thesis using \<open>k < LENGTH(64)\<close> bit_mask_iff[of 12 k, where 'a = "64 word"]
      by (simp only:) auto
  qed
  ultimately show "bit (translate sv a) k = bit a k"
    by (auto simp: translate_def direct_mapped_def bit_or_iff bit_and_iff bit_push_bit_iff bit_drop_bit_eq)
qed

text \<open>What a tick does, by whether the current process keeps the processor.\<close>

lemma tick_cases:
  assumes inv: "sched_inv m" and run: "handle_timer_tick sv cpu rsp rb fp m = Iret cpu' m'"
    and a: "a = at_pick sv cpu rsp rb fp m"
  shows "cur m' = cur m \<Longrightarrow> (let r = regs (ctxs a ! cur m);
      mm = write64 (write64 (mem a) (rb + 8) (entry_rip r)) (rb + 32) (entry_rsp r); g = word_at mm (rsp - 112)
      in mem m' = mm \<and> cpu' = (load_frame (word_at mm rb) (load_gprs g cpu))\<lparr>rax := g 13\<rparr>)"
    and "cur m' \<noteq> cur m \<Longrightarrow>
      schedule_context (cur m') True fp (save_current_context sv READY (rsp - 112) rb False a) = Iret cpu' m'"
proof -
  note v = at_pick_view[OF inv, where sv = sv and cpu = cpu and rsp = rsp and rb = rb and fp = fp, folded a]
  have n: "pick_next_context (ctxs a) = Some (cur m')" using tick_view(1)[OF inv run] a by simp
  have pid: "pid (ctxs a ! cur m') = pid (get_current_ctx a) \<longleftrightarrow> cur m' = cur m"
    using pick_pid[OF v(1) n] by (simp add: v(2))
  note r = run[unfolded tick_unfold Let_def, folded at_pick_def, folded a, unfolded n option.case pid]
  show "let r = regs (ctxs a ! cur m);
      mm = write64 (write64 (mem a) (rb + 8) (entry_rip r)) (rb + 32) (entry_rsp r); g = word_at mm (rsp - 112)
      in mem m' = mm \<and> cpu' = (load_frame (word_at mm rb) (load_gprs g cpu))\<lparr>rax := g 13\<rparr>" if "cur m' = cur m"
    using r that by (auto simp: Let_def get_current_ctx_def v(2))
  show "schedule_context (cur m') True fp (save_current_context sv READY (rsp - 112) rb False a) = Iret cpu' m'"
    if "cur m' \<noteq> cur m" using r that by simp
qed

lemma write_frame_holds:
  assumes "F + 48 \<le> 2 ^ 64"
  shows "map (word_at (write_frame (of_nat F) r mm) (of_nat F)) [0..<6] = frame_words r"
proof -
  have e: "of_nat F + 8 = (of_nat (F + 8) :: u64)" "of_nat F + 16 = (of_nat (F + 16) :: u64)"
    "of_nat F + 24 = (of_nat (F + 24) :: u64)" "of_nat F + 32 = (of_nat (F + 32) :: u64)"
    "of_nat F + 40 = (of_nat (F + 40) :: u64)" by simp_all
  have w: "read64 (write64 x (of_nat (F + i)) v) (of_nat (F + j)) = read64 x (of_nat (F + j))"
    if "i + 8 \<le> j \<or> j + 8 \<le> i" "i + 8 \<le> 48" "j + 8 \<le> 48" for x v i j
    by (rule read_write_other) (use that assms in auto)
  have w0: "read64 (write64 x (of_nat (F + i)) v) (of_nat F) = read64 x (of_nat F)"
    if "8 \<le> i" "i + 8 \<le> 48" for x v i using w[of i 0] that by simp
  have n: "word_at x (of_nat F) 0 = read64 x (of_nat F)" "word_at x (of_nat F) 1 = read64 x (of_nat (F + 8))"
    "word_at x (of_nat F) 2 = read64 x (of_nat (F + 16))" "word_at x (of_nat F) 3 = read64 x (of_nat (F + 24))"
    "word_at x (of_nat F) 4 = read64 x (of_nat (F + 32))" "word_at x (of_nat F) 5 = read64 x (of_nat (F + 40))" for x
    by (simp_all add: word_at_def)
  have six: "[0..<6] = [0, 1, 2, 3, 4, 5 :: nat]" by (simp add: upt_rec)
  show ?thesis
    unfolding six list.map n write_frame_def e frame_words_def by (simp add: w w0 del: of_nat_add)
qed

lemma write_frame_reads:
  assumes "F + 48 \<le> 2 ^ 64"
  shows "load_frame (word_at (write_frame (of_nat F) r mm) (of_nat F)) r = r"
  using write_frame_holds[OF assms, of r mm]
  by (simp add: load_frame_def frame_words_def upt_rec eval_nat_numeral)

lemma save_current_regs:
  assumes "cur a < length (ctxs a)" "direct_mapped sv"
    "holds (mem a) p (saved_gprs cpu)" "holds (mem a) q (frame_words cpu)"
  shows "regs (ctxs (save_current_context sv st (of_nat p) (of_nat q) False a) ! cur a) = cpu"
proof -
  have "regs (ctxs (save_current_context sv st (of_nat p) (of_nat q) False a) ! cur a)
    = (load_gprs (word_at (mem a) (of_nat p)) (load_frame (word_at (mem a) (of_nat q)) (regs (ctxs a ! cur a))))
        \<lparr>rax := word_at (mem a) (of_nat p) 13\<rparr>"
    using assms(1) by (simp add: save_current_context_def Let_def ctxs_upd_ctx upd_regs_def translate_direct[OF assms(2)])
  also have "\<dots> = (load_frame (word_at (mem a) (of_nat q)) (load_gprs (word_at (mem a) (of_nat p)) (regs (ctxs a ! cur a))))
        \<lparr>rax := word_at (mem a) (of_nat p) 13\<rparr>"
    by (simp add: load_frame_def load_gprs_def)
  also have "\<dots> = cpu" using load_saved assms(3,4) by blast
  finally show ?thesis .
qed

text \<open>The handler writes two words of the frame back.\<close>

lemma frame_patched:
  assumes h: "holds mm B (frame_words cpu)" and b: "B + 48 \<le> 2 ^ 64"
    and same: "rbp r = rbp cpu" "entry_cs r = entry_cs cpu" "entry_rflags r = entry_rflags cpu"
      "entry_ss r = entry_ss cpu"
  shows "holds (write64 (write64 mm (of_nat (B + 8)) (entry_rip r)) (of_nat (B + 32)) (entry_rsp r)) B
    (frame_words r)"
  unfolding holds_def
proof (intro allI impI)
  fix k assume "k < length (frame_words r)"
  then have k6: "k < 6" by (simp add: frame_words_def)
  have o: "read64 (write64 x (of_nat (B + p)) v) (of_nat (B + 8 * k)) = read64 x (of_nat (B + 8 * k))"
    if "p \<in> {8, 32}" "p \<noteq> 8 * k" for x p v
    by (rule read_write_other) (use that k6 b in auto)
  have f: "read64 mm (of_nat (B + 8 * k)) = frame_words cpu ! k"
    using h k6 by (simp add: holds_def word_at_of_nat frame_words_def)
  have e: "frame_words cpu ! k = frame_words r ! k" if "k \<noteq> 1" "k \<noteq> 4"
    using that k6 same by (auto simp: frame_words_def nth_Cons split: nat.split)
  consider "k = 1" | "k = 4" | "k \<noteq> 1" "k \<noteq> 4" by blast
  then show "word_at (write64 (write64 mm (of_nat (B + 8)) (entry_rip r)) (of_nat (B + 32)) (entry_rsp r))
      (of_nat B) k = frame_words r ! k"
    by cases (use o[of 8] o[of 32] f e in \<open>simp_all add: word_at_of_nat frame_words_def del: of_nat_add\<close>)
qed

lemma tick_keeps:
  assumes inv: "sched_inv m" and i: "interrupted cpu S B m"
    and run: "handle_timer_tick sv cpu (of_nat S) (of_nat B) fp m = Iret cpu' m'" and keep: "cur m' = cur m"
  shows "cpu' = resumed m cpu
    \<and> (alarm_fires (ctxs m ! cur m) \<longrightarrow> read64 (mem m') (entry_rsp cpu') = entry_rip cpu)"
proof -
  define a where "a = at_pick sv cpu (of_nat S) (of_nat B) fp m"
  define mm where "mm = write64 (write64 (mem a) (of_nat (B + 8)) (entry_rip (resumed m cpu)))
    (of_nat (B + 32)) (entry_rsp (resumed m cpu))"
  note h = at_pick_holds[OF inv i a_def]
  note b = interruptedD(1-3)[OF i]
  have S: "of_nat S - 112 = (of_nat (S - 112) :: u64)" using b(1) by (simp add: of_nat_diff)
  have B: "of_nat B + 8 = (of_nat (B + 8) :: u64)" "of_nat B + 32 = (of_nat (B + 32) :: u64)" by simp_all
  note t = tick_cases(1)[OF inv run a_def keep, unfolded Let_def h(3,4) S B, folded mm_def]
  have len: "length (saved_gprs cpu) = 14" "length (frame_words cpu) = 6"
    by (simp_all add: saved_gprs_def frame_words_def)
  have "holds mm (S - 112) (saved_gprs cpu)"
    unfolding mm_def by (intro holds_write h(1)) (use b len in auto)
  then have g: "holds mm (S - 112) (saved_gprs (resumed m cpu))"
    by (simp add: saved_gprs_def resumed_def alarm_regs_def)
  from frame_patched[OF h(2) b(3), where r = "resumed m cpu"] have "holds mm B (frame_words (resumed m cpu))"
    by (simp add: mm_def resumed_def alarm_regs_def del: of_nat_add)
  from load_saved[OF g this, of cpu] have cpu': "cpu' = resumed m cpu" using t by simp
  obtain U where U: "entry_rsp cpu - 8 = of_nat U" "U + 8 \<le> 2 ^ 64" "U + 8 \<le> S - 112 \<or> B + 48 \<le> U"
    using interruptedD(5)[OF i] by blast
  have "read64 mm (of_nat U) = entry_rip cpu" if "alarm_fires (ctxs m ! cur m)"
  proof -
    have "read64 (write64 x (of_nat (B + p)) v) (of_nat U) = read64 x (of_nat U)" if "p \<in> {8, 32}" for x p v
      by (rule read_write_other) (use that U b in auto)
    then show ?thesis using h(6)[OF that] U(1) by (simp add: mm_def del: of_nat_add)
  qed
  then show ?thesis using cpu' t U(1) by (simp add: resumed_def alarm_regs_def)
qed

section \<open>A concrete tick\<close>

text \<open>The frame of process 1 is on the kernel stack; \<open>demo_lone\<close> has no other user process, and its alarm is due.\<close>

definition demo_frame :: machine where
  "demo_frame = demo_machine\<lparr>mem := write_frame (of_nat 0x9000) (demo_regs 1) (\<lambda>_. 0)\<rparr>"

definition demo_lone :: "u64 \<Rightarrow> machine" where
  "demo_lone handler = upd_ctx 2 (\<lambda>c. c\<lparr>state := UNUSED\<rparr>) (upd_ctx 1 (\<lambda>c. c\<lparr>ticks_to_alarm := 1,
     alarm_config_time := 5, sighandlers := [0, 0, handler]\<rparr>) demo_frame)"

lemma demo_interrupted: "interrupted (demo_regs 1) 0x8800 0x9000 demo_frame"
    "interrupted (demo_regs 1) 0x8800 0x9000 (demo_lone h)"
proof -
  define u where "u = write_frame (of_nat 0x9000) (demo_regs 1) (\<lambda>_. 0)"
  have "map (word_at u (of_nat 0x9000)) [0..<6] = frame_words (demo_regs 1)"
    unfolding u_def by (rule write_frame_holds) simp
  moreover have "unat (entry_rsp (demo_regs 1)) = 0x7FFFFF000" by (simp add: demo_regs_def)
  moreover have "mem demo_frame = u" "mem (demo_lone h) = u"
    unfolding demo_lone_def upd_ctx_simps by (simp_all add: demo_frame_def u_def)
  ultimately show "interrupted (demo_regs 1) 0x8800 0x9000 demo_frame"
    "interrupted (demo_regs 1) 0x8800 0x9000 (demo_lone h)"
    unfolding interrupted_def frame_words_def by (simp_all del: of_nat_numeral)
qed

lemma demo_frame_inv: "sched_inv demo_frame" "cur demo_frame = 1" "ctxs demo_frame = ctxs demo_machine"
  using demo_machine_inv by (simp_all add: demo_frame_def demo_ctxs)

lemma demo_lone_ctxs:
  "j < 16 \<Longrightarrow> ctxs (demo_lone h) ! j = (if j = 1 then (demo_ctx 1)\<lparr>ticks_to_alarm := 1, alarm_config_time := 5,
     sighandlers := [0, 0, h]\<rparr> else if j = 2 then (demo_ctx 2)\<lparr>state := UNUSED\<rparr> else demo_ctx j)"
  "cur (demo_lone h) = 1" "length (ctxs (demo_lone h)) = 16"
  using sched_invD(1)[OF demo_frame_inv(1)]
  by (auto simp: demo_lone_def ctxs_upd_ctx demo_frame_inv(2,3) demo_ctxs)

lemma demo_lone_inv: "sched_inv (demo_lone h)" "alarm_fires (ctxs (demo_lone h) ! 1)"
    "sighandlers (get_current_ctx (demo_lone h)) = [0, 0, h]"
  by (auto simp: sched_inv_def only_running_def pids_ok_def in_use_def demo_lone_ctxs demo_ctx_def demo_state_def alarm_fires_def
      sleep_account_def get_current_ctx_def)

lemma demo_lone_tick:
  "\<exists>cpu' m'. handle_timer_tick demo_sv (demo_regs 1) (of_nat 0x8800) (of_nat 0x9000) fp (demo_lone h) = Iret cpu' m'
    \<and> cur m' = cur (demo_lone h)"
proof -
  note inv = demo_lone_inv(1)[of h]
  obtain cpu' m' where run: "handle_timer_tick demo_sv (demo_regs 1) (of_nat 0x8800) (of_nat 0x9000) fp (demo_lone h) = Iret cpu' m'"
    using tick_returns[OF inv, of 1 demo_sv "demo_regs 1" "of_nat 0x8800" "of_nat 0x9000" fp]
    by (simp add: demo_lone_ctxs alive_def demo_ctx_def demo_state_def) blast
  note v = at_pick_view[OF inv] and t = tick_view(1)[OF inv run]
  note p = pick_running[OF sched_invD(3)[OF v(1)] t]
  have "state (sleep_account (ctxs (demo_lone h) ! j)) \<noteq> READY" if "1 \<le> j" "j < 16" for j
    using that by (auto simp: sleep_account_def demo_lone_ctxs demo_ctx_def demo_state_def)
  then have "cur m' = cur (demo_lone h)"
    using p(1-3) v(2,3) by (metis One_nat_def Suc_leI demo_lone_ctxs(2) gr0I zero_neq_one)
  then show ?thesis using run by blast
qed

text \<open>
  C29: A process that keeps the processor over a tick goes on with exactly the registers it was
  interrupted with, except when its alarm fires: then, if it has registered a handler for the alarm,
  it goes on in that handler, with the interrupted instruction pointer pushed on its stack. An alarm
  without a registered handler is not covered.
\<close>

theorem tick_resumes:
  assumes "sched_inv m" "interrupted cpu S B m"
    and "handle_timer_tick sv cpu (of_nat S) (of_nat B) fp m = Iret cpu' m'" "cur m' = cur m"
    and "alarm_fires (ctxs m ! cur m) \<longrightarrow> sighandlers (ctxs m ! cur m) ! 2 \<noteq> 0"
  shows "if alarm_fires (ctxs m ! cur m)
    then cpu' = cpu\<lparr>entry_rsp := entry_rsp cpu - 8, entry_rip := sighandlers (ctxs m ! cur m) ! 2\<rparr>
      \<and> read64 (mem m') (entry_rsp cpu') = entry_rip cpu
    else cpu' = cpu"
  using tick_keeps[OF assms(1-4)] by (auto simp: resumed_def alarm_regs_def get_current_ctx_def)

theorem tick_resumes_witness:
  "\<exists>cpu' m'. handle_timer_tick demo_sv (demo_regs 1) (of_nat 0x8800) (of_nat 0x9000) 0 (demo_lone 0x5000) = Iret cpu' m'
    \<and> entry_rip cpu' = 0x5000 \<and> read64 (mem m') (entry_rsp cpu') = 0x100000000"
proof -
  obtain cpu' m' where r: "handle_timer_tick demo_sv (demo_regs 1) (of_nat 0x8800) (of_nat 0x9000) 0 (demo_lone 0x5000) = Iret cpu' m'"
    "cur m' = cur (demo_lone 0x5000)" using demo_lone_tick by blast
  from tick_resumes[OF demo_lone_inv(1) demo_interrupted(2) r] show ?thesis
    using r demo_lone_inv(2)[of "0x5000"] demo_lone_inv(3)[of "0x5000"] by (auto simp: demo_lone_ctxs demo_regs_def get_current_ctx_def)
qed

text \<open>
  An alarm without a handler should be ignored, but is not: the process goes on at address 0
  instead of where it was interrupted.
\<close>

theorem alarm_without_handler:
  assumes "sched_inv m" "interrupted cpu S B m"
    and "handle_timer_tick sv cpu (of_nat S) (of_nat B) fp m = Iret cpu' m'" "cur m' = cur m"
    and "ticks_to_alarm (ctxs m ! cur m) = 1" "sighandlers (ctxs m ! cur m) ! 2 = 0"
  shows "entry_rip cpu' = 0"
proof -
  have "alarm_fires (ctxs m ! cur m)"
    using assms(5) sched_invD(2)[OF assms(1)] sched_invD(4)[OF assms(1), of "cur m"]
      sched_invD(6)[OF assms(1), of "cur m"] sleep_account_wake[OF assms(1), of "cur m"]
    by (simp add: alarm_fires_def)
  then show ?thesis
    using tick_keeps[OF assms(1-4)] assms(6) by (simp add: resumed_def alarm_regs_def get_current_ctx_def)
qed

theorem alarm_without_handler_witness:
  "\<exists>cpu' m'. handle_timer_tick demo_sv (demo_regs 1) (of_nat 0x8800) (of_nat 0x9000) 0 (demo_lone 0) = Iret cpu' m'
    \<and> entry_rip cpu' = 0"
proof -
  obtain cpu' m' where r: "handle_timer_tick demo_sv (demo_regs 1) (of_nat 0x8800) (of_nat 0x9000) 0 (demo_lone 0) = Iret cpu' m'"
    "cur m' = cur (demo_lone 0)" using demo_lone_tick by blast
  from alarm_without_handler[OF demo_lone_inv(1) demo_interrupted(2) r] show ?thesis
    using r by (auto simp: demo_lone_ctxs)
qed

text \<open>
  C28: A context switch is exact: when a tick gives the processor to another process, the whole
  register file of the interrupted process is saved in its context, and the other process gets the
  register file that is saved in its own. An alarm that fires in the same tick is lost for the
  interrupted process, because the save overwrites the registers the signal has set.
\<close>

theorem tick_switches:
  assumes inv: "sched_inv m" and i: "interrupted cpu S B m" and map: "direct_mapped sv"
    and F: "F + 48 \<le> 2 ^ 64"
    and run: "handle_timer_tick sv cpu (of_nat S) (of_nat B) (of_nat F) m = Iret cpu' m'"
    and other: "cur m' \<noteq> cur m"
  shows "regs (ctxs m' ! cur m) = cpu \<and> cpu' = regs (ctxs m ! cur m') \<and> regs (ctxs m' ! cur m') = cpu'"
proof -
  define a where "a = at_pick sv cpu (of_nat S) (of_nat B) (of_nat F) m"
  define s where "s = save_current_context sv READY (of_nat (S - 112)) (of_nat B) False a"
  note h = at_pick_holds[OF inv i a_def]
  have S: "of_nat S - 112 = (of_nat (S - 112) :: u64)" using interruptedD(1)[OF i] by (simp add: of_nat_diff)
  note t = tick_cases(2)[OF inv run a_def other, unfolded S, folded s_def]
  note v = at_pick_view[OF inv, where sv = sv and cpu = cpu and rsp = "of_nat S" and rb = "of_nat B"
    and fp = "of_nat F", folded a_def]
  have l: "length (ctxs a) = 16" "cur m < 16" using sched_invD(1,2)[OF v(1)] v(2) by simp_all
  have n: "cur m' < 16" using sched_invD(2) tick_view(2)[OF inv run] by blast
  have sl: "length (ctxs s) = 16" using save_current_view(3) l(1) by (simp add: s_def)
  have sm: "regs (ctxs s ! cur m) = cpu"
    using save_current_regs[OF _ map h(1,2), of READY] l v(2) by (simp add: s_def)
  have sn: "regs (ctxs s ! cur m') = regs (ctxs m ! cur m')"
    using save_current_view(4)[of "cur m'" a sv READY "of_nat (S - 112)" "of_nat B" False] l n other v(2) h(5)[OF n other]
    by (simp add: s_def)
  have m': "ctxs m' = (ctxs s)[cur m' := (ctxs s ! cur m')\<lparr>state := RUNNING\<rparr>]"
    using schedule_context_view[OF t] by auto
  have "cpu' = load_frame (word_at (write_frame (of_nat F) (regs (ctxs s ! cur m')) (mem s)) (of_nat F)) (regs (ctxs s ! cur m'))"
    using t sl n by (auto simp: schedule_context_def Let_def upd_ctx_def emit_def)
  then have "cpu' = regs (ctxs s ! cur m')" using write_frame_reads[OF F] by simp
  then show ?thesis using m' sm sn n sl other l(2) by simp
qed

theorem tick_switches_witness:
  "\<exists>cpu' m'. handle_timer_tick demo_sv (demo_regs 1) (of_nat 0x8800) (of_nat 0x9000) (of_nat 0x8700) demo_frame = Iret cpu' m'
    \<and> regs (ctxs m' ! 1) = demo_regs 1 \<and> cpu' = demo_regs 2"
proof -
  note inv = demo_frame_inv(1)
  obtain cpu' m' where r: "handle_timer_tick demo_sv (demo_regs 1) (of_nat 0x8800) (of_nat 0x9000) (of_nat 0x8700) demo_frame = Iret cpu' m'"
    using tick_returns[OF inv, of 1 demo_sv "demo_regs 1" "of_nat 0x8800" "of_nat 0x9000" "of_nat 0x8700"]
    by (simp add: demo_frame_inv demo_ctxs alive_def demo_ctx_def demo_state_def) blast
  note v = at_pick_view[OF inv]
  have "state (sleep_account (ctxs demo_frame ! 2)) = READY"
    by (simp add: sleep_account_def demo_frame_inv demo_ctxs demo_ctx_def demo_state_def)
  then have "dist (cur m') 2 < dist 1 2"
    using pick_running(4)[OF sched_invD(3)[OF v(1)] tick_view(1)[OF inv r], of 2] v(2,3) demo_frame_inv(2) by simp
  moreover have "cur m' < 16" using sched_invD(2) tick_view(2)[OF inv r] by blast
  ultimately have c: "cur m' = 2" by (auto simp: dist_def split: if_splits)
  have "direct_mapped demo_sv" by (simp add: direct_mapped_def demo_sv_def)
  from tick_switches[OF inv demo_interrupted(1) this _ r] show ?thesis
    using r c by (auto simp: demo_frame_inv demo_ctxs demo_ctx_def)
qed

end
