(* ===== verification/Cloning.thy ===== *)
theory Cloning
  imports Switching
begin

text \<open>
  The system call \<open>clone\<close> of \<open>Sched\<close>: the decimal printer \<open>num_to_str\<close> against a reference printer,
  the name of the new context, and the new context as a whole.
\<close>

section \<open>Decimal digits\<close>

text \<open>The reference: the decimal representation of a number, most significant digit first.\<close>

function decimal :: "nat \<Rightarrow> byte list" where
  "decimal n = (if n < 10 then [of_nat (48 + n)] else decimal (n div 10) @ [of_nat (48 + n mod 10)])"
  by pat_completeness auto
termination by (relation "measure id") auto

text \<open>The digits of a number, least significant first; none for 0.\<close>

function digs :: "nat \<Rightarrow> nat list" where
  "digs n = (if n = 0 then [] else n mod 10 # digs (n div 10))"
  by pat_completeness auto
termination by (relation "measure id") auto

declare decimal.simps [simp del] digs.simps [simp del]

abbreviation shift :: "nat \<Rightarrow> nat \<Rightarrow> nat" where "shift r d \<equiv> r * 10 + d"

abbreviation ascii :: "nat \<Rightarrow> byte" where "ascii d \<equiv> of_nat (48 + d)"

lemma digs_bound: "d \<in> set (digs n) \<Longrightarrow> d < 10"
proof (induction n rule: digs.induct)
  case (1 n) then show ?case by (subst (asm) (2) digs.simps) (auto split: if_splits)
qed

lemma digs_Nil [simp]: "digs n = [] \<longleftrightarrow> n = 0" "digs 0 = []"
  by (simp_all add: digs.simps[of n] digs.simps[of 0])

lemma digs_shift: "d < 10 \<Longrightarrow> digs (shift r d) = (if r = 0 \<and> d = 0 then [] else d # digs r)"
  by (subst digs.simps) auto

lemma digit_loop_digs: "digit_loop n = map ascii (digs n)"
proof (induction n rule: digs.induct)
  case (1 n) then show ?case by (subst digit_loop.simps, subst digs.simps) simp
qed

lemma decimal_digs: "0 < n \<Longrightarrow> decimal n = rev (map ascii (digs n))"
proof (induction n rule: decimal.induct)
  case (1 n)
  show ?case
  proof (cases "n < 10")
    case True
    then have "digs n = [n]" using 1(2) by (subst digs.simps) simp
    then show ?thesis using True by (subst decimal.simps) simp
  next
    case False
    then have "decimal (n div 10) = rev (map ascii (digs (n div 10)))" using 1(1) by simp
    then show ?thesis using False by (subst decimal.simps, subst digs.simps) simp
  qed
qed

text \<open>Reading digits in the wrong order loses the zeros that come first.\<close>

lemma digs_foldl:
  "\<forall>d\<in>set ds. d < 10 \<Longrightarrow> digs (foldl shift 0 ds) = rev (dropWhile (\<lambda>d. d = 0) ds)"
proof (induction ds rule: rev_induct)
  case (snoc d ds)
  then have IH: "digs (foldl shift 0 ds) = rev (dropWhile (\<lambda>d. d = 0) ds)" and d: "d < 10" by simp_all
  have z: "foldl shift 0 ds = 0 \<longleftrightarrow> (\<forall>x\<in>set ds. x = 0)"
    using digs_Nil(1)[of "foldl shift 0 ds", unfolded IH] by (auto simp: dropWhile_eq_Nil_conv)
  show ?case
  proof (cases "\<forall>x\<in>set ds. x = 0")
    case True
    then have "dropWhile (\<lambda>d. d = 0) (ds @ [d]) = dropWhile (\<lambda>d. d = 0) [d]" by (simp add: dropWhile_append2)
    then show ?thesis using z True d digs_shift[OF d, of 0] by simp
  next
    case False
    then show ?thesis using z d IH digs_shift[OF d] by (auto simp: dropWhile_append1)
  qed
qed simp

text \<open>Nine digits fit into an \<open>int\<close>.\<close>

lemma rev_loop_foldl:
  assumes "n < 10 ^ k" "r < 10 ^ j" "k + j \<le> 9"
  shows "rev_loop n r = Some (foldl shift r (digs n))"
  using assms
proof (induction k arbitrary: n r j)
  case 0 then show ?case by (subst rev_loop.simps) simp
next
  case (Suc k)
  show ?case
  proof (cases "n = 0")
    case True then show ?thesis by (subst rev_loop.simps) simp
  next
    case False
    have b: "shift r (n mod 10) < 10 ^ Suc j"
    proof -
      have "r \<le> 10 ^ j - 1" "n mod 10 \<le> 9" using Suc.prems(2) by simp_all
      then have "shift r (n mod 10) \<le> (10 ^ j - 1) * 10 + 9" by (intro add_mono mult_mono) simp_all
      also have "\<dots> = 10 ^ Suc j - 1" by (simp add: diff_mult_distrib)
      also have "\<dots> < 10 ^ Suc j" by (rule diff_less) simp_all
      finally show ?thesis .
    qed
    have "(10 :: nat) ^ Suc j \<le> 10 ^ 9" using Suc.prems(3) by (intro power_increasing) simp_all
    then have "shift r (n mod 10) < 2 ^ 31" using b by simp
    moreover have "n div 10 < 10 ^ k" using Suc.prems(1) by (simp add: less_mult_imp_div_less mult.commute)
    moreover have "digs n = n mod 10 # digs (n div 10)" using False by (subst digs.simps) simp
    ultimately show ?thesis
      using Suc.IH[of "n div 10" "shift r (n mod 10)" "Suc j"] b Suc.prems(3) False
      by (subst rev_loop.simps) (simp add: Let_def)
  qed
qed

lemma ascii_zero: "d < 10 \<Longrightarrow> ascii d = 48 \<longleftrightarrow> d = 0" "d < 10 \<Longrightarrow> ascii d \<noteq> 0"
proof -
  assume "d < 10"
  then have "unat (ascii d) = 48 + d" by (subst unat_of_nat) simp
  then show "ascii d = 48 \<longleftrightarrow> d = 0" "ascii d \<noteq> 0" by auto
qed

lemma num_to_str_strips:
  assumes "n < 10 ^ 9"
  shows "num_to_str (int n) = Some (rev (dropWhile (\<lambda>c. c = 48) (rev (decimal n))))"
proof (cases "n = 0")
  case True
  have "decimal 0 = [48]" by (simp add: decimal.simps)
  then show ?thesis using True by (simp add: num_to_str_def rev_loop_foldl[of 0 0 0 0, simplified] digit_loop_digs)
next
  case False
  have "rev (decimal n) = map ascii (digs n)" using False decimal_digs by simp
  moreover have "dropWhile (\<lambda>c. c = 48) (map ascii (digs n)) = map ascii (dropWhile (\<lambda>d. d = 0) (digs n))"
    unfolding dropWhile_map by (rule arg_cong[where f = "map ascii"], rule dropWhile_cong)
      (use ascii_zero(1) digs_bound in auto)
  ultimately show ?thesis
    using rev_loop_foldl[of n 9 0 0] assms digs_foldl[of "digs n"] digs_bound
    by (simp add: num_to_str_def digit_loop_digs rev_map)
qed

lemma decimal_last: "last (decimal n) = ascii (n mod 10)" "decimal n \<noteq> []"
  by (simp_all add: decimal.simps[of n])

lemma num_to_str_exact:
  assumes "n < 10 ^ 9" "n mod 10 \<noteq> 0"
  shows "num_to_str (int n) = Some (decimal n)"
proof -
  have "last (decimal n) \<noteq> 48" using ascii_zero(1)[of "n mod 10"] assms(2) by (simp add: decimal_last)
  then have "dropWhile (\<lambda>c. c = 48) (rev (decimal n)) = rev (decimal n)"
    using decimal_last(2)[of n] by (metis dropWhile_eq_self_iff hd_rev)
  then show ?thesis using num_to_str_strips[OF assms(1)] by simp
qed

text \<open>
  C34: For numbers below \<open>10\<^sup>9\<close> the printer \<open>num_to_str\<close> computes the decimal representation
  without its trailing zeros. So it agrees with the decimal representation exactly when the last
  digit is not 0; 10 is printed as \<open>1\<close> and 0 as the empty string.
\<close>

theorem num_to_str_decimal:
  assumes "n < 10 ^ 9"
  shows "num_to_str (int n) = Some (rev (dropWhile (\<lambda>c. c = 48) (rev (decimal n))))
    \<and> (num_to_str (int n) = Some (decimal n) \<longleftrightarrow> n mod 10 \<noteq> 0)"
proof -
  have "dropWhile (\<lambda>c. c = 48) (rev (decimal n)) \<noteq> rev (decimal n)" if "n mod 10 = 0"
    using decimal_last[of n] that
    by (metis (mono_tags) dropWhile_eq_self_iff hd_rev rev_is_Nil_conv add_0_right of_nat_numeral)
  then have "rev (dropWhile (\<lambda>c. c = 48) (rev (decimal n))) \<noteq> decimal n" if "n mod 10 = 0"
    using that by (metis rev_rev_ident)
  then show ?thesis using num_to_str_strips[OF assms] num_to_str_exact[OF assms] by auto
qed

theorem num_to_str_decimal_witness:
  "num_to_str 10 = Some [49] \<and> num_to_str 12 = Some (decimal 12)"
proof -
  have "decimal 10 = [49, 48]" by (simp add: decimal.simps)
  then have "num_to_str 10 = Some [49]" using num_to_str_decimal[of 10] by simp
  moreover have "num_to_str 12 = Some (decimal 12)" using conjunct2[OF num_to_str_decimal[of 12]] by simp
  ultimately show ?thesis by simp
qed

section \<open>The new context\<close>

text \<open>
  The name is right when the byte after the copied part of the local array happens to be 0: the
  terminator is not copied.
\<close>

lemma clone_name_ok:
  assumes j: "length junk = CNAME_MAX" "junk ! length (cstr parent) = 0"
    and d: "num_to_str (sint p) = Some ds" "0 \<notin> set ds" "length (cstr parent) + length ds + 1 < CNAME_MAX"
  shows "\<exists>nm. clone_name parent old p junk = Some nm \<and> cstr nm = cstr parent @ ds"
proof -
  let ?c = "cstr parent"
  have t: "take (length ?c) parent = ?c" unfolding cstr_def by (metis takeWhile_eq_take)
  have "drop (length ?c) junk = 0 # drop (Suc (length ?c)) junk"
    using j d(3) by (metis Cons_nth_drop_Suc add_lessD1)
  then have k: "cstr (?c @ drop (length ?c) junk) = ?c" by (simp add: cstr_no_nul)
  have "clone_name parent old p junk
      = Some ((?c @ ds @ [0] @ drop (length ?c + length ds + 1) old)[length ?c + length ds + 1 := 0])"
    unfolding clone_name_def d(1) Option.bind.bind_lunit Let_def t k using d(3) by simp
  moreover have "(?c @ ds @ [0] @ xs)[length ?c + length ds + 1 := 0] = (?c @ ds) @ 0 # xs[0 := 0]" for xs
    by (simp add: list_update_append)
  moreover have "0 \<notin> set (?c @ ds)" using d(2) by simp
  ultimately show ?thesis using cstr_no_nul[of "?c @ ds"] by metis
qed

lemma decimal_nul_free: "0 \<notin> set (decimal n)"
proof (induction n rule: decimal.induct)
  case (1 n)
  then show ?case
    using ascii_zero(2)[of n] ascii_zero(2)[of "n mod 10"] by (subst decimal.simps) auto
qed

lemma decimal_short: "n < 100 \<Longrightarrow> length (decimal n) \<le> 2"
proof -
  assume "n < 100"
  then have "n div 10 < 10" by simp
  then show ?thesis by (simp add: decimal.simps[of n] decimal.simps[of "n div 10"])
qed

lemma sint_pid: "i < 16 \<Longrightarrow> sint (of_nat i :: u32) = int i"
  unfolding signed_of_nat by (simp add: signed_take_bit_int_eq_self)

lemma num_to_str_small:
  assumes "n < 16"
  obtains ds where "num_to_str (int n) = Some ds" "0 \<notin> set ds" "length ds \<le> 2"
proof
  show "num_to_str (int n) = Some (rev (dropWhile (\<lambda>c. c = 48) (rev (decimal n))))"
    using num_to_str_strips[of n] assms by simp
  show "0 \<notin> set (rev (dropWhile (\<lambda>c. c = 48) (rev (decimal n))))"
    using decimal_nul_free[of n] by (auto dest: set_dropWhileD)
  show "length (rev (dropWhile (\<lambda>c. c = 48) (rev (decimal n)))) \<le> 2"
    using decimal_short[of n] length_dropWhile_le[of "\<lambda>c. c = 48" "rev (decimal n)"] assms by simp
qed

text \<open>
  The new context: a copy of the parent with the exceptions that the code makes. The name is that
  of the parent followed by what \<open>num_to_str\<close> prints for the parent's own number.
\<close>

definition child_of :: "exec_context \<Rightarrow> nat \<Rightarrow> byte list \<Rightarrow> u32 \<Rightarrow> u64 \<Rightarrow> u64 \<Rightarrow> u64 \<Rightarrow> exec_context" where
  "child_of parent n nm pfn th_func user_stack flags = parent\<lparr>pid := of_nat n, state := READY, ctx_name := nm,
     os_stack_pfn := pfn, pending_signal_bitmap := 0, ticks_to_sleep := 0, alarm_config_time := 0, ticks_to_alarm := 0,
     regs := (regs parent)\<lparr>entry_rip := th_func, entry_cs := 0x23, entry_rflags := flags, entry_rsp := user_stack,
       entry_ss := 0x2B, rbp := user_stack\<rparr>\<rparr>"

lemma child_of_copy:
  assumes "pid c = of_nat n"
  shows "c\<lparr>ctx_type := ctx_type parent, used_mem := used_mem parent, pgd := pgd parent, os_rsp := os_rsp parent,
      mms := mms parent, sighandlers := sighandlers parent, pending_signal_bitmap := 0, ticks_to_sleep := 0,
      alarm_config_time := 0, ticks_to_alarm := 0, os_stack_pfn := pfn, ctx_name := nm,
      regs := (regs parent)\<lparr>entry_rip := th_func, entry_cs := 0x23, entry_rsp := user_stack, entry_ss := 0x2B,
        rbp := user_stack, entry_rflags := flags\<rparr>, state := READY\<rparr>
    = child_of parent n nm pfn th_func user_stack flags"
  using assms by (cases c; cases parent) (simp add: child_of_def)

lemma do_clone_copies:
  assumes inv: "sched_inv m" and sv: "services_ok sv" and map: "direct_mapped sv"
    and free: "\<exists>i. 1 \<le> i \<and> i < 16 \<and> state (ctxs m ! i) = UNUSED"
    and parent: "parent = ctxs m ! cur m" "length (cstr (ctx_name parent)) < 61"
    and junk: "length junk = CNAME_MAX" "junk ! length (cstr (ctx_name parent)) = 0"
    and stack: "stack_end = push_bit 12 (ucast (os_stack_pfn parent) + 1)" and pfn: "pfn = os_pfn_alloc sv (log m)"
  shows "\<exists>n nm ds. do_clone sv th_func user_stack junk m = Some (m\<lparr>log := log m @ [Pfn_alloc pfn],
        ctxs := (ctxs m)[n := child_of parent n nm pfn th_func user_stack (read64 (mem m) (stack_end - 24))]\<rparr>)
    \<and> 1 \<le> n \<and> n < 16 \<and> state (ctxs m ! n) = UNUSED
    \<and> num_to_str (int (cur m)) = Some ds \<and> cstr nm = cstr (ctx_name parent) @ ds"
proof -
  obtain n l where nl: "get_new_ctx sv (ctxs m) = (n, l)" by (cases "get_new_ctx sv (ctxs m)")
  have "length (ctxs m) = 16 \<and> pids_ok (ctxs m)" using sched_invD(1)[OF inv] sched_inv_pids[OF inv] by blast
  then have n: "1 \<le> n" "n < 16" "state (ctxs m ! n) = UNUSED" "length l = 16"
    "\<And>j. j < 16 \<Longrightarrow> j \<noteq> n \<Longrightarrow> l ! j = ctxs m ! j" "pid (l ! n) = of_nat n"
    using sv free nl unfolding services_ok_def by fastforce+
  have c: "cur m < 16" "n \<noteq> cur m" using sched_invD(2)[OF inv] n(2,3) sched_invD(4)[OF inv n(2)] by auto
  have p: "l ! cur m = parent" "pid parent = of_nat (cur m)"
    using n(5) c sched_invD(5)[OF inv c(1) cur_in_use[OF inv]] parent(1) by auto
  obtain ds where ds: "num_to_str (int (cur m)) = Some ds" "0 \<notin> set ds" "length ds \<le> 2"
    using num_to_str_small[OF c(1)] by blast
  then obtain nm where nm: "clone_name (ctx_name parent) (ctx_name (l ! n)) (pid parent) junk = Some nm"
    "cstr nm = cstr (ctx_name parent) @ ds"
    using clone_name_ok[OF junk, of "pid parent" ds "ctx_name (l ! n)"] parent(2) sint_pid[OF c(1)]
    by (auto simp: p(2) CNAME_MAX_def)
  have l: "l[n := x] = (ctxs m)[n := x]" for x
    by (rule nth_equalityI) (use n sched_invD(1)[OF inv] in \<open>auto simp: nth_list_update\<close>)
  have e: "get_current_ctx (m\<lparr>ctxs := l\<rparr>) = parent" "\<And>j. ctxs (m\<lparr>ctxs := l\<rparr>) ! j = l ! j"
    using p(1) by (simp_all add: get_current_ctx_def)
  have "do_clone sv th_func user_stack junk m = Some (m\<lparr>log := log m @ [Pfn_alloc pfn],
      ctxs := (ctxs m)[n := child_of parent n nm pfn th_func user_stack (read64 (mem m) (stack_end - 24))]\<rparr>)"
    by (simp add: do_clone_def nl Let_def e nm(1) upd_ctx_def emit_def child_of_copy[OF n(6)] pfn stack
        translate_direct[OF map] l)
  then show ?thesis using n(1-3) ds(1) nm(2) by blast
qed

text \<open>
  C33: \<open>clone\<close> turns an unused context into a ready child of the current process. The child is a copy
  of the parent's context (type, memory, page table, segments, signal handlers, saved registers)
  except that it has the number of its slot, a kernel stack of its own, no pending signal, sleep or
  alarm, a name that begins with the parent's, and starts at the given function on the given stack
  with the user segments and the flags found in the frame at the top of the parent's kernel stack. Apart
  from this slot and the allocation of the stack nothing changes. This is shown for a parent's name
  of at most 60 bytes, and where the byte after the copied name in the local array \<open>name\<close> happens to
  be 0, because the terminator is not copied.
\<close>

theorem do_clone_child:
  assumes "sched_inv m" "services_ok sv" "direct_mapped sv" "\<exists>i. 1 \<le> i \<and> i < 16 \<and> state (ctxs m ! i) = UNUSED"
    and "parent = ctxs m ! cur m" "length (cstr (ctx_name parent)) < 61"
    and "length junk = CNAME_MAX" "junk ! length (cstr (ctx_name parent)) = 0"
    and "stack_end = push_bit 12 (ucast (os_stack_pfn parent) + 1)" "pfn = os_pfn_alloc sv (log m)"
  shows "\<exists>n nm ds. 1 \<le> n \<and> n < 16 \<and> state (ctxs m ! n) = UNUSED \<and> cstr nm = cstr (ctx_name parent) @ ds
    \<and> do_clone sv th_func user_stack junk m = Some (m\<lparr>log := log m @ [Pfn_alloc pfn],
        ctxs := (ctxs m)[n := parent\<lparr>pid := of_nat n, state := READY, ctx_name := nm, os_stack_pfn := pfn,
          pending_signal_bitmap := 0, ticks_to_sleep := 0, alarm_config_time := 0, ticks_to_alarm := 0,
          regs := (regs parent)\<lparr>entry_rip := th_func, entry_cs := 0x23,
            entry_rflags := read64 (mem m) (stack_end - 24), entry_rsp := user_stack, entry_ss := 0x2B,
            rbp := user_stack\<rparr>\<rparr>]\<rparr>)"
  using do_clone_copies[OF assms, of th_func user_stack] unfolding child_of_def by blast

theorem do_clone_child_witness:
  "\<exists>n m'. do_clone demo_sv 0x4000 0x6000 (replicate 64 0) demo_machine = Some m' \<and> 1 \<le> n \<and> n < 16
    \<and> entry_rip (regs (ctxs m' ! n)) = 0x4000 \<and> state (ctxs m' ! n) = READY \<and> os_stack_pfn (ctxs m' ! n) = 5"
proof -
  have free: "\<exists>i. 1 \<le> i \<and> i < 16 \<and> state (ctxs demo_machine ! i) = UNUSED"
    by (rule exI[of _ 3]) (simp add: demo_ctxs demo_ctx_def demo_state_def)
  have map: "direct_mapped demo_sv" by (simp add: direct_mapped_def demo_sv_def)
  have p: "ctxs demo_machine ! cur demo_machine = demo_ctx 1" by (simp add: demo_ctxs)
  have j: "length (cstr (ctx_name (demo_ctx 1))) < 61" "length (replicate 64 0 :: byte list) = CNAME_MAX"
    "(replicate 64 0 :: byte list) ! length (cstr (ctx_name (demo_ctx 1))) = 0"
    by (simp_all add: demo_ctx_def CNAME_MAX_def)
  have pfn: "5 = os_pfn_alloc demo_sv (log demo_machine)" by (simp add: demo_sv_def)
  have len: "length (ctxs demo_machine) = 16" using sched_invD(1)[OF demo_machine_inv] .
  from do_clone_child[OF demo_machine_inv demo_services map free p[symmetric] j refl pfn, of "0x4000" "0x6000"]
  obtain n x m' where n: "1 \<le> n" "n < 16" "do_clone demo_sv 0x4000 0x6000 (replicate 64 0) demo_machine = Some m'"
    "ctxs m' = (ctxs demo_machine)[n := x]" "entry_rip (regs x) = 0x4000" "state x = READY" "os_stack_pfn x = 5"
    by fastforce
  have "ctxs m' ! n = x" using n(2,4) len by simp
  then show ?thesis using n by (intro exI[of _ n] exI[of _ m']) simp
qed

text \<open>
  The number in the child's name is that of the parent, so that all children of a process whose
  number has no trailing zero get the same name; the assignment asks for the number of the child.
\<close>

theorem do_clone_name:
  assumes "sched_inv m" "services_ok sv" "direct_mapped sv" "\<exists>i. 1 \<le> i \<and> i < 16 \<and> state (ctxs m ! i) = UNUSED"
    and "parent = ctxs m ! cur m" "length (cstr (ctx_name parent)) < 61" "cur m mod 10 \<noteq> 0"
    and "length junk = CNAME_MAX" "junk ! length (cstr (ctx_name parent)) = 0"
  shows "\<exists>n m'. do_clone sv th_func user_stack junk m = Some m' \<and> 1 \<le> n \<and> n < 16 \<and> state (ctxs m ! n) = UNUSED
    \<and> cstr (ctx_name (ctxs m' ! n)) = cstr (ctx_name parent) @ decimal (cur m)"
proof -
  have c: "cur m < 10 ^ 9" "length (ctxs m) = 16" using sched_invD(1,2)[OF assms(1)] by simp_all
  show ?thesis
    using do_clone_copies[OF assms(1-6,8,9) refl refl, of th_func user_stack] num_to_str_exact[OF c(1) assms(7)] c(2)
    by (fastforce simp: child_of_def)
qed

end
