(* ===== verification/Blockdev.thy ===== *)
theory Blockdev
  imports Prelude
begin

text \<open>
  The state of a mounted object store and the block device below it: \<open>struct objfs_state\<close> of
  \<open>assignment-4/lib.h\<close> with the data of \<open>assignment-4/objstore.c\<close> (\<open>Obj\<close>, \<open>ObjData\<close>), and
  \<open>do_init\<close>, \<open>read_block\<close>, \<open>write_block\<close> of \<open>assignment-4/lib.c\<close>.

  The operating system is part of the state: the contents of \<open>disk.img\<close> (\<open>disk\<close>,
  \<open>disk_len\<close> blocks long), the block numbers at which \<open>pread\<close> and \<open>pwrite\<close> report an error,
  and the page that \<open>mmap\<close> returns for a length (\<open>None\<close> is \<open>MAP_FAILED\<close>); no operation of the
  model changes the last three. The image is a whole number of blocks long, as the \<open>dd\<close>
  command of the README makes it: a \<open>pread\<close> that starts behind the end moves no byte and
  reports success, a \<open>pwrite\<close> there extends the file. \<open>objstore_data\<close> is flattened into the
  record, with \<open>mounted\<close> for \<open>objstore_data \<noteq> NULL\<close>; the mutexes are not part of this
  sequential state (\<open>Concurrent\<close> has \<open>blk_bmp_lk\<close>).
\<close>

section \<open>Constants and types\<close>

abbreviation (input) BLOCK_SIZE :: nat where "BLOCK_SIZE \<equiv> 4096"
abbreviation (input) KEY_SIZE :: nat where "KEY_SIZE \<equiv> 32"
abbreviation (input) MAX_OBJS :: nat where "MAX_OBJS \<equiv> 1000000"
abbreviation (input) OBJ_BMP_LN :: nat where "OBJ_BMP_LN \<equiv> 15626"
abbreviation (input) BLK_BMP_LN :: nat where "BLK_BMP_LN \<equiv> 131072"
abbreviation (input) MAX_SIZE :: int where "MAX_SIZE \<equiv> 16793600"
abbreviation (input) BLK_BMP_BLOCKS :: nat where "BLK_BMP_BLOCKS \<equiv> 256"
abbreviation (input) OBJ_PER_BLOCK :: nat where "OBJ_PER_BLOCK \<equiv> 50"
abbreviation (input) OBJ_BLOCKS :: nat where "OBJ_BLOCKS \<equiv> 20000"
abbreviation (input) RES_BLOCKS :: nat where "RES_BLOCKS \<equiv> 20256"
abbreviation (input) CACHE_LEN :: nat where "CACHE_LEN \<equiv> 32768"

record obj =
  obj_size :: u64
  obj_key :: "byte list"
  obj_direct :: "u32 list"
  obj_indirect :: "u32 list"

record stat =
  st_ino :: u64
  st_mode :: u32
  st_uid :: u32
  st_gid :: u32
  st_size :: int
  st_blocks :: int

record objfs_state =
  disk :: "nat \<Rightarrow> buffer"
  disk_len :: nat
  pread_fails :: "nat \<Rightarrow> bool"
  pwrite_fails :: "nat \<Rightarrow> bool"
  mmap_page :: "nat \<Rightarrow> u64 option"
  def_fstat :: stat
  def_dirstat :: stat
  cache_page :: u64
  cache :: "nat \<Rightarrow> buffer"
  objects :: "nat \<Rightarrow> obj"
  obj_bmp :: "nat \<Rightarrow> u64"
  blk_bmp :: "nat \<Rightarrow> u64"
  cache_info :: "nat \<Rightarrow> u32"
  mounted :: bool

section \<open>Operations\<close>

definition page_addr :: "u64 \<Rightarrow> u64" where
  "page_addr p = push_bit 12 p"

text \<open>\<open>cmalloc\<close> returns a page-aligned address, and the fresh mapping is zero-filled.\<close>

definition cmalloc :: "objfs_state \<Rightarrow> nat \<Rightarrow> u64 option" where
  "cmalloc s n = map_option page_addr (mmap_page s n)"

text \<open>\<open>pread\<close> and \<open>pwrite\<close> of one block at a byte offset that is a multiple of the block size.\<close>

definition pread_block :: "objfs_state \<Rightarrow> u64 \<Rightarrow> buffer \<Rightarrow> int \<times> buffer" where
  "pread_block s off buf =
     (let b = unat off div BLOCK_SIZE in
      if pread_fails s b then (-1, buf)
      else if b < disk_len s then (int BLOCK_SIZE, disk s b)
      else (0, buf))"

definition pwrite_block :: "objfs_state \<Rightarrow> u64 \<Rightarrow> buffer \<Rightarrow> int \<times> objfs_state" where
  "pwrite_block s off buf =
     (let b = unat off div BLOCK_SIZE in
      if pwrite_fails s b then (-1, s)
      else (int BLOCK_SIZE, s\<lparr>disk := (disk s)(b := buf), disk_len := max (disk_len s) (Suc b)\<rparr>))"

definition read_block :: "objfs_state \<Rightarrow> u64 \<Rightarrow> u64 \<Rightarrow> buffer \<Rightarrow> int \<times> buffer" where
  "read_block s block_offset addr buf =
     (if push_bit 12 (drop_bit 12 addr) \<noteq> addr then (-1, buf)
      else case pread_block s (push_bit 12 block_offset) buf of
             (r, buf') \<Rightarrow> if r < 0 then (-1, buf') else (0, buf'))"

definition write_block :: "objfs_state \<Rightarrow> u64 \<Rightarrow> u64 \<Rightarrow> buffer \<Rightarrow> int \<times> objfs_state" where
  "write_block s block_offset addr buf =
     (if push_bit 12 (drop_bit 12 addr) \<noteq> addr then (-1, s)
      else case pwrite_block s (push_bit 12 block_offset) buf of
             (r, s') \<Rightarrow> if r < 0 then (-1, s') else (0, s'))"

text \<open>
  The answers of the operating system to \<open>do_init\<close>: \<open>getcwd\<close>, \<open>stat\<close> of the directory,
  \<open>open\<close> of the image, \<open>fopen\<close> and \<open>stat\<close> of the log, \<open>mmap\<close> of the cache.
\<close>

record os_startup =
  os_getcwd :: bool
  os_dirstat :: "stat option"
  os_open_disk :: bool
  os_fopen_log :: bool
  os_fstat :: "stat option"
  os_cache_page :: "u64 option"

definition do_init :: "os_startup \<Rightarrow> objfs_state \<Rightarrow> int \<times> objfs_state" where
  "do_init os s =
     (if \<not> os_getcwd os then (-1, s)
      else case os_dirstat os of None \<Rightarrow> (-1, s) | Some ds \<Rightarrow>
        let s = s\<lparr>def_dirstat := ds\<rparr> in
        if \<not> os_open_disk os then (-1, s)
        else if \<not> os_fopen_log os then (-1, s)
        else case os_fstat os of None \<Rightarrow> (-1, s) | Some fs \<Rightarrow>
          let s = s\<lparr>def_fstat := fs\<rparr> in
          case os_cache_page os of None \<Rightarrow> (-1, s)
          | Some p \<Rightarrow> (0, s\<lparr>cache_page := p, cache := \<lambda>_. zero_buf\<rparr>))"

section \<open>What a block transfer does\<close>

definition io_ok :: "objfs_state \<Rightarrow> bool" where
  "io_ok s \<longleftrightarrow> (\<forall>b. \<not> pread_fails s b \<and> \<not> pwrite_fails s b)"

lemma page_addr_aligned [simp]: "push_bit 12 (drop_bit 12 (page_addr p)) = page_addr p"
  by (simp add: page_addr_def page_aligned_push)

lemma page_addr_slot [simp]: "page_addr p + 4096 * q = page_addr (p + q)"
  by (simp add: page_addr_def push_bit_12_add)

lemma offset_of_u32 [simp]:
  "unat (push_bit 12 (ucast (b :: u32) :: u64)) div BLOCK_SIZE = unat b"
proof -
  have "unat (push_bit 12 (ucast b :: u64)) = unat b * 4096"
    using unat_u32_less[of b] by (simp add: push_bit_eq_mult unat_word_ariths)
  then show ?thesis by simp
qed

lemma read_block_u32:
  assumes "io_ok s"
  shows "read_block s (ucast (b :: u32)) (page_addr p) buf =
    (0, if unat b < disk_len s then disk s (unat b) else buf)"
  using assms by (simp add: read_block_def pread_block_def io_ok_def Let_def)

lemma write_block_u32:
  assumes "io_ok s"
  shows "write_block s (ucast (b :: u32)) (page_addr p) buf =
    (0, s\<lparr>disk := (disk s)(unat b := buf), disk_len := max (disk_len s) (Suc (unat b))\<rparr>)"
  using assms by (simp add: write_block_def pwrite_block_def io_ok_def Let_def)

lemma offset_of_nat:
  assumes "i < 2 ^ 32"
  shows "unat (push_bit 12 (of_nat i :: u64)) div BLOCK_SIZE = i"
proof -
  have "unat (of_nat i :: u64) = i" using assms by (simp add: unat_of_nat take_bit_nat_eq_self)
  then have "unat (push_bit 12 (of_nat i :: u64)) = i * 4096"
    using assms by (simp add: push_bit_eq_mult unat_word_ariths)
  then show ?thesis by simp
qed

lemma read_block_nat:
  assumes "io_ok s" "i < 2 ^ 32"
  shows "read_block s (of_nat i) (page_addr p) buf = (0, if i < disk_len s then disk s i else buf)"
  using assms(1) offset_of_nat[OF assms(2)]
  by (simp add: read_block_def pread_block_def io_ok_def Let_def)

lemma write_block_nat:
  assumes "io_ok s" "i < 2 ^ 32"
  shows "write_block s (of_nat i) (page_addr p) buf =
    (0, s\<lparr>disk := (disk s)(i := buf), disk_len := max (disk_len s) (Suc i)\<rparr>)"
  using assms(1) offset_of_nat[OF assms(2)]
  by (simp add: write_block_def pwrite_block_def io_ok_def Let_def)

lemma read_block_unaligned:
  "push_bit 12 (drop_bit 12 addr) \<noteq> addr \<Longrightarrow> read_block s b addr buf = (-1, buf)"
  by (simp add: read_block_def)

lemma write_block_unaligned:
  "push_bit 12 (drop_bit 12 addr) \<noteq> addr \<Longrightarrow> write_block s b addr buf = (-1, s)"
  by (simp add: write_block_def)

end
