(* ===== verification/Blockcache.thy ===== *)
theory Blockcache
  imports Blockdev
begin

text \<open>
  The block cache of \<open>assignment-4/objstore.c\<close>: \<open>flush_ch_blk\<close>, \<open>read_ch_blk\<close> and
  \<open>write_ch_blk\<close>. The first argument of the last two is the build: \<open>True\<close> for
  \<open>objfs_cached\<close> (compiled with \<open>-DCACHE\<close>), \<open>False\<close> for \<open>objfs\<close>. Both builds offer the
  same interface to the layers above, stated as the locale \<open>block_store\<close>: a map from block
  numbers to contents that reads and writes go through, whatever slot of the cache or
  place on disk holds the block. A copy of \<open>BLOCK_SIZE\<close> bytes between two areas of that
  size is an assignment of the whole area.
\<close>

section \<open>Operations\<close>

definition flush_ch_blk :: "objfs_state \<Rightarrow> nat \<Rightarrow> int \<times> objfs_state" where
  "flush_ch_blk s index =
     (case write_block s (ucast (cache_info s index))
             (page_addr (cache_page s) + 4096 * of_nat index) (cache s index) of
        (r, s') \<Rightarrow> if r < 0 then (-1, s')
                  else (0, s'\<lparr>cache_info := (cache_info s')(index := 0)\<rparr>))"

definition read_ch_blk ::
    "bool \<Rightarrow> objfs_state \<Rightarrow> u32 \<Rightarrow> u64 \<Rightarrow> buffer \<Rightarrow> int \<times> objfs_state \<times> buffer" where
  "read_ch_blk cached s block_num addr buf =
     (if cached then
        let index = unat block_num mod CACHE_LEN in
        if cache_info s index \<noteq> block_num then
          (case flush_ch_blk s index of (r, s1) \<Rightarrow>
             if r < 0 then (-1, s1, buf)
             else
               let s2 = s1\<lparr>cache_info := (cache_info s1)(index := block_num)\<rparr> in
               (case read_block s2 (ucast block_num)
                       (page_addr (cache_page s2) + 4096 * of_nat index) (cache s2 index) of
                  (r, slot) \<Rightarrow>
                    let s3 = s2\<lparr>cache := (cache s2)(index := slot)\<rparr> in
                    if r < 0 then (-1, s3, buf)
                    else (0, s3, cache s3 index)))
        else (0, s, cache s index)
      else
        (case read_block s (ucast block_num) addr buf of (r, buf') \<Rightarrow> (r, s, buf')))"

definition write_ch_blk :: "bool \<Rightarrow> objfs_state \<Rightarrow> u32 \<Rightarrow> u64 \<Rightarrow> buffer \<Rightarrow> int \<times> objfs_state" where
  "write_ch_blk cached s block_num addr buf =
     (if cached then
        let index = unat block_num mod CACHE_LEN in
        case (if cache_info s index \<noteq> block_num then
                (case flush_ch_blk s index of (r, s1) \<Rightarrow>
                   if r < 0 then (-1 :: int, s1)
                   else (0, s1\<lparr>cache_info := (cache_info s1)(index := block_num)\<rparr>))
              else (0, s)) of
          (r, s1) \<Rightarrow>
            if r < 0 then (-1, s1)
            else (0, s1\<lparr>cache := (cache s1)(index := buf)\<rparr>)
      else write_block s (ucast block_num) addr buf)"

section \<open>The interface of the layers above\<close>

text \<open>
  \<open>view s b\<close> is the contents of block \<open>b\<close>, \<open>readable s b\<close> says that a read of it finds
  these contents (behind the end of the image a read moves nothing), \<open>meta\<close> is the part of
  the state that block transfers leave alone. Block 0 is excluded: the cache uses 0 for an
  empty slot, and emptying a slot writes block 0.
\<close>

locale block_store =
  fixes inv :: "'s \<Rightarrow> bool"
    and view :: "'s \<Rightarrow> u32 \<Rightarrow> buffer"
    and readable :: "'s \<Rightarrow> u32 \<Rightarrow> bool"
    and meta :: "'s \<Rightarrow> 'm"
    and rd :: "'s \<Rightarrow> u32 \<Rightarrow> buffer \<Rightarrow> int \<times> 's \<times> buffer"
    and wr :: "'s \<Rightarrow> u32 \<Rightarrow> buffer \<Rightarrow> int \<times> 's"
  assumes rd_result: "inv s \<Longrightarrow> b \<noteq> 0 \<Longrightarrow> readable s b \<Longrightarrow>
      \<exists>s'. rd s b buf = (0, s', view s b) \<and> inv s' \<and> meta s' = meta s \<and>
        (\<forall>c. c \<noteq> 0 \<longrightarrow> view s' c = view s c \<and> (readable s c \<longrightarrow> readable s' c))"
    and wr_result: "inv s \<Longrightarrow> b \<noteq> 0 \<Longrightarrow>
      \<exists>s'. wr s b buf = (0, s') \<and> inv s' \<and> meta s' = meta s \<and> view s' b = buf \<and> readable s' b \<and>
        (\<forall>c. c \<noteq> 0 \<longrightarrow> c \<noteq> b \<longrightarrow> view s' c = view s c \<and> (readable s c \<longrightarrow> readable s' c))"
begin

fun wr_all :: "'s \<Rightarrow> (u32 \<times> buffer) list \<Rightarrow> 's" where
  "wr_all s [] = s"
| "wr_all s ((b, buf) # ws) = wr_all (snd (wr s b buf)) ws"

lemma read_after_write:
  assumes "inv s" "b \<noteq> 0" "wr s b buf = (r, s1)"
  shows "\<exists>s2. rd s1 b old = (0, s2, buf) \<and> inv s2"
proof -
  obtain s' where "wr s b buf = (0, s')" "inv s'" "view s' b = buf" "readable s' b"
    using wr_result[OF assms(1,2)] by blast
  with assms show ?thesis using rd_result[of s' b old] by auto
qed

lemma write_other_block:
  assumes "inv s" "b \<noteq> 0" "c \<noteq> 0" "b \<noteq> c" "readable s c" "wr s b buf = (r, s1)"
  shows "\<exists>s2. rd s1 c old = (0, s2, view s c) \<and> inv s2"
proof -
  obtain s' where s': "wr s b buf = (0, s')" "inv s'"
      "\<forall>c. c \<noteq> 0 \<longrightarrow> c \<noteq> b \<longrightarrow> view s' c = view s c \<and> (readable s c \<longrightarrow> readable s' c)"
    using wr_result[OF assms(1,2)] by blast
  with assms have "view s' c = view s c" "readable s' c" by auto
  with s' assms show ?thesis using rd_result[of s' c old] by auto
qed

lemma wr_all_views:
  assumes "inv s" "\<forall>(b, buf) \<in> set ws. b \<noteq> 0" "distinct (map fst ws)"
  shows "inv (wr_all s ws) \<and> meta (wr_all s ws) = meta s \<and>
    (\<forall>c. c \<noteq> 0 \<longrightarrow> view (wr_all s ws) c = (case map_of ws c of Some buf \<Rightarrow> buf | None \<Rightarrow> view s c))"
  using assms
proof (induction ws arbitrary: s)
  case Nil
  then show ?case by simp
next
  case (Cons w ws)
  obtain b buf where w: "w = (b, buf)" by (cases w)
  with Cons.prems have b: "b \<noteq> 0" by simp
  obtain s' where s': "wr s b buf = (0, s')" "inv s'" "meta s' = meta s" "view s' b = buf"
      "\<forall>c. c \<noteq> 0 \<longrightarrow> c \<noteq> b \<longrightarrow> view s' c = view s c"
    using wr_result[OF Cons.prems(1) b] by blast
  from Cons.prems w have "b \<notin> fst ` set ws" by simp
  then have "map_of ws b = None" by (simp add: map_of_eq_None_iff)
  with Cons.IH[OF s'(2)] Cons.prems(2,3) w s' show ?case
    by (auto split: option.splits)
qed

end

section \<open>Both builds provide it\<close>

definition blk_view :: "bool \<Rightarrow> objfs_state \<Rightarrow> u32 \<Rightarrow> buffer" where
  "blk_view cached s b =
     (if cached \<and> cache_info s (unat b mod CACHE_LEN) = b then cache s (unat b mod CACHE_LEN)
      else disk s (unat b))"

definition blk_readable :: "bool \<Rightarrow> objfs_state \<Rightarrow> u32 \<Rightarrow> bool" where
  "blk_readable cached s b \<longleftrightarrow>
     (cached \<and> cache_info s (unat b mod CACHE_LEN) = b) \<or> unat b < disk_len s"

text \<open>A slot of the cache is empty (0) or holds a block of its own residue class.\<close>

definition blk_inv :: "bool \<Rightarrow> objfs_state \<Rightarrow> bool" where
  "blk_inv cached s \<longleftrightarrow> io_ok s \<and>
     (cached \<longrightarrow> (\<forall>i<CACHE_LEN. cache_info s i = 0 \<or> unat (cache_info s i) mod CACHE_LEN = i))"

text \<open>What no block transfer touches.\<close>

definition fs_meta :: "objfs_state \<Rightarrow>
    (nat \<Rightarrow> obj) \<times> (nat \<Rightarrow> u64) \<times> (nat \<Rightarrow> u64) \<times> (nat \<Rightarrow> u64 option) \<times> stat \<times> stat \<times> bool" where
  "fs_meta s = (objects s, obj_bmp s, blk_bmp s, mmap_page s, def_fstat s, def_dirstat s, mounted s)"

lemma flush_ch_blk_ok:
  assumes "io_ok s"
  shows "flush_ch_blk s i =
    (0, s\<lparr>disk := (disk s)(unat (cache_info s i) := cache s i),
          disk_len := max (disk_len s) (Suc (unat (cache_info s i))),
          cache_info := (cache_info s)(i := 0)\<rparr>)"
  using write_block_u32[OF assms] by (simp add: flush_ch_blk_def)

text \<open>The state of the cached build after a miss on \<open>b\<close>: the old block is on disk, the slot is \<open>b\<close>'s.\<close>

definition evicted :: "objfs_state \<Rightarrow> u32 \<Rightarrow> objfs_state" where
  "evicted s b = (let i = unat b mod CACHE_LEN in
     s\<lparr>disk := (disk s)(unat (cache_info s i) := cache s i),
       disk_len := max (disk_len s) (Suc (unat (cache_info s i))),
       cache_info := (cache_info s)(i := b)\<rparr>)"

lemma evicted_io_ok [simp]: "io_ok (evicted s b) = io_ok s"
  by (simp add: io_ok_def evicted_def Let_def)

lemma evicted_meta [frame_simps]: "fs_meta (evicted s b) = fs_meta s"
  by (simp add: fs_meta_def evicted_def Let_def)

lemma slot_neq:
  assumes "blk_inv True s" "cache_info s i \<noteq> 0" "i < CACHE_LEN"
    "unat c mod CACHE_LEN \<noteq> i"
  shows "unat c \<noteq> unat (cache_info s i)"
  using assms by (auto simp: blk_inv_def)

lemma evicted_other:
  assumes inv: "blk_inv True s" and c: "c \<noteq> 0" "c \<noteq> b"
    and fill: "t = (evicted s b)\<lparr>cache := (cache s)(unat b mod CACHE_LEN := x)\<rparr>"
    and miss: "cache_info s (unat b mod CACHE_LEN) \<noteq> b"
  shows "blk_view True t c = blk_view True s c \<and> (blk_readable True s c \<longrightarrow> blk_readable True t c)"
proof -
  define i where "i = unat b mod CACHE_LEN"
  have lt: "i < CACHE_LEN" unfolding i_def by simp
  note [simp] = i_def[symmetric]
  show ?thesis
  proof (cases "unat c mod CACHE_LEN = i")
    case True
    then show ?thesis
      using c unfolding fill blk_view_def blk_readable_def evicted_def Let_def
      by (auto simp: word_unat_eq_iff)
  next
    case False
    have "unat c \<noteq> unat (cache_info s i) \<or> cache_info s i = 0"
      using slot_neq[OF inv _ lt] False by blast
    moreover have "unat c \<noteq> 0" using c by (simp add: unat_eq_0)
    ultimately have "unat c \<noteq> unat (cache_info s i)" by auto
    with False show ?thesis
      unfolding fill blk_view_def blk_readable_def evicted_def Let_def by auto
  qed
qed

lemma evicted_inv:
  assumes "blk_inv True s"
  shows "blk_inv True ((evicted s b)\<lparr>cache := x\<rparr>)"
  using assms by (auto simp: blk_inv_def evicted_def io_ok_def Let_def)

lemma read_ch_blk_plain:
  assumes "blk_inv False s" "blk_readable False s b"
  shows "read_ch_blk False s b (page_addr p) buf = (0, s, blk_view False s b)"
  using assms read_block_u32[of s b p buf]
  by (simp add: read_ch_blk_def blk_inv_def blk_readable_def blk_view_def)

lemma read_ch_blk_hit:
  "cache_info s (unat b mod CACHE_LEN) = b \<Longrightarrow>
   read_ch_blk True s b addr buf = (0, s, blk_view True s b)"
  by (simp add: read_ch_blk_def blk_view_def Let_def)

lemma read_ch_blk_miss:
  assumes "io_ok s" "cache_info s (unat b mod CACHE_LEN) \<noteq> b" "unat b < disk_len s"
  shows "read_ch_blk True s b addr buf =
    (0, (evicted s b)\<lparr>cache := (cache s)(unat b mod CACHE_LEN := disk (evicted s b) (unat b))\<rparr>,
     disk (evicted s b) (unat b))"
proof -
  let ?i = "unat b mod CACHE_LEN"
  let ?e = "evicted s b"
  have len: "unat b < disk_len ?e" using assms(3) by (simp add: evicted_def Let_def)
  have rb: "read_block ?e (ucast b) (page_addr (cache_page ?e) + 4096 * of_nat ?i) (cache ?e ?i)
      = (0, disk ?e (unat b))"
    using read_block_u32[of ?e b] assms(1) len by simp
  show ?thesis
    using assms(2) rb by (simp add: read_ch_blk_def flush_ch_blk_ok[OF assms(1)] Let_def evicted_def)
qed

lemma evicted_disk:
  assumes "cache_info s (unat b mod CACHE_LEN) \<noteq> b"
  shows "disk (evicted s b) (unat b) = blk_view True s b"
  using assms by (auto simp: evicted_def blk_view_def Let_def word_unat_eq_iff)

lemma write_ch_blk_cached:
  assumes "io_ok s"
  shows "write_ch_blk True s b addr buf =
    (0, (if cache_info s (unat b mod CACHE_LEN) = b then s else evicted s b)
          \<lparr>cache := (cache s)(unat b mod CACHE_LEN := buf)\<rparr>)"
  by (simp add: write_ch_blk_def flush_ch_blk_ok[OF assms] evicted_def Let_def)

lemma read_ch_blk_result:
  assumes inv: "blk_inv c s" and b: "b \<noteq> 0" and r: "blk_readable c s b"
  shows "\<exists>s'. read_ch_blk c s b (page_addr p) buf = (0, s', blk_view c s b) \<and> blk_inv c s' \<and>
    fs_meta s' = fs_meta s \<and>
    (\<forall>d. d \<noteq> 0 \<longrightarrow> blk_view c s' d = blk_view c s d \<and> (blk_readable c s d \<longrightarrow> blk_readable c s' d))"
proof (cases "c \<and> cache_info s (unat b mod CACHE_LEN) \<noteq> b")
  case False
  then show ?thesis
    using inv r read_ch_blk_plain[of s b p buf] read_ch_blk_hit[of s b "page_addr p" buf]
    by (cases c) auto
next
  case True
  then have c: c and miss: "cache_info s (unat b mod CACHE_LEN) \<noteq> b" by auto
  let ?t = "(evicted s b)\<lparr>cache := (cache s)(unat b mod CACHE_LEN := blk_view True s b)\<rparr>"
  from c miss r have "unat b < disk_len s" by (simp add: blk_readable_def)
  with c inv miss have rd: "read_ch_blk c s b (page_addr p) buf = (0, ?t, blk_view c s b)"
    using read_ch_blk_miss[of s b] evicted_disk[OF miss] by (simp add: blk_inv_def)
  have self: "blk_view c ?t b = blk_view c s b" "blk_readable c ?t b"
    using c by (simp_all add: blk_view_def blk_readable_def evicted_def Let_def)
  have "blk_view c ?t d = blk_view c s d \<and> (blk_readable c s d \<longrightarrow> blk_readable c ?t d)"
    if "d \<noteq> 0" for d
    using self evicted_other[OF _ that _ refl miss] inv c by (cases "d = b") auto
  moreover have "blk_inv c ?t" using inv c evicted_inv by simp
  moreover have "fs_meta ?t = fs_meta s" by (simp add: fs_meta_def evicted_def Let_def)
  ultimately show ?thesis using rd by blast
qed

text \<open>
  A read of any block but block 0 succeeds; of a block that is not readable the caller gets
  some bytes, and only that block may change.
\<close>

lemma read_ch_blk_any:
  assumes inv: "blk_inv c s" and b: "b \<noteq> 0"
  shows "\<exists>s' t. read_ch_blk c s b (page_addr p) buf = (0, s', t) \<and> blk_inv c s' \<and>
    fs_meta s' = fs_meta s \<and> (blk_readable c s b \<longrightarrow> t = blk_view c s b) \<and>
    (\<forall>d. d \<noteq> 0 \<longrightarrow> d \<noteq> b \<longrightarrow>
       blk_view c s' d = blk_view c s d \<and> (blk_readable c s d \<longrightarrow> blk_readable c s' d))"
proof (cases "blk_readable c s b")
  case True
  then show ?thesis using read_ch_blk_result[OF assms] by blast
next
  case unread: False
  from inv have io: "io_ok s" by (simp add: blk_inv_def)
  show ?thesis
  proof (cases c)
    case False
    with unread read_block_u32[OF io, of b p buf] inv show ?thesis by (simp add: read_ch_blk_def)
  next
    case c: True
    let ?i = "unat b mod CACHE_LEN"
    let ?e = "evicted s b"
    from unread c have miss: "cache_info s ?i \<noteq> b" by (simp add: blk_readable_def)
    define x where "x = (if unat b < disk_len ?e then disk ?e (unat b) else cache ?e ?i)"
    let ?t = "?e\<lparr>cache := (cache s)(?i := x)\<rparr>"
    have rb: "read_block ?e (ucast b) (page_addr (cache_page ?e) + 4096 * of_nat ?i) (cache ?e ?i) = (0, x)"
      using read_block_u32[of ?e b] io by (simp add: x_def)
    have "read_ch_blk c s b (page_addr p) buf = (0, ?t, x)"
      using c miss rb by (simp add: read_ch_blk_def flush_ch_blk_ok[OF io] Let_def evicted_def)
    moreover have "blk_view c ?t d = blk_view c s d \<and> (blk_readable c s d \<longrightarrow> blk_readable c ?t d)"
      if "d \<noteq> 0" "d \<noteq> b" for d
      using evicted_other[OF _ that refl miss] inv c by auto
    moreover have "blk_inv c ?t" using inv c evicted_inv by simp
    moreover have "fs_meta ?t = fs_meta s" by (simp add: fs_meta_def evicted_def Let_def)
    ultimately show ?thesis using unread by blast
  qed
qed

lemma write_ch_blk_result:
  assumes inv: "blk_inv c s" and b: "b \<noteq> 0"
  shows "\<exists>s'. write_ch_blk c s b (page_addr p) buf = (0, s') \<and> blk_inv c s' \<and>
    fs_meta s' = fs_meta s \<and> blk_view c s' b = buf \<and> blk_readable c s' b \<and>
    (\<forall>d. d \<noteq> 0 \<longrightarrow> d \<noteq> b \<longrightarrow>
       blk_view c s' d = blk_view c s d \<and> (blk_readable c s d \<longrightarrow> blk_readable c s' d))"
proof (cases c)
  case False
  with inv have io: "io_ok s" by (simp add: blk_inv_def)
  show ?thesis
    using False inv write_block_u32[OF io, of b p buf]
    by (auto simp: write_ch_blk_def blk_inv_def io_ok_def fs_meta_def blk_view_def
        blk_readable_def word_unat_eq_iff)
next
  case c: True
  let ?i = "unat b mod CACHE_LEN"
  from inv have io: "io_ok s" by (simp add: blk_inv_def)
  show ?thesis
  proof (cases "cache_info s ?i = b")
    case True
    let ?t = "s\<lparr>cache := (cache s)(?i := buf)\<rparr>"
    have "blk_view c ?t d = blk_view c s d \<and> (blk_readable c s d \<longrightarrow> blk_readable c ?t d)"
      if "d \<noteq> b" for d
      using that True by (auto simp: blk_view_def blk_readable_def)
    with True c inv show ?thesis
      using write_ch_blk_cached[OF io, of b "page_addr p" buf]
      by (auto simp: blk_inv_def io_ok_def fs_meta_def blk_view_def blk_readable_def)
  next
    case miss: False
    let ?t = "(evicted s b)\<lparr>cache := (cache s)(?i := buf)\<rparr>"
    have "blk_view c ?t d = blk_view c s d \<and> (blk_readable c s d \<longrightarrow> blk_readable c ?t d)"
      if "d \<noteq> 0" "d \<noteq> b" for d
      using evicted_other[OF _ that refl miss] inv c by auto
    moreover have "blk_view c ?t b = buf" "blk_readable c ?t b"
      using c by (simp_all add: blk_view_def blk_readable_def evicted_def Let_def)
    moreover have "blk_inv c ?t" using inv c evicted_inv by simp
    moreover have "fs_meta ?t = fs_meta s" by (simp add: fs_meta_def evicted_def Let_def)
    ultimately show ?thesis
      using write_ch_blk_cached[OF io, of b "page_addr p" buf] c miss by auto
  qed
qed

interpretation blk: block_store "blk_inv c" "blk_view c" "blk_readable c" fs_meta
    "\<lambda>s b buf. read_ch_blk c s b (page_addr p) buf" "\<lambda>s b buf. write_ch_blk c s b (page_addr p) buf"
  for c p
proof unfold_locales
  show "\<exists>s'. read_ch_blk c s b (page_addr p) buf = (0, s', blk_view c s b) \<and> blk_inv c s' \<and>
      fs_meta s' = fs_meta s \<and> (\<forall>d. d \<noteq> 0 \<longrightarrow> blk_view c s' d = blk_view c s d \<and>
        (blk_readable c s d \<longrightarrow> blk_readable c s' d))"
    if "blk_inv c s" "b \<noteq> 0" "blk_readable c s b" for s b buf
    using read_ch_blk_result[OF that] .
  show "\<exists>s'. write_ch_blk c s b (page_addr p) buf = (0, s') \<and> blk_inv c s' \<and> fs_meta s' = fs_meta s \<and>
      blk_view c s' b = buf \<and> blk_readable c s' b \<and>
      (\<forall>d. d \<noteq> 0 \<longrightarrow> d \<noteq> b \<longrightarrow> blk_view c s' d = blk_view c s d \<and>
        (blk_readable c s d \<longrightarrow> blk_readable c s' d))"
    if "blk_inv c s" "b \<noteq> 0" for s b buf
    using write_ch_blk_result[OF that] .
qed

end
