(* ===== verification/Bitmap.thy ===== *)
theory Bitmap
  imports Blockcache
begin

text \<open>
  The two bitmaps of \<open>assignment-4/objstore.c\<close>: the block allocator \<open>alloc_block\<close>,
  \<open>free_block\<close> and \<open>free_pointer_block\<close> over \<open>blk_bmp\<close>, and \<open>mark_obj_dirty\<close> over
  \<open>obj_bmp\<close>. The allocator's contract is the locale \<open>block_allocator\<close>: a set of used
  blocks, from which allocation takes a block outside and to which it adds it.
\<close>

section \<open>Operations\<close>

text \<open>
  The inner loop of \<open>alloc_block\<close> looks for the lowest zero bit of one word, shifting a copy
  of it to the right; the outer loop walks over the words.
\<close>

fun scan_word :: "nat \<Rightarrow> u64 \<Rightarrow> nat \<Rightarrow> nat option" where
  "scan_word 0 temp j = None"
| "scan_word (Suc n) temp j =
     (if temp AND 1 = 0 then Some j else scan_word n (drop_bit 1 temp) (Suc j))"

fun scan_bmp :: "nat \<Rightarrow> (nat \<Rightarrow> u64) \<Rightarrow> nat \<Rightarrow> (nat \<times> nat) option" where
  "scan_bmp 0 bitmap i = None"
| "scan_bmp (Suc n) bitmap i =
     (case scan_word 64 (bitmap i) 0 of
        Some j \<Rightarrow> Some (i, j)
      | None \<Rightarrow> scan_bmp n bitmap (Suc i))"

definition alloc_block :: "objfs_state \<Rightarrow> u32 \<times> objfs_state" where
  "alloc_block s =
     (let first = RES_BLOCKS div 64 - 1 in
      case scan_bmp (BLK_BMP_LN - first) (blk_bmp s) first of
        Some (i, j) \<Rightarrow>
          (of_nat (64 * i + j),
           s\<lparr>blk_bmp := (blk_bmp s)(i := set_bit j (blk_bmp s i))\<rparr>)
      | None \<Rightarrow> (-1, s))"

text \<open>\<open>None\<close>: the word of the bitmap is outside the array.\<close>

definition free_block :: "objfs_state \<Rightarrow> u32 \<Rightarrow> (int \<times> objfs_state) option" where
  "free_block s block_num =
     (let index = unat block_num div 64; b = unat block_num mod 64 in
      if index < BLK_BMP_LN then
        Some (0, s\<lparr>blk_bmp := (blk_bmp s)(index := unset_bit b (blk_bmp s index))\<rparr>)
      else None)"

fun free_pointers :: "objfs_state \<Rightarrow> buffer \<Rightarrow> nat list \<Rightarrow> (int \<times> objfs_state) option" where
  "free_pointers s block_data [] = Some (0, s)"
| "free_pointers s block_data (i # is) =
     (if u32_at block_data i \<noteq> 0 then
        (case free_block s (u32_at block_data i) of
           None \<Rightarrow> None
         | Some (r, s') \<Rightarrow> if r \<noteq> 0 then Some (-1, s') else free_pointers s' block_data is)
      else free_pointers s block_data is)"

definition free_pointer_block :: "bool \<Rightarrow> objfs_state \<Rightarrow> u32 \<Rightarrow> (int \<times> objfs_state) option" where
  "free_pointer_block cached s block_num =
     (case cmalloc s BLOCK_SIZE of
        None \<Rightarrow> Some (-1, s)
      | Some addr \<Rightarrow>
          (case read_ch_blk cached s block_num addr zero_buf of (r, s1, buf) \<Rightarrow>
             if r < 0 then Some (-1, s1)
             else
               (case free_pointers s1 buf [0 ..< BLOCK_SIZE div 4] of
                  None \<Rightarrow> None
                | Some (r, s2) \<Rightarrow>
                    if r \<noteq> 0 then Some (-1, s2)
                    else
                      (case free_block s2 block_num of
                         None \<Rightarrow> None
                       | Some (r, s3) \<Rightarrow> if r \<noteq> 0 then Some (-1, s3) else Some (0, s3)))))"

definition mark_obj_dirty :: "objfs_state \<Rightarrow> u32 \<Rightarrow> (int \<times> objfs_state) option" where
  "mark_obj_dirty s objid =
     (let i = unat (objid - 2) in
      if i div 64 < OBJ_BMP_LN then
        Some (0, s\<lparr>obj_bmp := (obj_bmp s)(i div 64 := set_bit (i mod 64) (obj_bmp s (i div 64)))\<rparr>)
      else None)"

section \<open>The sets the bitmaps stand for\<close>

definition used :: "objfs_state \<Rightarrow> nat set" where
  "used s = {b. b < 64 * BLK_BMP_LN \<and> bit (blk_bmp s (b div 64)) (b mod 64)}"

definition dirty :: "objfs_state \<Rightarrow> nat set" where
  "dirty s = {i. i < 64 * OBJ_BMP_LN \<and> bit (obj_bmp s (i div 64)) (i mod 64)}"

section \<open>The allocator's contract\<close>

text \<open>
  \<open>avail\<close> are the blocks the allocator may hand out; \<open>alloc s = (None, s)\<close> when none is left.
\<close>

locale block_allocator =
  fixes used_set :: "'s \<Rightarrow> nat set"
    and avail :: "nat set"
    and alloc :: "'s \<Rightarrow> nat option \<times> 's"
    and release :: "'s \<Rightarrow> nat \<Rightarrow> 's"
  assumes alloc_some: "alloc s = (Some b, s') \<Longrightarrow>
      b \<in> avail \<and> b \<notin> used_set s \<and> used_set s' = insert b (used_set s)"
    and alloc_none: "alloc s = (None, s') \<longleftrightarrow> s' = s \<and> avail \<subseteq> used_set s"
    and release: "b \<in> avail \<Longrightarrow> used_set (release s b) = used_set s - {b}"
    and finite_avail: "finite avail"
begin

fun alloc_n :: "nat \<Rightarrow> 's \<Rightarrow> nat list \<times> 's" where
  "alloc_n 0 s = ([], s)"
| "alloc_n (Suc n) s =
     (case alloc s of
        (None, s') \<Rightarrow> ([], s')
      | (Some b, s') \<Rightarrow> (case alloc_n n s' of (bs, s'') \<Rightarrow> (b # bs, s'')))"

text \<open>Blocks allocated in a row are distinct, fresh and all marked.\<close>

lemma alloc_n_distinct:
  "alloc_n n s = (bs, s') \<Longrightarrow>
     distinct bs \<and> set bs \<inter> used_set s = {} \<and> set bs \<subseteq> avail \<and> used_set s' = used_set s \<union> set bs"
proof (induction n arbitrary: s bs s')
  case 0
  then show ?case by simp
next
  case (Suc n)
  obtain ob s1 where a: "alloc s = (ob, s1)" by (cases "alloc s")
  show ?case
  proof (cases ob)
    case None
    with a Suc.prems show ?thesis using alloc_none[of s s1] by simp
  next
    case (Some b)
    obtain cs s2 where r: "alloc_n n s1 = (cs, s2)" by (cases "alloc_n n s1")
    with a Some Suc.prems have eq: "bs = b # cs" "s' = s2" by auto
    from a Some have b: "b \<in> avail" "b \<notin> used_set s" "used_set s1 = insert b (used_set s)"
      using alloc_some[of s b s1] by simp_all
    from Suc.IH[OF r] b show ?thesis unfolding eq by auto
  qed
qed

text \<open>As long as \<open>n\<close> blocks are free, \<open>n\<close> allocations succeed.\<close>

lemma alloc_n_enough:
  "n \<le> card (avail - used_set s) \<Longrightarrow> length (fst (alloc_n n s)) = n"
proof (induction n arbitrary: s)
  case 0
  then show ?case by simp
next
  case (Suc n)
  then have "\<not> avail \<subseteq> used_set s"
    by (metis Diff_eq_empty_iff card.empty not_less_eq_eq zero_le)
  obtain ob s1 where a: "alloc s = (ob, s1)" by (cases "alloc s")
  with \<open>\<not> avail \<subseteq> used_set s\<close> obtain b where ob: "ob = Some b"
    using alloc_none[of s s1] by (cases ob) auto
  with a have b: "b \<in> avail" "b \<notin> used_set s" "used_set s1 = insert b (used_set s)"
    using alloc_some[of s b s1] by simp_all
  have "avail - used_set s1 = (avail - used_set s) - {b}" using b by auto
  then have "card (avail - used_set s1) = card (avail - used_set s) - 1"
    using b by (simp add: card_Diff_singleton)
  with Suc have "length (fst (alloc_n n s1)) = n" by simp
  then show ?case using a ob by (cases "alloc_n n s1") simp
qed

lemma release_realloc:
  assumes "b \<in> avail" "avail - {b} \<subseteq> used_set s"
  shows "\<exists>s'. alloc (release s b) = (Some b, s') \<and> used_set s' = insert b (used_set s)"
proof -
  obtain ob s1 where a: "alloc (release s b) = (ob, s1)" by (cases "alloc (release s b)")
  have u: "used_set (release s b) = used_set s - {b}" using release[OF assms(1)] .
  with assms(1) a have "ob \<noteq> None" using alloc_none[of "release s b" s1] by auto
  then obtain b' where "ob = Some b'" by auto
  with a have "b' \<in> avail" "b' \<notin> used_set s - {b}" "used_set s1 = insert b' (used_set s - {b})"
    using alloc_some[of "release s b" b' s1] u by simp_all
  with assms(2) have "b' = b" by auto
  with \<open>ob = Some b'\<close> a \<open>used_set s1 = _\<close> show ?thesis by auto
qed

end

section \<open>\<open>blk_bmp\<close> implements it\<close>

lemma scan_word_Some:
  "scan_word n w j = Some k \<Longrightarrow> j \<le> k \<and> k < j + n \<and> \<not> bit w (k - j) \<and> (\<forall>m<k - j. bit w m)"
proof (induction n w j rule: scan_word.induct)
  case (2 n w j)
  show ?case
  proof (cases "w AND 1 = 0")
    case True
    with 2 show ?thesis by (simp add: even_iff_mod_2_eq_zero and_one_eq bit_0)
  next
    case False
    with 2 have *: "Suc j \<le> k" "k < Suc j + n" "\<not> bit (drop_bit 1 w) (k - Suc j)"
        "\<forall>m<k - Suc j. bit (drop_bit 1 w) m"
      by auto
    from False have "bit w 0" by (simp add: and_one_eq bit_0 even_iff_mod_2_eq_zero)
    moreover have "bit w m" if "0 < m" "m < k - j" for m
      using *(4)[rule_format, of "m - 1"] that by (simp add: bit_drop_bit_eq)
    moreover have "\<not> bit w (k - j)"
      using *(1,3) by (simp add: bit_drop_bit_eq Suc_diff_Suc)
    ultimately show ?thesis using *(1,2) by (metis Suc_leD add_Suc add_Suc_right gr0I)
  qed
qed simp

lemma scan_word_None: "scan_word n w j = None \<Longrightarrow> m < n \<Longrightarrow> bit w m"
proof (induction n w j arbitrary: m rule: scan_word.induct)
  case (2 n w j)
  then have "w AND 1 \<noteq> 0" and r: "scan_word n (drop_bit 1 w) (Suc j) = None"
    by (auto split: if_splits)
  then have "bit w 0" by (simp add: and_one_eq bit_0 even_iff_mod_2_eq_zero)
  moreover have "bit w m" if "m = Suc m'" for m'
    using "2.IH"[OF _ r, of m'] \<open>w AND 1 \<noteq> 0\<close> "2.prems"(2) that by (simp add: bit_drop_bit_eq)
  ultimately show ?case by (cases m) auto
qed simp

lemma scan_bmp_Some:
  "scan_bmp n bm i = Some (a, j) \<Longrightarrow>
     i \<le> a \<and> a < i + n \<and> j < 64 \<and> \<not> bit (bm a) j \<and> (\<forall>m<j. bit (bm a) m) \<and>
     (\<forall>c k. i \<le> c \<longrightarrow> c < a \<longrightarrow> k < 64 \<longrightarrow> bit (bm c) k)"
proof (induction n bm i rule: scan_bmp.induct)
  case (2 n bm i)
  show ?case
  proof (cases "scan_word 64 (bm i) 0")
    case None
    with 2 have "Suc i \<le> a \<and> a < Suc i + n \<and> j < 64 \<and> \<not> bit (bm a) j \<and> (\<forall>m<j. bit (bm a) m) \<and>
     (\<forall>c k. Suc i \<le> c \<longrightarrow> c < a \<longrightarrow> k < 64 \<longrightarrow> bit (bm c) k)" by simp
    moreover have "bit (bm c) k" if "i \<le> c" "c < a" "k < 64" for c k
      using calculation scan_word_None[OF None] that by (cases "c = i") auto
    ultimately show ?thesis by auto
  next
    case (Some k)
    with 2 show ?thesis using scan_word_Some[OF Some] by auto
  qed
qed simp

lemma scan_bmp_None: "scan_bmp n bm i = None \<Longrightarrow> i \<le> c \<Longrightarrow> c < i + n \<Longrightarrow> k < 64 \<Longrightarrow> bit (bm c) k"
proof (induction n bm i rule: scan_bmp.induct)
  case (2 n bm i)
  then have w: "scan_word 64 (bm i) 0 = None" and r: "scan_bmp n bm (Suc i) = None"
    by (auto split: option.splits)
  show ?case
    using "2.IH"[OF w r] scan_word_None[OF w] "2.prems" by (cases "c = i") auto
qed simp

definition alloc_nat :: "objfs_state \<Rightarrow> nat option \<times> objfs_state" where
  "alloc_nat s = (case alloc_block s of (b, s') \<Rightarrow> (if b = -1 then None else Some (unat b), s'))"

definition release_nat :: "objfs_state \<Rightarrow> nat \<Rightarrow> objfs_state" where
  "release_nat s b = (case free_block s (of_nat b) of Some (r, s') \<Rightarrow> s' | None \<Rightarrow> s)"

definition alloc_range :: "nat set" where
  "alloc_range = {20160 ..< 64 * BLK_BMP_LN}"

lemma used_set_bit:
  assumes "i < BLK_BMP_LN" "j < 64"
  shows "used (s\<lparr>blk_bmp := (blk_bmp s)(i := set_bit j (blk_bmp s i))\<rparr>) = insert (64 * i + j) (used s)"
proof (rule set_eqI)
  fix b
  have "b = 64 * i + j \<longleftrightarrow> b div 64 = i \<and> b mod 64 = j"
    using assms by auto
  moreover have "64 * i + j < 64 * BLK_BMP_LN" using assms by simp
  ultimately show "b \<in> used (s\<lparr>blk_bmp := (blk_bmp s)(i := set_bit j (blk_bmp s i))\<rparr>) \<longleftrightarrow>
      b \<in> insert (64 * i + j) (used s)"
    by (auto simp: used_def bit_facts)
qed

lemma used_clear_bit:
  assumes "j < 64"
  shows "used (s\<lparr>blk_bmp := (blk_bmp s)(i := unset_bit j (blk_bmp s i))\<rparr>) = used s - {64 * i + j}"
proof (rule set_eqI)
  fix b
  have "b = 64 * i + j \<longleftrightarrow> b div 64 = i \<and> b mod 64 = j"
    using assms by auto
  then show "b \<in> used (s\<lparr>blk_bmp := (blk_bmp s)(i := unset_bit j (blk_bmp s i))\<rparr>) \<longleftrightarrow>
      b \<in> used s - {64 * i + j}"
    by (auto simp: used_def bit_facts)
qed

lemma alloc_block_cases:
  obtains (full) "alloc_block s = (-1, s)" "alloc_range \<subseteq> used s"
  | (got) b where "alloc_block s = (of_nat b, s\<lparr>blk_bmp :=
        (blk_bmp s)(b div 64 := set_bit (b mod 64) (blk_bmp s (b div 64)))\<rparr>)"
      "b \<in> alloc_range" "b \<notin> used s" "alloc_range \<inter> {..<b} \<subseteq> used s"
proof (cases "scan_bmp 130757 (blk_bmp s) 315")
  case None
  have "b \<in> used s" if "b \<in> alloc_range" for b
  proof -
    from that have "315 \<le> b div 64" "b div 64 < 131072"
      by (auto simp: alloc_range_def)
    then show ?thesis
      using scan_bmp_None[OF None, of "b div 64" "b mod 64"] that by (simp add: used_def alloc_range_def)
  qed
  with None full show ?thesis by (auto simp: alloc_block_def Let_def)
next
  case (Some ij)
  obtain i j where ij: "ij = (i, j)" by (cases ij)
  note sc = scan_bmp_Some[OF Some[unfolded ij]]
  let ?b = "64 * i + j"
  from sc have b: "?b div 64 = i" "?b mod 64 = j" by simp_all
  have "c \<in> used s" if c: "c \<in> alloc_range" "c < ?b" for c
  proof -
    have "315 \<le> c div 64" "c div 64 \<le> i" using c sc by (auto simp: alloc_range_def)
    moreover have "c mod 64 < j" if "c div 64 = i" using c(2) that sc by presburger
    ultimately have "bit (blk_bmp s (c div 64)) (c mod 64)"
      using sc by (cases "c div 64 = i") auto
    then show ?thesis using c(1) by (simp add: used_def alloc_range_def)
  qed
  moreover have "?b \<in> alloc_range" using sc by (auto simp: alloc_range_def)
  moreover have "?b \<notin> used s" using sc b by (simp add: used_def)
  ultimately show ?thesis
    using got[of ?b] Some b by (auto simp: alloc_block_def Let_def ij)
qed

lemma alloc_range_small: "b \<in> alloc_range \<Longrightarrow> b < 8388608"
  by (simp add: alloc_range_def)

lemma of_nat_range_neq:
  assumes "b \<in> alloc_range" shows "(of_nat b :: u32) \<noteq> -1"
proof
  assume "(of_nat b :: u32) = -1"
  then have "unat (of_nat b :: u32) = unat (-1 :: u32)" by simp
  with alloc_range_small[OF assms] show False by (simp add: unsigned_minus_1_eq_mask mask_eq_exp_minus_1)
qed

lemma unat_range [simp]: "b \<in> alloc_range \<Longrightarrow> unat (of_nat b :: u32) = b"
  using alloc_range_small[of b] by simp

lemma used_alloc:
  assumes "b \<in> alloc_range"
  shows "used (s\<lparr>blk_bmp := (blk_bmp s)(b div 64 := set_bit (b mod 64) (blk_bmp s (b div 64)))\<rparr>)
    = insert b (used s)"
  using used_set_bit[of "b div 64" "b mod 64" s] alloc_range_small[OF assms] by simp

interpretation bmp: block_allocator used alloc_range alloc_nat release_nat
proof
  fix s s' :: objfs_state and b
  show "alloc_nat s = (Some b, s') \<Longrightarrow> b \<in> alloc_range \<and> b \<notin> used s \<and> used s' = insert b (used s)"
    by (cases s rule: alloc_block_cases)
      (auto simp: alloc_nat_def used_alloc unat_range split: if_splits)
  show "alloc_nat s = (None, s') \<longleftrightarrow> s' = s \<and> alloc_range \<subseteq> used s"
    by (cases s rule: alloc_block_cases) (auto simp: alloc_nat_def of_nat_range_neq)
  show "b \<in> alloc_range \<Longrightarrow> used (release_nat s b) = used s - {b}"
    by (auto simp: release_nat_def free_block_def Let_def used_clear_bit alloc_range_def)
  show "finite alloc_range" by (simp add: alloc_range_def)
qed

end
