(* ===== verification/Objects.thy ===== *)
theory Objects
  imports Bitmap
begin

text \<open>
  The object table of \<open>assignment-4/objstore.c\<close>: \<open>find_object\<close>, \<open>find_object_id\<close>,
  \<open>create_object\<close>, \<open>release_object\<close>, \<open>destroy_object\<close>, \<open>rename_object\<close> and
  \<open>fillup_size_details\<close>. A \<open>pObj\<close> is the index of the object in the table. A key argument
  is the byte area its pointer leads to, with the terminating NUL inside.
\<close>

section \<open>Operations\<close>

definition u32_bytes :: "u32 \<Rightarrow> byte list" where
  "u32_bytes w = map (u32_byte w) [0 ..< 4]"

text \<open>
  The memory of an object from its key on: a key without a NUL is read on into the block
  pointers, as the compiled \<open>strcmp\<close> does.
\<close>

definition key_mem :: "obj \<Rightarrow> byte list" where
  "key_mem ob = obj_key ob @ concat (map u32_bytes (obj_direct ob))
     @ concat (map u32_bytes (obj_indirect ob))"

fun find_from :: "nat \<Rightarrow> (nat \<Rightarrow> obj) \<Rightarrow> byte list \<Rightarrow> nat \<Rightarrow> nat option" where
  "find_from 0 start key i = None"
| "find_from (Suc n) start key i =
     (if strcmp_eq (key_mem (start i)) key then Some i else find_from n start key (Suc i))"

definition find_object :: "objfs_state \<Rightarrow> byte list \<Rightarrow> nat option" where
  "find_object s key = find_from MAX_OBJS (objects s) key 0"

definition find_object_id :: "byte list \<Rightarrow> objfs_state \<Rightarrow> int" where
  "find_object_id key s = (case find_object s key of Some i \<Rightarrow> int i + 2 | None \<Rightarrow> -1)"

text \<open>The loop of \<open>create_object\<close>: \<open>None\<close> is the early return on a duplicate key.\<close>

fun create_scan :: "nat \<Rightarrow> (nat \<Rightarrow> obj) \<Rightarrow> byte list \<Rightarrow> nat \<Rightarrow> int \<Rightarrow> int option" where
  "create_scan 0 start key i free = Some free"
| "create_scan (Suc n) start key i free =
     (if free < 0 \<and> obj_size (start i) = 0 then create_scan n start key (Suc i) (int i)
      else if strcmp_eq (key_mem (start i)) key then None
      else create_scan n start key (Suc i) free)"

text \<open>\<open>strcpy\<close> into the key of an object; \<open>None\<close> when it would run over the array.\<close>

definition strcpy_key :: "byte list \<Rightarrow> byte list \<Rightarrow> byte list option" where
  "strcpy_key dst src =
     (let n = length (cstr src) in
      if n < KEY_SIZE then Some (cstr src @ 0 # drop (Suc n) dst) else None)"

definition set_obj :: "objfs_state \<Rightarrow> nat \<Rightarrow> obj \<Rightarrow> objfs_state" where
  "set_obj s i ob = s\<lparr>objects := (objects s)(i := ob)\<rparr>"

definition create_object :: "byte list \<Rightarrow> objfs_state \<Rightarrow> (int \<times> objfs_state) option" where
  "create_object key s =
     (case create_scan MAX_OBJS (objects s) key 0 (-1) of
        None \<Rightarrow> Some (-1, s)
      | Some free \<Rightarrow>
          if free < 0 then Some (-1, s)
          else do {
            let i = nat free;
            k \<leftarrow> strcpy_key (obj_key (objects s i)) key;
            let s1 = set_obj s i ((objects s i)\<lparr>obj_key := k, obj_size := 1\<rparr>);
            (r, s2) \<leftarrow> mark_obj_dirty s1 (word_of_int (free + 2));
            Some (free + 2, s2)
          })"

definition release_object :: "int \<Rightarrow> objfs_state \<Rightarrow> int \<times> objfs_state" where
  "release_object objid s = (0, s)"

text \<open>The two loops of \<open>destroy_object\<close>, over the indices 0 to 3.\<close>

fun free_direct :: "objfs_state \<Rightarrow> nat \<Rightarrow> nat list \<Rightarrow> (int \<times> objfs_state) option" where
  "free_direct s ob [] = Some (0, s)"
| "free_direct s ob (i # is) =
     (if obj_direct (objects s ob) ! i \<noteq> 0 then
        (case free_block s (obj_direct (objects s ob) ! i) of
           None \<Rightarrow> None
         | Some (r, s1) \<Rightarrow>
             if r \<noteq> 0 then Some (-1, s1)
             else free_direct (set_obj s1 ob ((objects s1 ob)
                    \<lparr>obj_direct := (obj_direct (objects s1 ob))[i := 0]\<rparr>)) ob is)
      else free_direct s ob is)"

fun free_indirect :: "bool \<Rightarrow> objfs_state \<Rightarrow> nat \<Rightarrow> nat list \<Rightarrow> (int \<times> objfs_state) option" where
  "free_indirect cached s ob [] = Some (0, s)"
| "free_indirect cached s ob (i # is) =
     (if obj_indirect (objects s ob) ! i \<noteq> 0 then
        (case free_pointer_block cached s (obj_indirect (objects s ob) ! i) of
           None \<Rightarrow> None
         | Some (r, s1) \<Rightarrow>
             if r \<noteq> 0 then Some (-1, s1)
             else free_indirect cached (set_obj s1 ob ((objects s1 ob)
                    \<lparr>obj_indirect := (obj_indirect (objects s1 ob))[i := 0]\<rparr>)) ob is)
      else free_indirect cached s ob is)"

definition destroy_object :: "bool \<Rightarrow> byte list \<Rightarrow> objfs_state \<Rightarrow> (int \<times> objfs_state) option" where
  "destroy_object cached key s =
     (case find_object s key of
        None \<Rightarrow> Some (-1, s)
      | Some ob \<Rightarrow>
          if obj_size (objects s ob) = 0 then Some (-1, s)
          else do {
            (r, s1) \<leftarrow> free_direct s ob [0 ..< 4];
            if r \<noteq> 0 then Some (-1, s1)
            else do {
              (r, s2) \<leftarrow> free_indirect cached s1 ob [0 ..< 4];
              if r \<noteq> 0 then Some (-1, s2)
              else do {
                let s3 = set_obj s2 ob ((objects s2 ob)
                           \<lparr>obj_size := 0, obj_key := replicate KEY_SIZE 0\<rparr>);
                (r, s4) \<leftarrow> mark_obj_dirty s3 (of_nat (ob + 2));
                Some (0, s4)
              }
            }
          })"

text \<open>The loop of \<open>rename_object\<close>: \<open>None\<close> is the early return when the new name is taken.\<close>

fun rename_scan :: "nat \<Rightarrow> (nat \<Rightarrow> obj) \<Rightarrow> byte list \<Rightarrow> byte list \<Rightarrow> nat \<Rightarrow> int \<Rightarrow> int option" where
  "rename_scan 0 start key newname i obj_index = Some obj_index"
| "rename_scan (Suc n) start key newname i obj_index =
     (let obj_index' = (if strcmp_eq (key_mem (start i)) key then int i else obj_index) in
      if strcmp_eq (key_mem (start i)) newname then None
      else rename_scan n start key newname (Suc i) obj_index')"

text \<open>\<open>memcpy\<close> of \<open>KEY_SIZE\<close> bytes: \<open>None\<close> when fewer are readable at the new name.\<close>

definition rename_object ::
    "byte list \<Rightarrow> byte list \<Rightarrow> objfs_state \<Rightarrow> (int \<times> objfs_state) option" where
  "rename_object key newname s =
     (case rename_scan MAX_OBJS (objects s) key newname 0 (-1) of
        None \<Rightarrow> Some (-1, s)
      | Some obj_index \<Rightarrow>
          if obj_index < 0 then Some (-1, s)
          else if length newname < KEY_SIZE then None
          else do {
            let i = nat obj_index;
            let s1 = set_obj s i ((objects s i)\<lparr>obj_key := take KEY_SIZE newname\<rparr>);
            (r, s2) \<leftarrow> mark_obj_dirty s1 (word_of_int (obj_index + 2));
            Some (obj_index + 2, s2)
          })"

definition fillup_size_details :: "stat \<Rightarrow> objfs_state \<Rightarrow> (int \<times> stat) option" where
  "fillup_size_details buf s =
     (let i = unat (st_ino buf - 2) in
      if st_ino buf < 2 then Some (-1, buf)
      else if i < MAX_OBJS then
        let size = obj_size (objects s i);
            blocks = uint (drop_bit 9 size)
        in Some (0, buf\<lparr>st_size := sint size,
             st_blocks := (if push_bit 9 (drop_bit 9 size) \<noteq> size then blocks + 1 else blocks)\<rparr>)
      else None)"

section \<open>The directory the table stands for\<close>

definition wf_obj :: "obj \<Rightarrow> bool" where
  "wf_obj ob \<longleftrightarrow> length (obj_key ob) = KEY_SIZE \<and> 0 \<in> set (obj_key ob) \<and>
     length (obj_direct ob) = 4 \<and> length (obj_indirect ob) = 4"

definition names :: "objfs_state \<Rightarrow> nat \<Rightarrow> byte list option" where
  "names s i =
     (if i < MAX_OBJS \<and> obj_size (objects s i) \<noteq> 0 then Some (cstr (obj_key (objects s i))) else None)"

definition dir_inv :: "objfs_state \<Rightarrow> bool" where
  "dir_inv s \<longleftrightarrow>
     (\<forall>i<MAX_OBJS. wf_obj (objects s i) \<and>
        (obj_size (objects s i) = 0 \<longleftrightarrow> cstr (obj_key (objects s i)) = [])) \<and>
     inj_on (names s) (dom (names s))"

definition valid_key :: "byte list \<Rightarrow> bool" where
  "valid_key key \<longleftrightarrow> 0 \<in> set key \<and> cstr key \<noteq> [] \<and> length (cstr key) < KEY_SIZE"

lemma cstr_key_mem: "wf_obj ob \<Longrightarrow> cstr (key_mem ob) = cstr (obj_key ob)"
  by (simp add: key_mem_def wf_obj_def cstr_append_stop)

lemma names_match:
  assumes "dir_inv s" "i < MAX_OBJS" "cstr key \<noteq> []"
  shows "strcmp_eq (key_mem (objects s i)) key \<longleftrightarrow> names s i = Some (cstr key)"
  using assms cstr_key_mem[of "objects s i"]
  by (auto simp: strcmp_eq_def names_def dir_inv_def)

lemma names_unique:
  "dir_inv s \<Longrightarrow> names s i = Some k \<Longrightarrow> names s j = Some k \<Longrightarrow> i = j"
  by (metis dir_inv_def domI inj_onD)

lemma names_bound: "names s i = Some k \<Longrightarrow> i < MAX_OBJS"
  by (simp add: names_def split: if_splits)

lemma find_from_Some:
  "find_from n start key i = Some j \<Longrightarrow> i \<le> j \<and> j < i + n \<and> strcmp_eq (key_mem (start j)) key"
  by (induction n start key i rule: find_from.induct) (auto split: if_splits)

lemma find_from_None:
  "find_from n start key i = None \<Longrightarrow> i \<le> j \<Longrightarrow> j < i + n \<Longrightarrow> \<not> strcmp_eq (key_mem (start j)) key"
proof (induction n start key i rule: find_from.induct)
  case (2 n start key i)
  then show ?case by (cases "j = i") (auto split: if_splits)
qed simp

lemma find_object_iff:
  assumes "dir_inv s" "cstr key \<noteq> []"
  shows "find_object s key = Some i \<longleftrightarrow> names s i = Some (cstr key)"
proof
  assume "find_object s key = Some i"
  then have "i < MAX_OBJS" "strcmp_eq (key_mem (objects s i)) key"
    using find_from_Some[of MAX_OBJS "objects s" key 0 i] by (simp_all add: find_object_def)
  with names_match[OF assms(1) _ assms(2)] show "names s i = Some (cstr key)" by blast
next
  assume i: "names s i = Some (cstr key)"
  then have "strcmp_eq (key_mem (objects s i)) key"
    using names_match[OF assms(1) names_bound assms(2)] by blast
  then obtain j where j: "find_object s key = Some j"
    using find_from_None[of MAX_OBJS "objects s" key 0 i] names_bound[OF i]
    by (cases "find_object s key") (auto simp: find_object_def)
  then have "j < MAX_OBJS" "strcmp_eq (key_mem (objects s j)) key"
    using find_from_Some[of MAX_OBJS "objects s" key 0 j] by (simp_all add: find_object_def)
  then have "names s j = Some (cstr key)"
    using names_match[OF assms(1) _ assms(2)] by blast
  with names_unique[OF assms(1) i] j show "find_object s key = Some i" by simp
qed

lemma list_ex_names:
  assumes "dir_inv s" "cstr key \<noteq> []"
  shows "list_ex (\<lambda>j. strcmp_eq (key_mem (objects s j)) key) [0 ..< MAX_OBJS] \<longleftrightarrow>
    (\<exists>i. names s i = Some (cstr key))"
  unfolding list_ex_iff set_upt
  using names_match[OF assms(1) _ assms(2)] names_bound
  by (metis atLeastLessThan_iff le0)

lemma find_object_None:
  assumes "dir_inv s" "cstr key \<noteq> []"
  shows "find_object s key = None \<longleftrightarrow> (\<forall>i. names s i \<noteq> Some (cstr key))"
  using find_object_iff[OF assms] by (metis not_None_eq)

section \<open>Creating an object\<close>

lemma create_scan_found:
  "0 \<le> free \<Longrightarrow> create_scan n start key i free =
     (if list_ex (\<lambda>j. strcmp_eq (key_mem (start j)) key) [i ..< i + n] then None else Some free)"
  by (induction n arbitrary: i) (simp_all add: upt_Suc_Cons del: upt_Suc add_Suc_right)

lemma create_scan_search:
  assumes "\<And>j. obj_size (start j) = 0 \<Longrightarrow> \<not> strcmp_eq (key_mem (start j)) key" "free < 0"
  shows "create_scan n start key i free =
     (if list_ex (\<lambda>j. strcmp_eq (key_mem (start j)) key) [i ..< i + n] then None
      else case find (\<lambda>j. obj_size (start j) = 0) [i ..< i + n] of
             Some j \<Rightarrow> Some (int j) | None \<Rightarrow> Some free)"
  using assms
  by (induction n arbitrary: i)
    (simp_all add: upt_Suc_Cons create_scan_found del: upt_Suc add_Suc_right)

text \<open>The slot \<open>create_object\<close> takes: the first with size 0.\<close>

definition free_slot :: "objfs_state \<Rightarrow> nat option" where
  "free_slot s = find (\<lambda>j. obj_size (objects s j) = 0) [0 ..< MAX_OBJS]"

lemma free_slot_Some:
  "free_slot s = Some i \<Longrightarrow> i < MAX_OBJS \<and> obj_size (objects s i) = 0 \<and> (\<forall>j<i. obj_size (objects s j) \<noteq> 0)"
  unfolding free_slot_def find_Some_iff by auto

lemma free_slot_None: "free_slot s = None \<longleftrightarrow> (\<forall>i<MAX_OBJS. obj_size (objects s i) \<noteq> 0)"
  unfolding free_slot_def find_None_iff by auto

lemma mark_obj_dirty_ok:
  assumes "i < MAX_OBJS"
  shows "mark_obj_dirty s (of_nat (i + 2)) =
    Some (0, s\<lparr>obj_bmp := (obj_bmp s)(i div 64 := set_bit (i mod 64) (obj_bmp s (i div 64)))\<rparr>)"
proof -
  have "(of_nat (i + 2) - 2 :: u32) = of_nat i" by simp
  then have "unat (of_nat (i + 2) - 2 :: u32) = i" using assms by simp
  with assms show ?thesis by (simp add: mark_obj_dirty_def Let_def)
qed

lemma dirty_set_bit:
  assumes "i < MAX_OBJS"
  shows "dirty (s\<lparr>obj_bmp := (obj_bmp s)(i div 64 := set_bit (i mod 64) (obj_bmp s (i div 64)))\<rparr>)
    = insert i (dirty s)"
proof (rule set_eqI)
  fix j
  have "j = i \<longleftrightarrow> j div 64 = i div 64 \<and> j mod 64 = i mod 64" by (metis div_mult_mod_eq)
  then show "j \<in> dirty (s\<lparr>obj_bmp := (obj_bmp s)(i div 64 := set_bit (i mod 64) (obj_bmp s (i div 64)))\<rparr>)
      \<longleftrightarrow> j \<in> insert i (dirty s)"
    using assms by (auto simp: dirty_def bit_facts)
qed

text \<open>An object with a new name and a positive size in a slot keeps the table well formed.\<close>

lemma dir_inv_set_obj:
  assumes inv: "dir_inv s" and i: "i < MAX_OBJS" and wf: "wf_obj ob"
    and live: "obj_size ob \<noteq> 0" "cstr (obj_key ob) \<noteq> []"
    and new: "\<forall>j. j \<noteq> i \<longrightarrow> names s j \<noteq> Some (cstr (obj_key ob))"
  shows "dir_inv (set_obj s i ob) \<and> names (set_obj s i ob) = (names s)(i \<mapsto> cstr (obj_key ob))"
proof
  let ?s' = "set_obj s i ob"
  show n: "names ?s' = (names s)(i \<mapsto> cstr (obj_key ob))"
    using i live by (auto simp: names_def set_obj_def fun_eq_iff)
  have "inj_on (names ?s') (dom (names ?s'))"
    unfolding n using inv new by (auto simp: inj_on_def dir_inv_def dest: domD)
  with inv i wf live show "dir_inv ?s'"
    by (auto simp: dir_inv_def set_obj_def)
qed

lemma names_bmp [simp]: "names (s\<lparr>obj_bmp := x\<rparr>) = names s"
  by (simp add: names_def fun_eq_iff)

lemma dir_inv_bmp [simp]: "dir_inv (s\<lparr>obj_bmp := x\<rparr>) = dir_inv s"
  by (simp add: dir_inv_def)

lemma strcpy_key_ok:
  assumes "valid_key key" "length dst = KEY_SIZE"
  shows "\<exists>k. strcpy_key dst key = Some k \<and> length k = KEY_SIZE \<and> 0 \<in> set k \<and> cstr k = cstr key"
  using assms by (auto simp: strcpy_key_def valid_key_def Let_def cstr_no_nul)

lemma create_object_cases:
  assumes inv: "dir_inv s" and key: "valid_key key"
  shows "create_object key s =
     (if \<exists>i. names s i = Some (cstr key) then Some (-1, s)
      else case free_slot s of
        None \<Rightarrow> Some (-1, s)
      | Some i \<Rightarrow> do {
          k \<leftarrow> strcpy_key (obj_key (objects s i)) key;
          let s1 = set_obj s i ((objects s i)\<lparr>obj_key := k, obj_size := 1\<rparr>);
          (r, s2) \<leftarrow> mark_obj_dirty s1 (of_nat (i + 2));
          Some (int i + 2, s2) })"
proof -
  have ne: "cstr key \<noteq> []" using key by (simp add: valid_key_def)
  define start where "start = (\<lambda>j. if j < MAX_OBJS then objects s j else objects s j\<lparr>obj_size := 1\<rparr>)"
  have cong: "create_scan n (objects s) key i f = create_scan n start key i f" if "i + n \<le> MAX_OBJS" for n i f
    using that by (induction n arbitrary: i f) (auto simp: start_def)
  have nomatch: "\<not> strcmp_eq (key_mem (start j)) key" if "obj_size (start j) = 0" for j
  proof -
    from that have j: "j < MAX_OBJS" "obj_size (objects s j) = 0" by (auto simp: start_def split: if_splits)
    then have "names s j = None" by (simp add: names_def)
    with names_match[OF inv j(1) ne] j(1) show ?thesis by (simp add: start_def)
  qed
  have "strcmp_eq (key_mem (start j)) key \<longleftrightarrow> names s j = Some (cstr key)" if "j < MAX_OBJS" for j
    using names_match[OF inv that ne] that by (simp add: start_def)
  then have ex: "list_ex (\<lambda>j. strcmp_eq (key_mem (start j)) key) [0 ..< MAX_OBJS] \<longleftrightarrow>
      (\<exists>i. names s i = Some (cstr key))"
    using names_bound by (auto simp: list_ex_iff)
  have fs: "find (\<lambda>j. obj_size (start j) = 0) [0 ..< MAX_OBJS] = free_slot s"
    unfolding free_slot_def by (rule find_cong) (auto simp: start_def)
  have "create_scan MAX_OBJS (objects s) key 0 (-1) =
      (if \<exists>i. names s i = Some (cstr key) then None
       else case free_slot s of Some j \<Rightarrow> Some (int j) | None \<Rightarrow> Some (-1))"
    using create_scan_search[where start = start and key = key and free = "-1" and n = MAX_OBJS and i = 0,
        OF nomatch] cong[of 0 MAX_OBJS "-1"]
    unfolding add_0 fs ex by simp
  then show ?thesis
    by (auto simp: create_object_def Let_def add.commute split: option.splits)
qed

lemma create_object_new:
  assumes inv: "dir_inv s" and key: "valid_key key"
    and new: "\<forall>i. names s i \<noteq> Some (cstr key)" and slot: "free_slot s = Some i"
  shows "\<exists>s'. create_object key s = Some (int i + 2, s') \<and> dir_inv s' \<and>
    names s' = (names s)(i \<mapsto> cstr key) \<and> obj_size (objects s' i) = 1 \<and>
    obj_direct (objects s' i) = obj_direct (objects s i) \<and>
    obj_indirect (objects s' i) = obj_indirect (objects s i) \<and>
    (\<forall>j. j \<noteq> i \<longrightarrow> objects s' j = objects s j) \<and> dirty s' = insert i (dirty s) \<and>
    s' = s\<lparr>objects := objects s', obj_bmp := obj_bmp s'\<rparr>"
proof -
  have i: "i < MAX_OBJS" using free_slot_Some[OF slot] by simp
  have wf: "wf_obj (objects s i)" using inv i by (simp add: dir_inv_def)
  then obtain k where k: "strcpy_key (obj_key (objects s i)) key = Some k"
      "length k = KEY_SIZE" "0 \<in> set k" "cstr k = cstr key"
    using strcpy_key_ok[OF key] by (auto simp: wf_obj_def)
  define ob where "ob = (objects s i)\<lparr>obj_key := k, obj_size := 1\<rparr>"
  have "wf_obj ob" using wf k by (simp add: wf_obj_def ob_def)
  then have d: "dir_inv (set_obj s i ob)" "names (set_obj s i ob) = (names s)(i \<mapsto> cstr key)"
    using dir_inv_set_obj[OF inv i, of ob] new k key by (auto simp: ob_def valid_key_def)
  let ?s' = "(set_obj s i ob)\<lparr>obj_bmp := (obj_bmp s)(i div 64 := set_bit (i mod 64) (obj_bmp s (i div 64)))\<rparr>"
  have "create_object key s = Some (int i + 2, ?s')"
    unfolding create_object_cases[OF inv key]
    using new slot k mark_obj_dirty_ok[OF i] by (simp add: ob_def[symmetric] set_obj_def)
  moreover have "dirty ?s' = insert i (dirty s)"
    using dirty_set_bit[OF i, of s] by (simp add: dirty_def set_obj_def)
  ultimately show ?thesis
    using d by (intro exI[of _ ?s']) (simp add: set_obj_def ob_def)
qed

lemma create_object_refused:
  assumes "dir_inv s" "valid_key key"
    and "(\<exists>i. names s i = Some (cstr key)) \<or> free_slot s = None"
  shows "create_object key s = Some (-1, s)"
  using assms by (auto simp: create_object_cases)

section \<open>Renaming an object\<close>

lemma rename_scan_gen:
  "rename_scan n start key newname i oi =
     (if list_ex (\<lambda>j. strcmp_eq (key_mem (start j)) newname) [i ..< i + n] then None
      else Some (fold (\<lambda>j acc. if strcmp_eq (key_mem (start j)) key then int j else acc) [i ..< i + n] oi))"
  by (induction n arbitrary: i oi) (simp_all add: upt_Suc_Cons Let_def del: upt_Suc add_Suc_right)

lemmas rename_scan_eq = rename_scan_gen[of MAX_OBJS _ _ _ 0, unfolded add_0]

lemma fold_unique_match:
  "(\<forall>j \<in> set js. P j \<longleftrightarrow> j = i) \<Longrightarrow> i \<in> set js \<Longrightarrow>
     fold (\<lambda>j acc. if P j then int j else acc) js oi = int i"
proof (induction js arbitrary: oi)
  case (Cons a js)
  have none: "fold (\<lambda>j acc. if P j then int j else acc) js oi' = oi'" if "\<forall>j \<in> set js. \<not> P j" for js oi'
    using that by (induction js) auto
  from Cons show ?case
    by (cases "i \<in> set js") (auto intro!: none)
qed simp

lemma fold_no_match:
  "\<forall>j \<in> set js. \<not> P j \<Longrightarrow> fold (\<lambda>j acc. if P j then int j else acc) js oi = oi"
  by (induction js) auto

lemma rename_object_ok:
  assumes inv: "dir_inv s" and key: "valid_key key" and new: "valid_key newname" "KEY_SIZE \<le> length newname"
    and old: "names s i = Some (cstr key)" and free: "\<forall>j. names s j \<noteq> Some (cstr newname)"
  shows "\<exists>s'. rename_object key newname s = Some (int i + 2, s') \<and> dir_inv s' \<and>
    names s' = (names s)(i \<mapsto> cstr newname) \<and> (\<forall>j. j \<noteq> i \<longrightarrow> objects s' j = objects s j) \<and>
    objects s' i = (objects s i)\<lparr>obj_key := take KEY_SIZE newname\<rparr> \<and> dirty s' = insert i (dirty s) \<and>
    s' = s\<lparr>objects := objects s', obj_bmp := obj_bmp s'\<rparr>"
proof -
  have i: "i < MAX_OBJS" using names_bound[OF old] .
  have ne: "cstr key \<noteq> []" "cstr newname \<noteq> []" using key new by (simp_all add: valid_key_def)
  have "\<not> list_ex (\<lambda>j. strcmp_eq (key_mem (objects s j)) newname) [0 ..< MAX_OBJS]"
    using list_ex_names[OF inv ne(2)] free by blast
  moreover have "\<forall>j \<in> set [0 ..< MAX_OBJS]. strcmp_eq (key_mem (objects s j)) key \<longleftrightarrow> j = i"
  proof
    fix j assume "j \<in> set [0 ..< MAX_OBJS]"
    then have "j < MAX_OBJS" by simp
    then show "strcmp_eq (key_mem (objects s j)) key \<longleftrightarrow> j = i"
      unfolding names_match[OF inv \<open>j < MAX_OBJS\<close> ne(1)]
      using names_unique[OF inv _ old] old by blast
  qed
  then have "fold (\<lambda>j acc. if strcmp_eq (key_mem (objects s j)) key then int j else acc)
      [0 ..< MAX_OBJS] (-1) = int i"
    by (rule fold_unique_match) (use i in simp)
  ultimately have scan: "rename_scan MAX_OBJS (objects s) key newname 0 (-1) = Some (int i)"
    by (simp only: rename_scan_eq if_False)
  define ob where "ob = (objects s i)\<lparr>obj_key := take KEY_SIZE newname\<rparr>"
  have k: "cstr (take KEY_SIZE newname) = cstr newname" "0 \<in> set (take KEY_SIZE newname)"
  proof -
    show c: "cstr (take KEY_SIZE newname) = cstr newname"
      using new by (intro cstr_take) (simp add: valid_key_def)
    show "0 \<in> set (take KEY_SIZE newname)"
    proof (rule ccontr)
      assume "0 \<notin> set (take KEY_SIZE newname)"
      then have "cstr (take KEY_SIZE newname) = take KEY_SIZE newname"
        unfolding cstr_def by (intro takeWhile_eq_all_conv[THEN iffD2]) auto
      with c new show False by (simp add: valid_key_def) (metis length_take min.absorb2 nat_less_le)
    qed
  qed
  have "wf_obj (objects s i)" "obj_size (objects s i) \<noteq> 0"
    using inv i old by (auto simp: dir_inv_def names_def split: if_splits)
  then have d: "dir_inv (set_obj s i ob)" "names (set_obj s i ob) = (names s)(i \<mapsto> cstr newname)"
    using dir_inv_set_obj[OF inv i, of ob] free k ne new by (auto simp: ob_def wf_obj_def)
  let ?s' = "(set_obj s i ob)\<lparr>obj_bmp := (obj_bmp s)(i div 64 := set_bit (i mod 64) (obj_bmp s (i div 64)))\<rparr>"
  have "rename_object key newname s = Some (int i + 2, ?s')"
    using scan new mark_obj_dirty_ok[OF i]
    by (simp add: rename_object_def ob_def[symmetric] set_obj_def add.commute)
  moreover have "dirty ?s' = insert i (dirty s)"
    using dirty_set_bit[OF i, of s] by (simp add: dirty_def set_obj_def)
  ultimately show ?thesis
    using d by (intro exI[of _ ?s']) (simp add: set_obj_def ob_def)
qed

lemma rename_object_refused:
  assumes inv: "dir_inv s" and key: "valid_key key" and new: "valid_key newname"
    and bad: "(\<exists>j. names s j = Some (cstr newname)) \<or> (\<forall>j. names s j \<noteq> Some (cstr key))"
  shows "rename_object key newname s = Some (-1, s)"
proof -
  have ne: "cstr key \<noteq> []" "cstr newname \<noteq> []" using key new by (simp_all add: valid_key_def)
  consider "list_ex (\<lambda>j. strcmp_eq (key_mem (objects s j)) newname) [0 ..< MAX_OBJS]"
    | "\<forall>j \<in> set [0 ..< MAX_OBJS]. \<not> strcmp_eq (key_mem (objects s j)) key"
    using bad list_ex_names[OF inv ne(1)] list_ex_names[OF inv ne(2)]
    unfolding list_ex_iff by metis
  then have "rename_scan MAX_OBJS (objects s) key newname 0 (-1) \<in> {None, Some (-1)}"
    by cases (auto simp only: rename_scan_eq fold_no_match if_True insert_iff split: if_splits)
  then show ?thesis by (auto simp: rename_object_def)
qed

end
