(* ===== verification/ObjectIO.thy ===== *)
theory ObjectIO
  imports Objects
begin

text \<open>
  Reading and writing the contents of an object: \<open>objstore_write\<close> and \<open>objstore_read\<close> of
  \<open>assignment-4/objstore.c\<close>, with their nested functions \<open>update_block\<close> and
  \<open>get_block_data\<close>. The local variables that the nested functions share with the enclosing
  one are a record that the loops pass along; a loop that the code can leave by \<open>return\<close>
  gives \<open>Inl\<close> for the return and \<open>Inr\<close> for the state in which it ends. \<open>None\<close> is undefined
  behaviour: a copy that runs over the block buffer, a use of a \<open>NULL\<close> buffer, an object
  identifier behind the table.
\<close>

section \<open>Writing\<close>

record io_locals =
  remaining :: int
  shift :: nat
  blocks_done :: u32
  temp :: buffer

text \<open>
  \<open>update_block\<close> takes the value of \<open>*block_ptr\<close> and returns the new one. Its test for a
  failed allocation, \<open>*block_ptr < 0\<close>, is false for every value of the unsigned type.
\<close>

definition update_block ::
    "bool \<Rightarrow> u64 option \<Rightarrow> buffer \<Rightarrow> int \<Rightarrow> objfs_state \<Rightarrow> io_locals \<Rightarrow> u32 \<Rightarrow>
     (int \<times> objfs_state \<times> io_locals \<times> u32) option" where
  "update_block cached addr buf sz s l block_ptr =
     (if remaining l > 0 then
        (case addr of None \<Rightarrow> None | Some ta \<Rightarrow>
          (case (if block_ptr = 0 then alloc_block s else (block_ptr, s)) of (bp, s1) \<Rightarrow>
            (case (if shift l > 0 then read_ch_blk cached s1 bp ta (temp l) else (0, s1, temp l)) of
               (r, s2, t2) \<Rightarrow>
                 if r < 0 then Some (-1, s2, l\<lparr>temp := t2\<rparr>, bp)
                 else
                   let cur_size = (if remaining l > int BLOCK_SIZE then int BLOCK_SIZE else remaining l) in
                   if shift l + nat cur_size > BLOCK_SIZE then None
                   else
                     let t3 = memcpy t2 (shift l) buf (nat (sz - remaining l)) (nat cur_size) in
                     (case write_ch_blk cached s2 bp ta t3 of (r, s3) \<Rightarrow>
                        if r < 0 then Some (-1, s3, l\<lparr>temp := t3\<rparr>, bp)
                        else Some (0, s3, l\<lparr>remaining := remaining l - cur_size, shift := 0, temp := t3\<rparr>, bp)))))
      else Some (0, s, l, block_ptr))"

fun write_direct ::
    "bool \<Rightarrow> u64 option \<Rightarrow> buffer \<Rightarrow> int \<Rightarrow> u32 \<Rightarrow> nat \<Rightarrow> nat list \<Rightarrow> objfs_state \<Rightarrow> io_locals \<Rightarrow>
     (objfs_state \<times> io_locals) option" where
  "write_direct cached addr buf sz start_block ob [] s l = Some (s, l)"
| "write_direct cached addr buf sz start_block ob (i # is) s l =
     (if blocks_done l < start_block then
        write_direct cached addr buf sz start_block ob is s (l\<lparr>blocks_done := blocks_done l + 1\<rparr>)
      else
        (case update_block cached addr buf sz s l (obj_direct (objects s ob) ! i) of
           None \<Rightarrow> None
         | Some (r, s1, l1, bp) \<Rightarrow>
             write_direct cached addr buf sz start_block ob is
               (set_obj s1 ob ((objects s1 ob)\<lparr>obj_direct := (obj_direct (objects s1 ob))[i := bp]\<rparr>)) l1))"

fun write_pointers ::
    "bool \<Rightarrow> u64 option \<Rightarrow> buffer \<Rightarrow> int \<Rightarrow> u32 \<Rightarrow> nat list \<Rightarrow> objfs_state \<Rightarrow> io_locals \<Rightarrow> buffer \<Rightarrow>
     (objfs_state \<times> io_locals \<times> buffer) option" where
  "write_pointers cached addr buf sz start_block [] s l block_data = Some (s, l, block_data)"
| "write_pointers cached addr buf sz start_block (j # js) s l block_data =
     (if blocks_done l < start_block then
        write_pointers cached addr buf sz start_block js s
          (l\<lparr>blocks_done := blocks_done l + 1\<rparr>) block_data
      else
        (case update_block cached addr buf sz s l (u32_at block_data j) of
           None \<Rightarrow> None
         | Some (r, s1, l1, bp) \<Rightarrow>
             write_pointers cached addr buf sz start_block js s1 l1 (set_u32 block_data j bp)))"

text \<open>
  One round of the loop over the indirect pointers: the pointer block is fetched or made,
  its entries are walked over, and it is written back.
\<close>

definition write_indirect_at ::
    "bool \<Rightarrow> u64 option \<Rightarrow> buffer \<Rightarrow> int \<Rightarrow> u32 \<Rightarrow> nat \<Rightarrow> nat \<Rightarrow> objfs_state \<Rightarrow> io_locals \<Rightarrow>
     ((int \<times> objfs_state) + (objfs_state \<times> io_locals)) option" where
  "write_indirect_at cached addr buf sz start_block ob i s l =
     (case cmalloc s BLOCK_SIZE of
        None \<Rightarrow> Some (Inl (-1, s))
      | Some ba \<Rightarrow>
          let ip = obj_indirect (objects s ob) ! i in
          (case (if ip = 0 then
                   (case alloc_block s of (bp, s1) \<Rightarrow>
                      (0, set_obj s1 ob ((objects s1 ob)
                            \<lparr>obj_indirect := (obj_indirect (objects s1 ob))[i := bp]\<rparr>), zero_buf))
                 else read_ch_blk cached s ip ba zero_buf) of
             (r, s2, block_buf) \<Rightarrow>
               if r < 0 then Some (Inl (-1, s2))
               else
                 (case write_pointers cached addr buf sz start_block [0 ..< BLOCK_SIZE div 4] s2 l block_buf of
                    None \<Rightarrow> None
                  | Some (s3, l3, block_buf3) \<Rightarrow>
                      (case write_ch_blk cached s3 (obj_indirect (objects s3 ob) ! i) ba block_buf3 of
                         (r, s4) \<Rightarrow> if r < 0 then Some (Inl (-1, s4)) else Some (Inr (s4, l3))))))"

fun write_indirect ::
    "bool \<Rightarrow> u64 option \<Rightarrow> buffer \<Rightarrow> int \<Rightarrow> u32 \<Rightarrow> nat \<Rightarrow> nat list \<Rightarrow> objfs_state \<Rightarrow> io_locals \<Rightarrow>
     ((int \<times> objfs_state) + (objfs_state \<times> io_locals)) option" where
  "write_indirect cached addr buf sz start_block ob [] s l = Some (Inr (s, l))"
| "write_indirect cached addr buf sz start_block ob (i # is) s l =
     (if remaining l > 0 then
        (case write_indirect_at cached addr buf sz start_block ob i s l of
           None \<Rightarrow> None
         | Some (Inl ret) \<Rightarrow> Some (Inl ret)
         | Some (Inr (s1, l1)) \<Rightarrow> write_indirect cached addr buf sz start_block ob is s1 l1)
      else write_indirect cached addr buf sz start_block ob is s l)"

definition objstore_write ::
    "bool \<Rightarrow> int \<Rightarrow> buffer \<Rightarrow> int \<Rightarrow> objfs_state \<Rightarrow> int \<Rightarrow> (int \<times> objfs_state) option" where
  "objstore_write cached objid buf sz s offset =
     (if objid < 2 then Some (-1, s)
      else if sz > MAX_SIZE then Some (-1, s)
      else if nat (objid - 2) \<ge> MAX_OBJS then None
      else
        let ob = nat (objid - 2);
            addr = cmalloc s BLOCK_SIZE;
            start_block = (word_of_int (offset sdiv int BLOCK_SIZE) :: u32);
            l = \<lparr>remaining = sz, shift = unat (word_of_int (offset smod int BLOCK_SIZE) :: u32),
                 blocks_done = 0, temp = zero_buf\<rparr>
        in
        (case write_direct cached addr buf sz start_block ob [0 ..< 4] s l of
           None \<Rightarrow> None
         | Some (s1, l1) \<Rightarrow>
             (case write_indirect cached addr buf sz start_block ob [0 ..< 4] s1 l1 of
                None \<Rightarrow> None
              | Some (Inl ret) \<Rightarrow> Some ret
              | Some (Inr (s2, l2)) \<Rightarrow>
                  let s3 = set_obj s2 ob ((objects s2 ob)\<lparr>obj_size := word_of_int (offset + sz)\<rparr>) in
                  (case mark_obj_dirty s3 (word_of_int objid) of
                     None \<Rightarrow> None
                   | Some (r, s4) \<Rightarrow> Some (sz, s4)))))"

section \<open>Reading\<close>

text \<open>
  \<open>get_block_data\<close> copies into the caller's buffer; a copy that reads behind the end of the
  block buffer is undefined.
\<close>

definition get_block_data ::
    "bool \<Rightarrow> u64 option \<Rightarrow> int \<Rightarrow> objfs_state \<Rightarrow> io_locals \<Rightarrow> buffer \<Rightarrow> u32 \<Rightarrow>
     (int \<times> objfs_state \<times> io_locals \<times> buffer) option" where
  "get_block_data cached addr sz s l buf block_num =
     (if remaining l > 0 then
        (case addr of None \<Rightarrow> None | Some ta \<Rightarrow>
          let cur_size = (if remaining l > int BLOCK_SIZE then int BLOCK_SIZE else remaining l) in
          (case read_ch_blk cached s block_num ta (temp l) of (r, s1, t1) \<Rightarrow>
             if r < 0 then Some (-1, s1, l\<lparr>temp := t1\<rparr>, buf)
             else if shift l + nat cur_size > BLOCK_SIZE then None
             else
               let buf' = memcpy buf (nat (sz - remaining l)) t1 (shift l) (nat cur_size) in
               Some (0, s1, l\<lparr>remaining := remaining l - cur_size, shift := 0, temp := t1\<rparr>, buf')))
      else Some (0, s, l, buf))"

fun read_direct ::
    "bool \<Rightarrow> u64 option \<Rightarrow> int \<Rightarrow> u32 \<Rightarrow> nat \<Rightarrow> nat list \<Rightarrow> objfs_state \<Rightarrow> io_locals \<Rightarrow> buffer \<Rightarrow>
     (objfs_state \<times> io_locals \<times> buffer) option" where
  "read_direct cached addr sz start_block ob [] s l buf = Some (s, l, buf)"
| "read_direct cached addr sz start_block ob (i # is) s l buf =
     (if blocks_done l < start_block then
        read_direct cached addr sz start_block ob is s (l\<lparr>blocks_done := blocks_done l + 1\<rparr>) buf
      else if obj_direct (objects s ob) ! i \<noteq> 0 then
        (case get_block_data cached addr sz s l buf (obj_direct (objects s ob) ! i) of
           None \<Rightarrow> None
         | Some (r, s1, l1, buf1) \<Rightarrow> read_direct cached addr sz start_block ob is s1 l1 buf1)
      else Some (s, l, buf))"

fun read_pointers ::
    "bool \<Rightarrow> u64 option \<Rightarrow> int \<Rightarrow> u32 \<Rightarrow> buffer \<Rightarrow> nat list \<Rightarrow> objfs_state \<Rightarrow> io_locals \<Rightarrow> buffer \<Rightarrow>
     (objfs_state \<times> io_locals \<times> buffer) option" where
  "read_pointers cached addr sz start_block block_data [] s l buf = Some (s, l, buf)"
| "read_pointers cached addr sz start_block block_data (j # js) s l buf =
     (if blocks_done l < start_block then
        read_pointers cached addr sz start_block block_data js s
          (l\<lparr>blocks_done := blocks_done l + 1\<rparr>) buf
      else if u32_at block_data j \<noteq> 0 then
        (case get_block_data cached addr sz s l buf (u32_at block_data j) of
           None \<Rightarrow> None
         | Some (r, s1, l1, buf1) \<Rightarrow>
             read_pointers cached addr sz start_block block_data js s1 l1 buf1)
      else Some (s, l, buf))"

fun read_indirect ::
    "bool \<Rightarrow> u64 option \<Rightarrow> int \<Rightarrow> u32 \<Rightarrow> nat \<Rightarrow> nat list \<Rightarrow> objfs_state \<Rightarrow> io_locals \<Rightarrow> buffer \<Rightarrow>
     ((int \<times> objfs_state \<times> buffer) + (objfs_state \<times> io_locals \<times> buffer)) option" where
  "read_indirect cached addr sz start_block ob [] s l buf = Some (Inr (s, l, buf))"
| "read_indirect cached addr sz start_block ob (i # is) s l buf =
     (if obj_indirect (objects s ob) ! i \<noteq> 0 \<and> remaining l > 0 then
        (case cmalloc s BLOCK_SIZE of
           None \<Rightarrow> Some (Inl (-1, s, buf))
         | Some ba \<Rightarrow>
             (case read_ch_blk cached s (obj_indirect (objects s ob) ! i) ba zero_buf of
                (r, s1, block_data) \<Rightarrow>
                  if r < 0 then Some (Inl (-1, s1, buf))
                  else
                    (case read_pointers cached addr sz start_block block_data
                            [0 ..< BLOCK_SIZE div 4] s1 l buf of
                       None \<Rightarrow> None
                     | Some (s2, l2, buf2) \<Rightarrow>
                         read_indirect cached addr sz start_block ob is s2 l2 buf2)))
      else Some (Inr (s, l, buf)))"

text \<open>The last loop clears what is left of the caller's buffer, one byte per round.\<close>

function zero_rest :: "int \<Rightarrow> int \<Rightarrow> buffer \<Rightarrow> buffer" where
  "zero_rest sz rem buf = (if rem > 0 then zero_rest sz (rem - 1) (buf(nat (sz - rem) := 0)) else buf)"
  by pat_completeness auto
termination
  by (relation "measure (\<lambda>(sz, rem, buf). nat rem)") auto

declare zero_rest.simps [simp del]

definition objstore_read ::
    "bool \<Rightarrow> int \<Rightarrow> buffer \<Rightarrow> int \<Rightarrow> objfs_state \<Rightarrow> int \<Rightarrow> (int \<times> objfs_state \<times> buffer) option" where
  "objstore_read cached objid buf sz s offset =
     (if objid < 2 then Some (-1, s, buf)
      else if sz > MAX_SIZE then Some (-1, s, buf)
      else if nat (objid - 2) \<ge> MAX_OBJS then None
      else
        let ob = nat (objid - 2);
            addr = cmalloc s BLOCK_SIZE;
            start_block = (word_of_int (offset sdiv int BLOCK_SIZE) :: u32);
            l = \<lparr>remaining = sz, shift = unat (word_of_int (offset smod int BLOCK_SIZE) :: u32),
                 blocks_done = 0, temp = zero_buf\<rparr>
        in
        (case read_direct cached addr sz start_block ob [0 ..< 4] s l buf of
           None \<Rightarrow> None
         | Some (s1, l1, buf1) \<Rightarrow>
             (case read_indirect cached addr sz start_block ob [0 ..< 4] s1 l1 buf1 of
                None \<Rightarrow> None
              | Some (Inl ret) \<Rightarrow> Some ret
              | Some (Inr (s2, l2, buf2)) \<Rightarrow>
                  Some (sz, s2, zero_rest sz (remaining l2) buf2))))"

end
