(* ===== verification/Store.thy ===== *)
theory Store
  imports ObjectIO
begin

text \<open>
  The invariant of the object store of \<open>assignment-4/objstore.c\<close> that ties the object table
  to the block bitmap: which blocks the pointers of an object lead to, that no block is
  reached in two ways, and that every reached block is marked and outside the reserved area.
  With it, \<open>destroy_object\<close> frees the blocks of the object and no other block.
\<close>

section \<open>The pointers of an object\<close>

datatype slot = Dir nat | Ind nat | Sub nat nat

fun slot_ok :: "slot \<Rightarrow> bool" where
  "slot_ok (Dir i) \<longleftrightarrow> i < 4"
| "slot_ok (Ind i) \<longleftrightarrow> i < 4"
| "slot_ok (Sub i j) \<longleftrightarrow> i < 4 \<and> j < 1024"

fun ptr :: "bool \<Rightarrow> objfs_state \<Rightarrow> nat \<Rightarrow> slot \<Rightarrow> u32" where
  "ptr c s ob (Dir i) = obj_direct (objects s ob) ! i"
| "ptr c s ob (Ind i) = obj_indirect (objects s ob) ! i"
| "ptr c s ob (Sub i j) =
     (if obj_indirect (objects s ob) ! i = 0 then 0
      else u32_at (blk_view c s (obj_indirect (objects s ob) ! i)) j)"

definition owned :: "bool \<Rightarrow> objfs_state \<Rightarrow> (nat \<times> slot) set" where
  "owned c s = {(ob, sl). ob < MAX_OBJS \<and> slot_ok sl \<and> ptr c s ob sl \<noteq> 0}"

definition blocks_of :: "bool \<Rightarrow> objfs_state \<Rightarrow> nat \<Rightarrow> nat set" where
  "blocks_of c s ob = {unat (ptr c s ob sl) | sl. slot_ok sl \<and> ptr c s ob sl \<noteq> 0}"

definition ptr_ok :: "bool \<Rightarrow> objfs_state \<Rightarrow> u32 \<Rightarrow> bool" where
  "ptr_ok c s p \<longleftrightarrow> RES_BLOCKS \<le> unat p \<and> unat p \<in> used s \<and> blk_readable c s p"

definition store_inv :: "bool \<Rightarrow> objfs_state \<Rightarrow> bool" where
  "store_inv c s \<longleftrightarrow>
     blk_inv c s \<and> dir_inv s \<and> mmap_page s BLOCK_SIZE \<noteq> None \<and> {..<RES_BLOCKS} \<subseteq> used s \<and>
     (\<forall>(ob, sl) \<in> owned c s. names s ob \<noteq> None \<and> ptr_ok c s (ptr c s ob sl)) \<and>
     inj_on (\<lambda>(ob, sl). ptr c s ob sl) (owned c s)"

text \<open>
  \<open>same_blocks\<close>: a step that leaves the contents of every block but block 0 alone, and
  everything in memory but the objects and the block bitmap.
\<close>

definition same_blocks :: "bool \<Rightarrow> objfs_state \<Rightarrow> objfs_state \<Rightarrow> bool" where
  "same_blocks c s s' \<longleftrightarrow> blk_inv c s' \<and>
     (\<forall>d. d \<noteq> 0 \<longrightarrow> blk_view c s' d = blk_view c s d \<and> (blk_readable c s d \<longrightarrow> blk_readable c s' d)) \<and>
     obj_bmp s' = obj_bmp s \<and> mmap_page s' = mmap_page s \<and> def_fstat s' = def_fstat s \<and>
     def_dirstat s' = def_dirstat s \<and> mounted s' = mounted s"

lemma same_blocks_refl [simp]: "blk_inv c s \<Longrightarrow> same_blocks c s s"
  by (simp add: same_blocks_def)

lemma same_blocks_trans [trans]: "same_blocks c s t \<Longrightarrow> same_blocks c t u \<Longrightarrow> same_blocks c s u"
  by (simp add: same_blocks_def)

lemma same_blocks_inv: "same_blocks c s t \<Longrightarrow> blk_inv c t"
  by (simp add: same_blocks_def)

lemma same_blocks_mem [simp]:
  "blk_inv c s \<Longrightarrow> same_blocks c s (s\<lparr>blk_bmp := x\<rparr>)"
  "blk_inv c s \<Longrightarrow> same_blocks c s (set_obj s ob y)"
  by (simp_all add: same_blocks_def set_obj_def blk_inv_def io_ok_def blk_view_def blk_readable_def)

lemma used_set_obj [simp]: "used (set_obj s ob y) = used s"
  by (simp add: used_def set_obj_def)

lemma objects_set_obj [simp]: "objects (set_obj s ob y) = (objects s)(ob := y)"
  by (simp add: set_obj_def)

lemma read_ch_blk_same:
  assumes "blk_inv c s" "b \<noteq> 0" "blk_readable c s b"
  shows "\<exists>s'. read_ch_blk c s b (page_addr p) buf = (0, s', blk_view c s b) \<and> same_blocks c s s' \<and>
    objects s' = objects s \<and> blk_bmp s' = blk_bmp s"
  using blk.rd_result[OF assms, where p = p and buf = buf] by (auto simp: same_blocks_def fs_meta_def)

lemma free_block_ok:
  assumes "unat b < 64 * BLK_BMP_LN"
  shows "\<exists>x. free_block s b = Some (0, s\<lparr>blk_bmp := x\<rparr>) \<and> used (s\<lparr>blk_bmp := x\<rparr>) = used s - {unat b}"
proof -
  have "unat b div 64 < BLK_BMP_LN" using assms by auto
  moreover have "64 * (unat b div 64) + unat b mod 64 = unat b" by simp
  ultimately show ?thesis
    using used_clear_bit[of "unat b mod 64" s "unat b div 64"]
    by (auto simp: free_block_def Let_def simp del: mult_div_mod_eq)
qed

section \<open>Freeing the blocks of an object\<close>

definition nonzero_entries :: "buffer \<Rightarrow> nat set \<Rightarrow> nat set" where
  "nonzero_entries bd J = {unat (u32_at bd j) | j. j \<in> J \<and> u32_at bd j \<noteq> 0}"

lemma free_pointers_ok:
  assumes "\<forall>j \<in> set js. unat (u32_at bd j) < 64 * BLK_BMP_LN"
  shows "\<exists>x. free_pointers s bd js = Some (0, s\<lparr>blk_bmp := x\<rparr>) \<and>
    used (s\<lparr>blk_bmp := x\<rparr>) = used s - nonzero_entries bd (set js)"
  using assms
proof (induction js arbitrary: s)
  case Nil
  show ?case by (intro exI[of _ "blk_bmp s"]) (simp add: nonzero_entries_def)
next
  case (Cons j js)
  show ?case
  proof (cases "u32_at bd j = 0")
    case True
    then have "nonzero_entries bd (set (j # js)) = nonzero_entries bd (set js)"
      by (auto simp: nonzero_entries_def)
    with True Cons show ?thesis by simp
  next
    case False
    have e: "nonzero_entries bd (set (j # js)) = insert (unat (u32_at bd j)) (nonzero_entries bd (set js))"
      using False by (auto simp: nonzero_entries_def)
    obtain x where x: "free_block s (u32_at bd j) = Some (0, s\<lparr>blk_bmp := x\<rparr>)"
        "used (s\<lparr>blk_bmp := x\<rparr>) = used s - {unat (u32_at bd j)}"
      using free_block_ok[of "u32_at bd j" s] Cons.prems by auto
    obtain y where "free_pointers (s\<lparr>blk_bmp := x\<rparr>) bd js = Some (0, s\<lparr>blk_bmp := y\<rparr>)"
        "used (s\<lparr>blk_bmp := y\<rparr>) = used (s\<lparr>blk_bmp := x\<rparr>) - nonzero_entries bd (set js)"
      using Cons.IH[of "s\<lparr>blk_bmp := x\<rparr>"] Cons.prems by auto
    with x False show ?thesis unfolding e by (intro exI[of _ y]) auto
  qed
qed

lemma free_pointer_block_ok:
  assumes inv: "blk_inv c s" and mem: "mmap_page s BLOCK_SIZE \<noteq> None"
    and b: "b \<noteq> 0" "blk_readable c s b" "unat b < 64 * BLK_BMP_LN"
    and entries: "\<forall>j<1024. unat (u32_at (blk_view c s b) j) < 64 * BLK_BMP_LN"
  shows "\<exists>s'. free_pointer_block c s b = Some (0, s') \<and> same_blocks c s s' \<and> objects s' = objects s \<and>
    used s' = used s - nonzero_entries (blk_view c s b) {..<1024} - {unat b}"
proof -
  obtain p where p: "mmap_page s BLOCK_SIZE = Some p" using mem by auto
  obtain s1 where s1: "read_ch_blk c s b (page_addr p) zero_buf = (0, s1, blk_view c s b)"
      "same_blocks c s s1" "objects s1 = objects s" "blk_bmp s1 = blk_bmp s"
    using read_ch_blk_same[OF inv b(1,2)] by blast
  have u1: "used s1 = used s" using s1(4) by (simp add: used_def)
  obtain x where x: "free_pointers s1 (blk_view c s b) [0 ..< 1024] = Some (0, s1\<lparr>blk_bmp := x\<rparr>)"
      "used (s1\<lparr>blk_bmp := x\<rparr>) = used s1 - nonzero_entries (blk_view c s b) {..<1024}"
    using free_pointers_ok[of "[0 ..< 1024]" "blk_view c s b" s1] entries
    by (auto simp: atLeast0LessThan)
  obtain y where y: "free_block (s1\<lparr>blk_bmp := x\<rparr>) b = Some (0, s1\<lparr>blk_bmp := y\<rparr>)"
      "used (s1\<lparr>blk_bmp := y\<rparr>) = used (s1\<lparr>blk_bmp := x\<rparr>) - {unat b}"
    using free_block_ok[OF b(3), of "s1\<lparr>blk_bmp := x\<rparr>"] by auto
  have "free_pointer_block c s b = Some (0, s1\<lparr>blk_bmp := y\<rparr>)"
    using p s1(1) x(1) y(1) by (simp add: free_pointer_block_def cmalloc_def)
  moreover have "same_blocks c s (s1\<lparr>blk_bmp := y\<rparr>)"
    using s1(2) same_blocks_inv[OF s1(2)] by (blast intro: same_blocks_trans same_blocks_mem)
  ultimately show ?thesis using s1(3) x(2) y(2) u1 by auto
qed

text \<open>The pointer array after the loop has cleared the entries in \<open>I\<close>.\<close>

definition zero_at :: "nat set \<Rightarrow> u32 list \<Rightarrow> u32 list" where
  "zero_at I xs = map (\<lambda>i. if i \<in> I then 0 else xs ! i) [0 ..< length xs]"

lemma zero_at_step: "zero_at I (xs[i := 0]) = zero_at (insert i I) xs"
  by (auto simp: zero_at_def nth_list_update)

lemma zero_at_skip: "xs ! i = 0 \<Longrightarrow> zero_at (insert i I) xs = zero_at I xs"
  by (auto simp: zero_at_def)

lemma zero_at_empty [simp]: "zero_at {} xs = xs"
  by (simp add: zero_at_def map_nth)

lemma zero_at_all: "{..<length xs} \<subseteq> I \<Longrightarrow> zero_at I xs = replicate (length xs) 0"
  by (intro nth_equalityI) (auto simp: zero_at_def)

definition direct_blocks :: "u32 list \<Rightarrow> nat set \<Rightarrow> nat set" where
  "direct_blocks xs I = {unat (xs ! i) | i. i \<in> I \<and> xs ! i \<noteq> 0}"

lemma direct_blocks_insert:
  "i \<notin> I \<Longrightarrow> direct_blocks (xs[i := 0]) I = direct_blocks xs I"
  unfolding direct_blocks_def by (metis (no_types, lifting) nth_update_notin)

lemma direct_blocks_Cons:
  "direct_blocks xs (insert i I) = (if xs ! i = 0 then {} else {unat (xs ! i)}) \<union> direct_blocks xs I"
  by (auto simp: direct_blocks_def)

lemma free_direct_ok:
  assumes "blk_inv c s" "distinct is" "\<forall>i \<in> set is. unat (obj_direct (objects s ob) ! i) < 64 * BLK_BMP_LN"
  shows "\<exists>s'. free_direct s ob is = Some (0, s') \<and> same_blocks c s s' \<and>
    used s' = used s - direct_blocks (obj_direct (objects s ob)) (set is) \<and>
    objects s' = (objects s)(ob := (objects s ob)\<lparr>obj_direct := zero_at (set is) (obj_direct (objects s ob))\<rparr>)"
  using assms
proof (induction "is" arbitrary: s)
  case Nil
  then show ?case by (simp add: direct_blocks_def)
next
  case (Cons i "is")
  let ?xs = "obj_direct (objects s ob)"
  show ?case
  proof (cases "?xs ! i = 0")
    case True
    with Cons.IH[OF Cons.prems(1)] Cons.prems(2,3) show ?thesis
      by (simp add: zero_at_skip direct_blocks_Cons)
  next
    case False
    obtain x where x: "free_block s (?xs ! i) = Some (0, s\<lparr>blk_bmp := x\<rparr>)"
        "used (s\<lparr>blk_bmp := x\<rparr>) = used s - {unat (?xs ! i)}"
      using free_block_ok[of "?xs ! i" s] Cons.prems(3) by auto
    let ?t = "set_obj (s\<lparr>blk_bmp := x\<rparr>) ob ((objects s ob)\<lparr>obj_direct := ?xs[i := 0]\<rparr>)"
    have st: "same_blocks c s ?t"
      using Cons.prems(1) same_blocks_inv same_blocks_trans same_blocks_mem by blast
    have "\<forall>k \<in> set is. unat (obj_direct (objects ?t ob) ! k) < 64 * BLK_BMP_LN"
      using Cons.prems(2,3) by (simp add: nth_update_notin[of _ "set is"])
    from Cons.IH[OF same_blocks_inv[OF st] _ this] Cons.prems(2) obtain s' where
      s': "free_direct ?t ob is = Some (0, s')" "same_blocks c ?t s'"
        "used s' = used ?t - direct_blocks (obj_direct (objects ?t ob)) (set is)"
        "objects s' = (objects ?t)(ob := (objects ?t ob)\<lparr>obj_direct := zero_at (set is) (obj_direct (objects ?t ob))\<rparr>)"
      by (metis distinct.simps(2))
    have "free_direct s ob (i # is) = Some (0, s')" using False x(1) s'(1) by simp
    moreover have "used s' = used s - direct_blocks ?xs (set (i # is))"
      using s'(3) x(2) Cons.prems(2) False by (auto simp: direct_blocks_Cons direct_blocks_insert)
    moreover have "objects s' = (objects s)(ob := (objects s ob)\<lparr>obj_direct := zero_at (set (i # is)) ?xs\<rparr>)"
      using s'(4) by (simp add: zero_at_step)
    ultimately show ?thesis using same_blocks_trans[OF st s'(2)] by blast
  qed
qed

definition indirect_ok :: "bool \<Rightarrow> objfs_state \<Rightarrow> u32 \<Rightarrow> bool" where
  "indirect_ok c s p \<longleftrightarrow> p \<noteq> 0 \<longrightarrow> blk_readable c s p \<and> unat p < 64 * BLK_BMP_LN \<and>
     (\<forall>j<1024. unat (u32_at (blk_view c s p) j) < 64 * BLK_BMP_LN)"

definition indirect_blocks :: "bool \<Rightarrow> objfs_state \<Rightarrow> u32 list \<Rightarrow> nat set \<Rightarrow> nat set" where
  "indirect_blocks c s xs I =
     (\<Union>i \<in> I. if xs ! i = 0 then {} else insert (unat (xs ! i)) (nonzero_entries (blk_view c s (xs ! i)) {..<1024}))"

lemma indirect_ok_same: "same_blocks c s t \<Longrightarrow> indirect_ok c s p \<Longrightarrow> indirect_ok c t p"
  by (simp add: indirect_ok_def same_blocks_def)

lemma indirect_blocks_same:
  "same_blocks c s t \<Longrightarrow> indirect_blocks c t xs I = indirect_blocks c s xs I"
  by (auto simp: indirect_blocks_def same_blocks_def)

lemma indirect_blocks_upd:
  "i \<notin> I \<Longrightarrow> indirect_blocks c s (xs[i := 0]) I = indirect_blocks c s xs I"
  unfolding indirect_blocks_def by (rule SUP_cong) (simp_all add: nth_update_notin)

lemma free_indirect_ok:
  assumes "blk_inv c s" "mmap_page s BLOCK_SIZE \<noteq> None" "distinct is"
    "\<forall>i \<in> set is. indirect_ok c s (obj_indirect (objects s ob) ! i)"
  shows "\<exists>s'. free_indirect c s ob is = Some (0, s') \<and> same_blocks c s s' \<and>
    used s' = used s - indirect_blocks c s (obj_indirect (objects s ob)) (set is) \<and>
    objects s' = (objects s)(ob := (objects s ob)\<lparr>obj_indirect := zero_at (set is) (obj_indirect (objects s ob))\<rparr>)"
  using assms
proof (induction "is" arbitrary: s)
  case Nil
  then show ?case by (simp add: indirect_blocks_def)
next
  case (Cons i "is")
  let ?xs = "obj_indirect (objects s ob)"
  show ?case
  proof (cases "?xs ! i = 0")
    case True
    with Cons.IH[OF Cons.prems(1,2)] Cons.prems(3,4) show ?thesis
      by (simp add: zero_at_skip indirect_blocks_def)
  next
    case False
    obtain s1 where s1: "free_pointer_block c s (?xs ! i) = Some (0, s1)" "same_blocks c s s1"
        "objects s1 = objects s" "used s1 = used s - nonzero_entries (blk_view c s (?xs ! i)) {..<1024} - {unat (?xs ! i)}"
      using free_pointer_block_ok[OF Cons.prems(1,2) False] Cons.prems(4) False
      by (auto simp: indirect_ok_def)
    let ?t = "set_obj s1 ob ((objects s ob)\<lparr>obj_indirect := ?xs[i := 0]\<rparr>)"
    have st: "same_blocks c s ?t"
      using s1(2) same_blocks_inv[OF s1(2)] by (blast intro: same_blocks_trans same_blocks_mem)
    then have mem: "mmap_page ?t BLOCK_SIZE \<noteq> None"
      using Cons.prems(2) by (simp add: same_blocks_def)
    have "\<forall>k \<in> set is. indirect_ok c ?t (obj_indirect (objects ?t ob) ! k)"
      using Cons.prems(3,4) indirect_ok_same[OF st] by (simp add: nth_update_notin[of _ "set is"])
    from Cons.IH[OF same_blocks_inv[OF st] mem _ this] Cons.prems(3) obtain s' where
      s': "free_indirect c ?t ob is = Some (0, s')" "same_blocks c ?t s'"
        "used s' = used ?t - indirect_blocks c ?t (obj_indirect (objects ?t ob)) (set is)"
        "objects s' = (objects ?t)(ob := (objects ?t ob)\<lparr>obj_indirect := zero_at (set is) (obj_indirect (objects ?t ob))\<rparr>)"
      by (metis distinct.simps(2))
    have "free_indirect c s ob (i # is) = Some (0, s')" using False s1(1,3) s'(1) by simp
    moreover have "used s' = used s - indirect_blocks c s ?xs (set (i # is))"
    proof -
      have "indirect_blocks c ?t (?xs[i := 0]) (set is) = indirect_blocks c s ?xs (set is)"
        using indirect_blocks_same[OF st] Cons.prems(3) by (simp add: indirect_blocks_upd)
      then show ?thesis
        using s'(3) s1(4) False by (auto simp: indirect_blocks_def)
    qed
    moreover have "objects s' = (objects s)(ob := (objects s ob)\<lparr>obj_indirect := zero_at (set (i # is)) ?xs\<rparr>)"
      using s'(4) s1(3) by (simp add: zero_at_step)
    ultimately show ?thesis using same_blocks_trans[OF st s'(2)] by blast
  qed
qed

section \<open>Destroying an object\<close>

text \<open>The bitmap of changed objects is not part of the invariant.\<close>

lemma obj_bmp_frame [simp]:
  "blk_view c (s\<lparr>obj_bmp := x\<rparr>) = blk_view c s"
  "blk_readable c (s\<lparr>obj_bmp := x\<rparr>) = blk_readable c s"
  "blk_inv c (s\<lparr>obj_bmp := x\<rparr>) = blk_inv c s"
  "used (s\<lparr>obj_bmp := x\<rparr>) = used s"
  "names (s\<lparr>obj_bmp := x\<rparr>) = names s"
  "dir_inv (s\<lparr>obj_bmp := x\<rparr>) = dir_inv s"
  by (simp_all add: blk_view_def blk_readable_def blk_inv_def io_ok_def used_def names_def dir_inv_def fun_eq_iff)

lemma store_inv_obj_bmp [simp]: "store_inv c (s\<lparr>obj_bmp := x\<rparr>) = store_inv c s"
proof -
  have p: "ptr c (s\<lparr>obj_bmp := x\<rparr>) ob sl = ptr c s ob sl" for ob sl by (cases sl) simp_all
  then have "owned c (s\<lparr>obj_bmp := x\<rparr>) = owned c s" by (simp add: owned_def)
  with p show ?thesis by (simp add: store_inv_def ptr_ok_def)
qed


lemma ptr_bounded:
  assumes "store_inv c s" "ob < MAX_OBJS" "slot_ok sl"
  shows "ptr c s ob sl = 0 \<or> ptr_ok c s (ptr c s ob sl)"
  using assms by (auto simp: store_inv_def owned_def)

lemma used_bound: "b \<in> used s \<Longrightarrow> b < 64 * BLK_BMP_LN"
  by (simp add: used_def)

lemma ptr_unat_bound:
  assumes "store_inv c s" "ob < MAX_OBJS" "slot_ok sl"
  shows "unat (ptr c s ob sl) < 64 * BLK_BMP_LN"
  using ptr_bounded[OF assms] used_bound by (auto simp: ptr_ok_def)

lemma less4_cases: "i < 4 \<Longrightarrow> i \<in> set [0 ..< 4]" for i :: nat
  by simp

lemma blocks_of_split:
  "blocks_of c s ob = direct_blocks (obj_direct (objects s ob)) (set [0 ..< 4])
     \<union> indirect_blocks c s (obj_indirect (objects s ob)) (set [0 ..< 4])"
proof
  show "blocks_of c s ob \<subseteq> direct_blocks (obj_direct (objects s ob)) (set [0 ..< 4])
     \<union> indirect_blocks c s (obj_indirect (objects s ob)) (set [0 ..< 4])"
  proof
    fix b assume "b \<in> blocks_of c s ob"
    then obtain sl where "b = unat (ptr c s ob sl)" "slot_ok sl" "ptr c s ob sl \<noteq> 0"
      by (auto simp: blocks_of_def)
    then show "b \<in> direct_blocks (obj_direct (objects s ob)) (set [0 ..< 4])
        \<union> indirect_blocks c s (obj_indirect (objects s ob)) (set [0 ..< 4])"
      by (cases sl) (auto simp: direct_blocks_def indirect_blocks_def nonzero_entries_def split: if_splits)
  qed
next
  have "unat (obj_direct (objects s ob) ! i) \<in> blocks_of c s ob"
    if "i < 4" "obj_direct (objects s ob) ! i \<noteq> 0" for i
    using that unfolding blocks_of_def by (intro CollectI exI[of _ "Dir i"]) simp
  moreover have "unat (obj_indirect (objects s ob) ! i) \<in> blocks_of c s ob"
    if "i < 4" "obj_indirect (objects s ob) ! i \<noteq> 0" for i
    using that unfolding blocks_of_def by (intro CollectI exI[of _ "Ind i"]) simp
  moreover have "unat (u32_at (blk_view c s (obj_indirect (objects s ob) ! i)) j) \<in> blocks_of c s ob"
    if "i < 4" "j < 1024" "obj_indirect (objects s ob) ! i \<noteq> 0"
      "u32_at (blk_view c s (obj_indirect (objects s ob) ! i)) j \<noteq> 0" for i j
    using that unfolding blocks_of_def by (intro CollectI exI[of _ "Sub i j"]) simp
  ultimately show "direct_blocks (obj_direct (objects s ob)) (set [0 ..< 4])
     \<union> indirect_blocks c s (obj_indirect (objects s ob)) (set [0 ..< 4]) \<subseteq> blocks_of c s ob"
    by (auto simp: direct_blocks_def indirect_blocks_def nonzero_entries_def split: if_splits)
qed

lemma names_same:
  assumes "\<And>m. m < MAX_OBJS \<Longrightarrow> obj_size (objects t m) = obj_size (objects s m) \<and>
      obj_key (objects t m) = obj_key (objects s m)"
  shows "names t = names s"
  using assms by (auto simp: names_def fun_eq_iff)

text \<open>
  The state after the blocks are freed and the object is cleared: the invariant holds again,
  and the other objects keep their blocks and the contents of these.
\<close>

lemma store_inv_cleared:
  assumes inv: "store_inv c s" and ob: "ob < MAX_OBJS"
    and sb: "same_blocks c s t"
    and objs: "objects t = (objects s)(ob := ob')"
    and ob': "wf_obj ob'" "obj_size ob' = 0" "cstr (obj_key ob') = []"
      "obj_direct ob' = replicate 4 0" "obj_indirect ob' = replicate 4 0"
    and u: "used t = used s - blocks_of c s ob"
  shows "store_inv c t \<and> names t = (names s)(ob := None)"
proof
  show n: "names t = (names s)(ob := None)"
    using ob ob' by (auto simp: names_def objs fun_eq_iff)
  have ptr_other: "ptr c t m sl = ptr c s m sl" if "m \<noteq> ob" for m sl
    using sb that by (cases sl) (auto simp: objs same_blocks_def)
  have ptr_ob: "ptr c t ob sl = 0" if "slot_ok sl" for sl
    using that ob' by (cases sl) (auto simp: objs)
  have sub: "owned c t \<subseteq> owned c s" and not_ob: "(m, sl) \<in> owned c t \<Longrightarrow> m \<noteq> ob" for m sl
    using ptr_other ptr_ob by (auto simp: owned_def) metis
  have "names t m \<noteq> None \<and> ptr_ok c t (ptr c t m sl)" if mem: "(m, sl) \<in> owned c t" for m sl
  proof -
    have m: "m \<noteq> ob" using not_ob[OF mem] .
    have own: "(m, sl) \<in> owned c s" using mem sub by blast
    then have ok: "names s m \<noteq> None" "ptr_ok c s (ptr c s m sl)" using inv by (auto simp: store_inv_def)
    have "unat (ptr c s m sl) \<notin> blocks_of c s ob"
    proof
      assume "unat (ptr c s m sl) \<in> blocks_of c s ob"
      then obtain sl' where sl': "slot_ok sl'" "ptr c s ob sl' \<noteq> 0" "ptr c s m sl = ptr c s ob sl'"
        by (auto simp: blocks_of_def word_unat_eq_iff)
      then have "(ob, sl') \<in> owned c s" using ob by (simp add: owned_def)
      moreover have "inj_on (\<lambda>(ob, sl). ptr c s ob sl) (owned c s)" using inv by (simp add: store_inv_def)
      ultimately have "(m, sl) = (ob, sl')"
        using inj_onD[of "\<lambda>(ob, sl). ptr c s ob sl" "owned c s" "(m, sl)" "(ob, sl')"] own sl'(3) by simp
      with m show False by simp
    qed
    moreover have "ptr c s m sl \<noteq> 0" using own by (simp add: owned_def)
    ultimately show ?thesis
      using ok m sb u n ptr_other[OF m] by (auto simp: ptr_ok_def same_blocks_def)
  qed
  moreover have "inj_on (\<lambda>(m, sl). ptr c t m sl) (owned c t)"
  proof -
    have "inj_on (\<lambda>(m, sl). ptr c s m sl) (owned c t)"
      using inv sub by (auto simp: store_inv_def intro: inj_on_subset)
    moreover have "(\<lambda>(m, sl). ptr c s m sl) x = (\<lambda>(m, sl). ptr c t m sl) x" if "x \<in> owned c t" for x
      using that not_ob ptr_other by (cases x) auto
    ultimately show ?thesis by (simp cong: inj_on_cong)
  qed
  moreover have "dir_inv t"
  proof -
    have "inj_on (names t) (dom (names t))"
      using inv unfolding n by (auto simp: store_inv_def dir_inv_def inj_on_def)
    then show ?thesis using inv ob' by (auto simp: store_inv_def dir_inv_def objs)
  qed
  moreover have "{..<RES_BLOCKS} \<subseteq> used t"
  proof -
    have "RES_BLOCKS \<le> b" if "b \<in> blocks_of c s ob" for b
      using that ptr_bounded[OF inv ob] by (auto simp: blocks_of_def ptr_ok_def)
    then show ?thesis using inv u by (force simp: store_inv_def)
  qed
  ultimately show "store_inv c t"
    using inv sb by (auto simp: store_inv_def same_blocks_def)
qed

lemma destroy_object_ok:
  assumes inv: "store_inv c s" and key: "valid_key key" and ob: "names s ob = Some (cstr key)"
  shows "\<exists>s'. destroy_object c key s = Some (0, s') \<and> store_inv c s' \<and>
    names s' = (names s)(ob := None) \<and> used s' = used s - blocks_of c s ob \<and>
    (\<forall>m. m \<noteq> ob \<longrightarrow> objects s' m = objects s m) \<and>
    (\<forall>b. b \<noteq> 0 \<longrightarrow> blk_view c s' b = blk_view c s b) \<and> dirty s' = insert ob (dirty s)"
proof -
  have d: "dir_inv s" and bi: "blk_inv c s" and mem: "mmap_page s BLOCK_SIZE \<noteq> None"
    using inv by (simp_all add: store_inv_def)
  have lt: "ob < MAX_OBJS" using names_bound[OF ob] .
  have wf: "wf_obj (objects s ob)" using d lt by (simp add: dir_inv_def)
  have live: "obj_size (objects s ob) \<noteq> 0" using ob by (simp add: names_def split: if_splits)
  have find: "find_object s key = Some ob"
    using find_object_iff[OF d, of key ob] ob key by (simp add: valid_key_def)
  have "\<forall>i \<in> set [0 ..< 4]. unat (obj_direct (objects s ob) ! i) < 64 * BLK_BMP_LN"
    using ptr_unat_bound[OF inv lt, of "Dir _"] by simp
  then obtain s1 where s1: "free_direct s ob [0 ..< 4] = Some (0, s1)" "same_blocks c s s1"
      "used s1 = used s - direct_blocks (obj_direct (objects s ob)) (set [0 ..< 4])"
      "objects s1 = (objects s)(ob := (objects s ob)\<lparr>obj_direct := zero_at (set [0 ..< 4]) (obj_direct (objects s ob))\<rparr>)"
    using free_direct_ok[OF bi distinct_upt] by blast
  have mem1: "mmap_page s1 BLOCK_SIZE \<noteq> None" using s1(2) mem by (simp add: same_blocks_def)
  have io: "indirect_ok c s (obj_indirect (objects s ob) ! i)" if i: "i < 4" for i
  proof -
    have "unat (ptr c s ob (Sub i j)) < 64 * BLK_BMP_LN" if "j < 1024" for j
      using ptr_unat_bound[OF inv lt, of "Sub i j"] i that by simp
    then show ?thesis
      using ptr_bounded[OF inv lt, of "Ind i"] ptr_unat_bound[OF inv lt, of "Ind i"] i
      by (auto simp: indirect_ok_def ptr_ok_def)
  qed
  have xs1: "obj_indirect (objects s1 ob) = obj_indirect (objects s ob)" using s1(4) by simp
  have "\<forall>i \<in> set [0 ..< 4]. indirect_ok c s1 (obj_indirect (objects s1 ob) ! i)"
    using io indirect_ok_same[OF s1(2)] unfolding xs1 by simp
  then obtain s2 where s2: "free_indirect c s1 ob [0 ..< 4] = Some (0, s2)" "same_blocks c s1 s2"
      "used s2 = used s1 - indirect_blocks c s1 (obj_indirect (objects s1 ob)) (set [0 ..< 4])"
      "objects s2 = (objects s1)(ob := (objects s1 ob)\<lparr>obj_indirect := zero_at (set [0 ..< 4]) (obj_indirect (objects s1 ob))\<rparr>)"
    using free_indirect_ok[OF same_blocks_inv[OF s1(2)] mem1 distinct_upt] by blast
  define ob' where "ob' = (objects s2 ob)\<lparr>obj_size := 0, obj_key := replicate KEY_SIZE 0\<rparr>"
  let ?s3 = "set_obj s2 ob ob'"
  let ?t = "?s3\<lparr>obj_bmp := (obj_bmp s2)(ob div 64 := set_bit (ob mod 64) (obj_bmp s2 (ob div 64)))\<rparr>"
  have sb2: "same_blocks c s s2" using same_blocks_trans[OF s1(2) s2(2)] .
  have sb: "same_blocks c s ?s3" using sb2 same_blocks_inv[OF sb2] by (blast intro: same_blocks_trans same_blocks_mem)
  have z: "zero_at (set [0 ..< 4]) xs = replicate 4 0" if "length xs = 4" for xs
    using zero_at_all[of xs "set [0 ..< 4]"] that by (simp add: lessThan_atLeast0)
  have o: "wf_obj ob'" "obj_size ob' = 0" "cstr (obj_key ob') = []"
      "obj_direct ob' = replicate 4 0" "obj_indirect ob' = replicate 4 0"
    using wf s1(4) s2(4) z by (simp_all add: ob'_def wf_obj_def)
  have u: "used ?s3 = used s - blocks_of c s ob"
    using s1(3) s2(3) indirect_blocks_same[OF s1(2)] blocks_of_split[of c s ob] xs1 by auto
  have objs: "objects ?s3 = (objects s)(ob := ob')" using s1(4) s2(4) by simp
  have st: "store_inv c ?s3" "names ?s3 = (names s)(ob := None)"
    using store_inv_cleared[OF inv lt sb objs o u] by blast+
  have "destroy_object c key s = Some (0, ?t)"
    using find live s1(1) s2(1) mark_obj_dirty_ok[OF lt, of ?s3]
    by (simp add: destroy_object_def ob'_def set_obj_def)
  moreover have "store_inv c ?t" "names ?t = (names s)(ob := None)" using st by simp_all
  moreover have "\<forall>b. b \<noteq> 0 \<longrightarrow> blk_view c ?t b = blk_view c s b"
    using sb by (simp add: same_blocks_def)
  moreover have "dirty ?t = insert ob (dirty s)"
    using dirty_set_bit[OF lt, of s] sb2 by (simp add: same_blocks_def dirty_def)
  moreover have "used ?t = used s - blocks_of c s ob" using u by simp
  moreover have "\<forall>m. m \<noteq> ob \<longrightarrow> objects ?t m = objects s m" using objs by simp
  ultimately show ?thesis by blast
qed

section \<open>Creating and renaming an object\<close>

text \<open>A change of the table that keeps all block pointers keeps the invariant.\<close>

lemma store_inv_table:
  assumes inv: "store_inv c s" and d: "dir_inv t"
    and t: "t = s\<lparr>objects := objects t, obj_bmp := obj_bmp t\<rparr>"
    and ptrs: "\<And>m. obj_direct (objects t m) = obj_direct (objects s m) \<and>
      obj_indirect (objects t m) = obj_indirect (objects s m)"
    and live: "\<And>m. names s m \<noteq> None \<Longrightarrow> names t m \<noteq> None"
  shows "store_inv c t"
proof -
  have v: "blk_view c t = blk_view c s" "blk_readable c t = blk_readable c s"
    "blk_inv c t = blk_inv c s" "used t = used s" "mmap_page t = mmap_page s"
    by (subst t, simp add: blk_view_def blk_readable_def blk_inv_def io_ok_def used_def fun_eq_iff)+
  have p: "ptr c t m sl = ptr c s m sl" for m sl using ptrs[of m] v by (cases sl) simp_all
  then have o: "owned c t = owned c s" by (simp add: owned_def)
  have "names t m \<noteq> None \<and> ptr_ok c t (ptr c t m sl)" if "(m, sl) \<in> owned c t" for m sl
  proof -
    have "(m, sl) \<in> owned c s" using that o by simp
    then have "names s m \<noteq> None" "ptr_ok c s (ptr c s m sl)" using inv unfolding store_inv_def by blast+
    then show ?thesis using live by (simp add: ptr_ok_def v p)
  qed
  then show ?thesis using inv d unfolding store_inv_def v p o by blast
qed

lemma create_object_store:
  assumes inv: "store_inv c s" and key: "valid_key key"
    and new: "\<forall>i. names s i \<noteq> Some (cstr key)" and slot: "free_slot s = Some i"
  shows "\<exists>s'. create_object key s = Some (int i + 2, s') \<and> store_inv c s' \<and>
    names s' = (names s)(i \<mapsto> cstr key) \<and> obj_size (objects s' i) = 1 \<and> blocks_of c s' i = {} \<and>
    (\<forall>j. j \<noteq> i \<longrightarrow> objects s' j = objects s j) \<and> dirty s' = insert i (dirty s) \<and>
    s' = s\<lparr>objects := objects s', obj_bmp := obj_bmp s'\<rparr>"
proof -
  have d: "dir_inv s" using inv by (simp add: store_inv_def)
  obtain s' where s': "create_object key s = Some (int i + 2, s')" "dir_inv s'"
      "names s' = (names s)(i \<mapsto> cstr key)" "obj_size (objects s' i) = 1"
      "obj_direct (objects s' i) = obj_direct (objects s i)"
      "obj_indirect (objects s' i) = obj_indirect (objects s i)"
      "\<forall>j. j \<noteq> i \<longrightarrow> objects s' j = objects s j" "dirty s' = insert i (dirty s)"
      "s' = s\<lparr>objects := objects s', obj_bmp := obj_bmp s'\<rparr>"
    using create_object_new[OF d key new slot] by blast
  have "obj_direct (objects s' m) = obj_direct (objects s m) \<and>
      obj_indirect (objects s' m) = obj_indirect (objects s m)" for m
    using s'(5,6,7) by (cases "m = i") simp_all
  moreover have "names s m \<noteq> None \<Longrightarrow> names s' m \<noteq> None" for m using s'(3) by simp
  ultimately have st: "store_inv c s'" using store_inv_table[OF inv s'(2) s'(9)] by blast
  have "names s i = None" "i < MAX_OBJS" using free_slot_Some[OF slot] by (simp_all add: names_def)
  then have "ptr c s i sl = 0" if "slot_ok sl" for sl
    using inv that unfolding store_inv_def owned_def by blast
  moreover have "blk_view c s' = blk_view c s"
    by (subst s'(9)) (simp add: blk_view_def fun_eq_iff)
  then have "ptr c s' i sl = ptr c s i sl" for sl using s'(5,6) by (cases sl) simp_all
  ultimately have "blocks_of c s' i = {}" unfolding blocks_of_def by auto
  with s' st show ?thesis by blast
qed

lemma rename_object_store:
  assumes inv: "store_inv c s" and key: "valid_key key" and new: "valid_key newname" "KEY_SIZE \<le> length newname"
    and old: "names s i = Some (cstr key)" and free: "\<forall>j. names s j \<noteq> Some (cstr newname)"
  shows "\<exists>s'. rename_object key newname s = Some (int i + 2, s') \<and> store_inv c s' \<and>
    names s' = (names s)(i \<mapsto> cstr newname) \<and> (\<forall>j. j \<noteq> i \<longrightarrow> objects s' j = objects s j) \<and>
    objects s' i = (objects s i)\<lparr>obj_key := take KEY_SIZE newname\<rparr> \<and> dirty s' = insert i (dirty s) \<and>
    s' = s\<lparr>objects := objects s', obj_bmp := obj_bmp s'\<rparr>"
proof -
  have d: "dir_inv s" using inv by (simp add: store_inv_def)
  obtain s' where s': "rename_object key newname s = Some (int i + 2, s')" "dir_inv s'"
      "names s' = (names s)(i \<mapsto> cstr newname)" "\<forall>j. j \<noteq> i \<longrightarrow> objects s' j = objects s j"
      "objects s' i = (objects s i)\<lparr>obj_key := take KEY_SIZE newname\<rparr>" "dirty s' = insert i (dirty s)"
      "s' = s\<lparr>objects := objects s', obj_bmp := obj_bmp s'\<rparr>"
    using rename_object_ok[OF d key new old free] by blast
  have "obj_direct (objects s' m) = obj_direct (objects s m) \<and>
      obj_indirect (objects s' m) = obj_indirect (objects s m)" for m
    using s'(4,5) by (cases "m = i") simp_all
  moreover have "names s m \<noteq> None \<Longrightarrow> names s' m \<noteq> None" for m using s'(3) by simp
  ultimately have "store_inv c s'" using store_inv_table[OF inv s'(2) s'(7)] by blast
  with s' show ?thesis by blast
qed

end
