(* ===== verification/Contents.thy ===== *)
theory Contents
  imports Store
begin

text \<open>
  The contents of an object: what \<open>objstore_write\<close> and \<open>objstore_read\<close> of
  \<open>assignment-4/objstore.c\<close> do to the sequence of bytes that the block pointers of an object
  stand for. Byte \<open>x\<close> of an object lies in its logical block \<open>x div 4096\<close>; the logical blocks
  0 to 3 are reached through \<open>direct\<close>, the next 4096 through the four pointer blocks.
\<close>

section \<open>Logical blocks\<close>

fun slot_of :: "nat \<Rightarrow> slot" where
  "slot_of k = (if k < 4 then Dir k else Sub ((k - 4) div 1024) ((k - 4) mod 1024))"

declare slot_of.simps [simp del]

definition content :: "bool \<Rightarrow> objfs_state \<Rightarrow> nat \<Rightarrow> nat \<Rightarrow> byte" where
  "content c s ob x = blk_view c s (ptr c s ob (slot_of (x div BLOCK_SIZE))) (x mod BLOCK_SIZE)"

text \<open>A transfer that does not run over the block buffer.\<close>

definition fits :: "nat \<Rightarrow> nat \<Rightarrow> bool" where
  "fits off n \<longleftrightarrow> off mod BLOCK_SIZE = 0 \<or> off mod BLOCK_SIZE + n \<le> BLOCK_SIZE"

text \<open>The local variables when a transfer reaches logical block \<open>k\<close>.\<close>

definition locals_at :: "nat \<Rightarrow> nat \<Rightarrow> nat \<Rightarrow> io_locals \<Rightarrow> bool" where
  "locals_at off n k l \<longleftrightarrow> remaining l = int (n - (BLOCK_SIZE * k - off)) \<and>
     shift l = (if k \<le> off div BLOCK_SIZE then off mod BLOCK_SIZE else 0) \<and>
     blocks_done l = of_nat (min k (off div BLOCK_SIZE))"

text \<open>The logical blocks that a transfer touches.\<close>

definition touched :: "nat \<Rightarrow> nat \<Rightarrow> nat \<Rightarrow> bool" where
  "touched off n k \<longleftrightarrow> off div BLOCK_SIZE \<le> k \<and> BLOCK_SIZE * k < off + n"

lemma locals_skip:
  assumes "locals_at off n k l" "k < off div BLOCK_SIZE" "off div BLOCK_SIZE < 2 ^ 32"
  shows "blocks_done l < of_nat (off div BLOCK_SIZE)"
    "locals_at off n (Suc k) (l\<lparr>blocks_done := blocks_done l + 1\<rparr>)"
proof -
  have "unat (of_nat k :: u32) < unat (of_nat (off div BLOCK_SIZE) :: u32)" using assms(2,3) by simp
  with assms show "blocks_done l < of_nat (off div BLOCK_SIZE)"
    by (simp add: locals_at_def word_less_nat_alt)
  show "locals_at off n (Suc k) (l\<lparr>blocks_done := blocks_done l + 1\<rparr>)"
    using assms(1,2) by (auto simp: locals_at_def)
qed

lemma locals_reached:
  assumes "locals_at off n k l" "off div BLOCK_SIZE \<le> k"
  shows "\<not> blocks_done l < of_nat (off div BLOCK_SIZE)"
  using assms by (simp add: locals_at_def)

lemma locals_idle:
  assumes "locals_at off n k l" "off div BLOCK_SIZE \<le> k" "\<not> touched off n k" "0 < n"
  shows "remaining l = 0" "locals_at off n (Suc k) l"
proof -
  have le: "off + n \<le> BLOCK_SIZE * k" using assms(2,3) by (simp add: touched_def)
  then show "remaining l = 0" using assms(1) by (simp add: locals_at_def)
  have "off div BLOCK_SIZE \<noteq> k" using le assms(4) by auto
  with assms le show "locals_at off n (Suc k) l" by (auto simp: locals_at_def)
qed

text \<open>The part of the caller's buffer that goes to or comes from a touched block.\<close>

lemma locals_active:
  assumes l: "locals_at off n k l" and t: "touched off n k" and f: "fits off n" and n: "0 < n"
  defines "cur \<equiv> (if remaining l > int BLOCK_SIZE then int BLOCK_SIZE else remaining l)"
  shows "remaining l > 0" "shift l + nat cur \<le> BLOCK_SIZE"
    "locals_at off n (Suc k) (l\<lparr>remaining := remaining l - cur, shift := 0, temp := x\<rparr>)"
    "nat (int n - remaining l) = BLOCK_SIZE * k - off"
    "y < BLOCK_SIZE \<Longrightarrow> (shift l \<le> y \<and> y < shift l + nat cur) \<longleftrightarrow>
       off \<le> BLOCK_SIZE * k + y \<and> BLOCK_SIZE * k + y < off + n"
    "shift l \<le> y \<Longrightarrow> off \<le> BLOCK_SIZE * k + y \<Longrightarrow>
       (BLOCK_SIZE * k - off) + (y - shift l) = BLOCK_SIZE * k + y - off"
proof -
  define b m where "b = off div BLOCK_SIZE" and "m = off mod BLOCK_SIZE"
  have off: "off = 4096 * b + m" and m: "m < 4096" by (simp_all add: b_def m_def)
  have k: "b \<le> k" "4096 * k < off + n" using t by (simp_all add: touched_def b_def)
  have fit: "m = 0 \<or> m + n \<le> 4096" using f by (simp add: fits_def m_def)
  have r: "remaining l = int (n - (4096 * k - off))" and sh: "shift l = (if k \<le> b then m else 0)"
    and bd: "blocks_done l = of_nat (min k b)"
    using l by (simp_all add: locals_at_def b_def m_def)
  have big: "k = b" if "m \<noteq> 0" using fit that k off m by simp
  have lt: "4096 * k - off < n" using k n by linarith
  then show pos: "remaining l > 0" using r by simp
  show "shift l + nat cur \<le> BLOCK_SIZE"
    using sh r fit big k off unfolding cur_def by (auto split: if_splits)
  show "nat (int n - remaining l) = BLOCK_SIZE * k - off"
    using r k off by simp
  show "locals_at off n (Suc k) (l\<lparr>remaining := remaining l - cur, shift := 0, temp := x\<rparr>)"
    unfolding locals_at_def b_def[symmetric] m_def[symmetric]
    using r bd k off m fit big unfolding cur_def by (auto split: if_splits)
  show "y < BLOCK_SIZE \<Longrightarrow> (shift l \<le> y \<and> y < shift l + nat cur) \<longleftrightarrow>
       off \<le> BLOCK_SIZE * k + y \<and> BLOCK_SIZE * k + y < off + n"
    using sh r k off m fit big unfolding cur_def by (auto split: if_splits)
  show "shift l \<le> y \<Longrightarrow> off \<le> BLOCK_SIZE * k + y \<Longrightarrow>
       (BLOCK_SIZE * k - off) + (y - shift l) = BLOCK_SIZE * k + y - off"
    using sh k off m big by (auto split: if_splits)
qed

section \<open>One block of a transfer\<close>

text \<open>
  \<open>io_step c s s' N W\<close>: the step has marked the blocks \<open>N\<close>, which were free, and has
  changed no block outside \<open>W\<close>; of the rest of the memory only the objects may differ.
\<close>

definition io_step :: "bool \<Rightarrow> objfs_state \<Rightarrow> objfs_state \<Rightarrow> nat set \<Rightarrow> u32 set \<Rightarrow> bool" where
  "io_step c s s' N W \<longleftrightarrow> blk_inv c s' \<and> obj_bmp s' = obj_bmp s \<and> mmap_page s' = mmap_page s \<and>
     def_fstat s' = def_fstat s \<and> def_dirstat s' = def_dirstat s \<and> mounted s' = mounted s \<and>
     used s' = used s \<union> N \<and> N \<inter> used s = {} \<and> N \<subseteq> alloc_range \<and>
     (\<forall>d. d \<noteq> 0 \<longrightarrow> d \<notin> W \<longrightarrow>
        blk_view c s' d = blk_view c s d \<and> (blk_readable c s d \<longrightarrow> blk_readable c s' d)) \<and>
     (\<forall>d \<in> W. blk_readable c s' d)"

lemma io_step_refl: "blk_inv c s \<Longrightarrow> io_step c s s {} {}"
  by (simp add: io_step_def)

lemma io_step_inv: "io_step c s t N W \<Longrightarrow> blk_inv c t"
  by (simp add: io_step_def)

lemma io_step_readable: "io_step c s t N W \<Longrightarrow> d \<noteq> 0 \<Longrightarrow> blk_readable c s d \<Longrightarrow> blk_readable c t d"
  by (auto simp: io_step_def)

lemma io_step_view: "io_step c s t N W \<Longrightarrow> d \<noteq> 0 \<Longrightarrow> d \<notin> W \<Longrightarrow> blk_view c t d = blk_view c s d"
  by (simp add: io_step_def)

lemma io_step_used: "io_step c s t N W \<Longrightarrow> used t = used s \<union> N"
  by (simp add: io_step_def)

lemma io_step_trans [trans]:
  assumes a: "io_step c s t N W" and b: "io_step c t u M V" and z: "0 \<notin> W"
  shows "io_step c s u (N \<union> M) (W \<union> V)"
proof -
  have "blk_readable c u d" if "d \<in> W" for d
    using that z a io_step_readable[OF b, of d] by (auto simp: io_step_def)
  then show ?thesis using a b by (auto simp: io_step_def)
qed

lemma io_step_set_obj [simp]: "io_step c s (set_obj t ob y) N W = io_step c s t N W"
  by (simp add: io_step_def set_obj_def blk_inv_def io_ok_def blk_view_def blk_readable_def used_def)

lemma io_step_set_obj_left [simp]: "io_step c (set_obj s ob y) t N W = io_step c s t N W"
  by (simp add: io_step_def set_obj_def blk_inv_def io_ok_def blk_view_def blk_readable_def used_def)

lemma io_step_free:
  assumes "io_step c s t N W" "card N \<le> 1" "Suc n \<le> card (alloc_range - used s)"
  shows "n \<le> card (alloc_range - used t)"
proof -
  have "alloc_range - used t = (alloc_range - used s) - N" using assms(1) by (auto simp: io_step_def)
  moreover have "finite N" using assms(1) bmp.finite_avail by (auto simp: io_step_def intro: finite_subset)
  ultimately have "card (alloc_range - used s) - card N \<le> card (alloc_range - used t)"
    by (simp add: diff_card_le_card_Diff)
  with assms(2,3) show ?thesis by linarith
qed

lemma alloc_block_step:
  assumes "blk_inv c s" "\<not> alloc_range \<subseteq> used s"
  shows "\<exists>b s'. alloc_block s = (b, s') \<and> b \<noteq> 0 \<and> io_step c s s' {unat b} {} \<and>
    objects s' = objects s"
proof (cases s rule: alloc_block_cases)
  case full
  with assms(2) show ?thesis by simp
next
  case (got b)
  let ?t = "s\<lparr>blk_bmp := (blk_bmp s)(b div 64 := set_bit (b mod 64) (blk_bmp s (b div 64)))\<rparr>"
  have "unat (of_nat b :: u32) = b" using got(2) by simp
  moreover have "b \<noteq> 0" using got(2) by (auto simp: alloc_range_def)
  ultimately have "(of_nat b :: u32) \<noteq> 0" by (metis unat_0)
  moreover have "io_step c s ?t {b} {}"
    using assms(1) got(2,3) used_alloc[OF got(2), of s]
    by (simp add: io_step_def blk_inv_def io_ok_def blk_view_def blk_readable_def)
  ultimately show ?thesis using got(1) \<open>unat (of_nat b :: u32) = b\<close> by auto
qed

lemma fs_meta_fields:
  assumes "fs_meta s' = fs_meta s"
  shows "objects s' = objects s" "obj_bmp s' = obj_bmp s" "used s' = used s" "mmap_page s' = mmap_page s"
    "def_fstat s' = def_fstat s" "def_dirstat s' = def_dirstat s" "mounted s' = mounted s"
  using assms by (simp_all add: fs_meta_def used_def)

lemma read_step:
  assumes "blk_inv c s" "b \<noteq> 0"
  shows "\<exists>s' t. read_ch_blk c s b (page_addr p) buf = (0, s', t) \<and> objects s' = objects s \<and>
    fs_meta s' = fs_meta s \<and> blk_inv c s' \<and> (blk_readable c s b \<longrightarrow> t = blk_view c s b) \<and>
    (\<forall>d. d \<noteq> 0 \<longrightarrow> d \<noteq> b \<longrightarrow> blk_view c s' d = blk_view c s d \<and> (blk_readable c s d \<longrightarrow> blk_readable c s' d))"
  using read_ch_blk_any[OF assms, of p buf] fs_meta_fields(1) by blast

lemma write_step:
  assumes "blk_inv c s" "b \<noteq> 0"
  shows "\<exists>s'. write_ch_blk c s b (page_addr p) buf = (0, s') \<and> objects s' = objects s \<and>
    io_step c s s' {} {b} \<and> blk_view c s' b = buf"
proof -
  obtain s' where s': "write_ch_blk c s b (page_addr p) buf = (0, s')" "blk_inv c s'"
      "fs_meta s' = fs_meta s" "blk_view c s' b = buf" "blk_readable c s' b"
      "\<forall>d. d \<noteq> 0 \<longrightarrow> d \<noteq> b \<longrightarrow> blk_view c s' d = blk_view c s d \<and> (blk_readable c s d \<longrightarrow> blk_readable c s' d)"
    using blk.wr_result[OF assms, of p buf] by blast
  then have "io_step c s s' {} {b}" using fs_meta_fields[OF s'(3)] by (simp add: io_step_def)
  with s' show ?thesis using fs_meta_fields(1)[OF s'(3)] by blast
qed

text \<open>
  \<open>update_block\<close> on a touched block puts the caller's bytes at their places and keeps the
  bytes of the block that lie in front of them.
\<close>

lemma update_block_ok:
  assumes inv: "blk_inv c s" and l: "locals_at off n k l" and t: "touched off n k"
    and f: "fits off n" and n: "0 < n"
    and old: "bp \<noteq> 0 \<Longrightarrow> blk_readable c s bp" and free: "bp = 0 \<Longrightarrow> \<not> alloc_range \<subseteq> used s"
  shows "\<exists>s' l' bp' N. update_block c (Some (page_addr p)) buf (int n) s l bp = Some (0, s', l', bp') \<and>
    locals_at off n (Suc k) l' \<and> objects s' = objects s \<and> bp' \<noteq> 0 \<and> (bp \<noteq> 0 \<longrightarrow> bp' = bp \<and> N = {}) \<and>
    (bp = 0 \<longrightarrow> N = {unat bp'}) \<and> io_step c s s' N {bp'} \<and>
    (\<forall>y<BLOCK_SIZE. off \<le> BLOCK_SIZE * k + y \<longrightarrow> BLOCK_SIZE * k + y < off + n \<longrightarrow>
       blk_view c s' bp' y = buf (BLOCK_SIZE * k + y - off)) \<and>
    (\<forall>y<BLOCK_SIZE. bp \<noteq> 0 \<longrightarrow> BLOCK_SIZE * k + y < off \<longrightarrow> blk_view c s' bp' y = blk_view c s bp y)"
proof -
  note act = locals_active[OF l t f n]
  define cur where "cur = (if remaining l > int BLOCK_SIZE then int BLOCK_SIZE else remaining l)"
  obtain bp' s1 N where s1: "(if bp = 0 then alloc_block s else (bp, s)) = (bp', s1)" "bp' \<noteq> 0"
      "io_step c s s1 N {}" "objects s1 = objects s" "bp \<noteq> 0 \<longrightarrow> bp' = bp \<and> N = {} \<and> s1 = s" "bp = 0 \<longrightarrow> N = {unat bp'}"
  proof (cases "bp = 0")
    case True
    with alloc_block_step[OF inv free] that show ?thesis by (metis (full_types))
  next
    case False
    with that[of bp s "{}"] io_step_refl[OF inv] show ?thesis by simp
  qed
  obtain s2 t2 where s2: "(if shift l > 0 then read_ch_blk c s1 bp' (page_addr p) (temp l) else (0, s1, temp l)) = (0, s2, t2)"
      "objects s2 = objects s1" "fs_meta s2 = fs_meta s1" "blk_inv c s2"
      "shift l > 0 \<longrightarrow> blk_readable c s1 bp' \<longrightarrow> t2 = blk_view c s1 bp'"
      "\<forall>d. d \<noteq> 0 \<longrightarrow> d \<noteq> bp' \<longrightarrow> blk_view c s2 d = blk_view c s1 d \<and> (blk_readable c s1 d \<longrightarrow> blk_readable c s2 d)"
    using read_step[OF io_step_inv[OF s1(3)] s1(2), of p "temp l"] io_step_inv[OF s1(3)]
    by (cases "shift l > 0") auto
  define t3 where "t3 = memcpy t2 (shift l) buf (nat (int n - remaining l)) (nat cur)"
  obtain s3 where s3: "write_ch_blk c s2 bp' (page_addr p) t3 = (0, s3)" "objects s3 = objects s2"
      "io_step c s2 s3 {} {bp'}" "blk_view c s3 bp' = t3"
    using write_step[OF s2(4) s1(2)] by blast
  define l' where "l' = l\<lparr>remaining := remaining l - cur, shift := 0, temp := t3\<rparr>"
  have "update_block c (Some (page_addr p)) buf (int n) s l bp = Some (0, s3, l', bp')"
    unfolding update_block_def Let_def cur_def[symmetric]
    using act(1,2)[folded cur_def] s1(1) s2(1) s3(1) by (simp add: t3_def[symmetric] l'_def)
  moreover have "locals_at off n (Suc k) l'" unfolding l'_def cur_def using act(3) .
  moreover have "io_step c s1 s3 {} {bp'}"
    using s3(3) s2(6) fs_meta_fields[OF s2(3)] by (auto simp: io_step_def)
  then have "io_step c s s3 N {bp'}" using io_step_trans[OF s1(3)] by fastforce
  moreover have "blk_view c s3 bp' y = buf (BLOCK_SIZE * k + y - off)"
    if "y < BLOCK_SIZE" "off \<le> BLOCK_SIZE * k + y" "BLOCK_SIZE * k + y < off + n" for y
  proof -
    have "shift l \<le> y" "y < shift l + nat cur" using act(5)[OF that(1)] that(2,3) unfolding cur_def by blast+
    then show ?thesis unfolding s3(4) t3_def act(4) using act(6)[OF _ that(2)] by simp
  qed
  moreover have "blk_view c s3 bp' y = blk_view c s bp y"
    if "y < BLOCK_SIZE" "bp \<noteq> 0" "BLOCK_SIZE * k + y < off" for y
  proof -
    have "\<not> (shift l \<le> y \<and> y < shift l + nat cur)" using act(5)[OF that(1)] that(3) unfolding cur_def by simp
    then have "t3 y = t2 y" by (auto simp: t3_def)
    moreover have "shift l > 0"
    proof -
      have k: "off div BLOCK_SIZE \<le> k" using t by (simp add: touched_def)
      have "BLOCK_SIZE * k \<le> off" using that(3) by simp
      then have le: "k \<le> off div BLOCK_SIZE" by (simp add: less_eq_div_iff_mult_less_eq mult.commute)
      moreover have "off mod BLOCK_SIZE \<noteq> 0"
        using that(3) k le mult_div_mod_eq[of BLOCK_SIZE off] by auto
      ultimately show ?thesis using l by (simp add: locals_at_def)
    qed
    ultimately show ?thesis using s2(5) s1(5) that(2) old unfolding s3(4) by simp
  qed
  ultimately show ?thesis using s1(2,4,5,6) s2(2) s3(2) by metis
qed

section \<open>A loop over an array of block pointers\<close>

text \<open>
  The two inner loops of \<open>objstore_write\<close> go over an array of block pointers that lives in
  different places: in the object itself, or in the buffer that holds a pointer block. The
  locale states what the loop needs of the place: \<open>get\<close> and \<open>upd\<close> read and write one pointer,
  \<open>st\<close> is the file system state, and \<open>rest\<close> is what an update leaves alone.
\<close>

locale pointer_array =
  fixes st :: "'h \<Rightarrow> objfs_state"
    and get :: "'h \<Rightarrow> nat \<Rightarrow> u32"
    and upd :: "'h \<Rightarrow> objfs_state \<Rightarrow> nat \<Rightarrow> u32 \<Rightarrow> 'h"
    and okay :: "'h \<Rightarrow> bool"
    and rest :: "'h \<Rightarrow> 'r"
    and len :: nat
    and ob :: nat
  assumes get_same: "okay h \<Longrightarrow> i < len \<Longrightarrow> objects s = objects (st h) \<Longrightarrow> get (upd h s i p) i = p"
    and get_other: "objects s = objects (st h) \<Longrightarrow> j \<noteq> i \<Longrightarrow> get (upd h s i p) j = get h j"
    and okay_upd: "okay h \<Longrightarrow> objects s = objects (st h) \<Longrightarrow> okay (upd h s i p)"
    and rest_upd: "objects s = objects (st h) \<Longrightarrow> rest (upd h s i p) = rest h"
    and st_upd: "\<exists>y. st (upd h s i p) = set_obj s ob y"
    and upd_id: "upd h (st h) i (get h i) = h"
begin

fun walk :: "bool \<Rightarrow> u64 option \<Rightarrow> buffer \<Rightarrow> int \<Rightarrow> u32 \<Rightarrow> nat list \<Rightarrow> 'h \<Rightarrow> io_locals \<Rightarrow>
    ('h \<times> io_locals) option" where
  "walk c addr buf sz start [] h l = Some (h, l)"
| "walk c addr buf sz start (i # is) h l =
     (if blocks_done l < start then walk c addr buf sz start is h (l\<lparr>blocks_done := blocks_done l + 1\<rparr>)
      else case update_block c addr buf sz (st h) l (get h i) of
             None \<Rightarrow> None
           | Some (r, s1, l1, bp) \<Rightarrow> walk c addr buf sz start is (upd h s1 i bp) l1)"

definition ptrs_ok :: "bool \<Rightarrow> nat set \<Rightarrow> 'h \<Rightarrow> bool" where
  "ptrs_ok c J h \<longleftrightarrow> (\<forall>j \<in> J. get h j \<noteq> 0 \<longrightarrow> blk_readable c (st h) (get h j) \<and> unat (get h j) \<in> used (st h)) \<and>
     inj_on (get h) {j \<in> J. get h j \<noteq> 0}"

definition filled :: "bool \<Rightarrow> nat \<Rightarrow> nat \<Rightarrow> buffer \<Rightarrow> nat \<Rightarrow> 'h \<Rightarrow> 'h \<Rightarrow> nat \<Rightarrow> bool" where
  "filled c off n buf B h h' j \<longleftrightarrow> get h' j \<noteq> 0 \<and> (get h j \<noteq> 0 \<longrightarrow> get h' j = get h j) \<and>
     (\<forall>y<BLOCK_SIZE. off \<le> BLOCK_SIZE * (B + j) + y \<longrightarrow> BLOCK_SIZE * (B + j) + y < off + n \<longrightarrow>
        blk_view c (st h') (get h' j) y = buf (BLOCK_SIZE * (B + j) + y - off)) \<and>
     (\<forall>y<BLOCK_SIZE. get h j \<noteq> 0 \<longrightarrow> BLOCK_SIZE * (B + j) + y < off \<longrightarrow>
        blk_view c (st h') (get h' j) y = blk_view c (st h) (get h j) y)"

text \<open>The effect of the loop over the indices \<open>J\<close>, the touched ones of which are \<open>T\<close>.\<close>

definition walked :: "bool \<Rightarrow> nat \<Rightarrow> nat \<Rightarrow> buffer \<Rightarrow> nat \<Rightarrow> nat set \<Rightarrow> 'h \<Rightarrow> 'h \<Rightarrow> bool" where
  "walked c off n buf B T h h' \<longleftrightarrow> okay h' \<and> rest h' = rest h \<and>
     io_step c (st h) (st h') ((\<lambda>j. unat (get h' j)) ` {j \<in> T. get h j = 0}) (get h' ` T) \<and>
     inj_on (get h') T \<and> (\<forall>j. j \<notin> T \<longrightarrow> get h' j = get h j) \<and> (\<forall>j \<in> T. filled c off n buf B h h' j)"

lemma walked_nothing: "okay h \<Longrightarrow> blk_inv c (st h) \<Longrightarrow> walked c off n buf B {} h h"
  by (simp add: walked_def io_step_refl)

lemma walked_Cons:
  assumes h: "okay h" "i < len" "i \<notin> T" "ptrs_ok c (insert i T) h"
    and up: "objects s1 = objects (st h)" "bp \<noteq> 0" "get h i \<noteq> 0 \<longrightarrow> bp = get h i \<and> N = {}"
      "get h i = 0 \<longrightarrow> N = {unat bp}" "io_step c (st h) s1 N {bp}"
      "\<forall>y<BLOCK_SIZE. off \<le> BLOCK_SIZE * (B + i) + y \<longrightarrow> BLOCK_SIZE * (B + i) + y < off + n \<longrightarrow>
         blk_view c s1 bp y = buf (BLOCK_SIZE * (B + i) + y - off)"
      "\<forall>y<BLOCK_SIZE. get h i \<noteq> 0 \<longrightarrow> BLOCK_SIZE * (B + i) + y < off \<longrightarrow> blk_view c s1 bp y = blk_view c (st h) (get h i) y"
    and tl: "walked c off n buf B T (upd h s1 i bp) h'"
  shows "walked c off n buf B (insert i T) h h'"
proof -
  let ?h1 = "upd h s1 i bp"
  obtain y where y: "st ?h1 = set_obj s1 ob y" using st_upd by blast
  have io1: "io_step c (st h) (st ?h1) N {bp}" using up(5) by (simp add: y)
  have v1: "blk_view c (st ?h1) = blk_view c s1" by (simp add: y blk_view_def set_obj_def fun_eq_iff)
  have g1: "get ?h1 i = bp" "j \<noteq> i \<Longrightarrow> get ?h1 j = get h j" for j
    using get_same[OF h(1,2) up(1)] get_other[OF up(1)] by simp_all
  have gT: "get ?h1 j = get h j" if "j \<in> T" for j using g1(2)[of j] that h(3) by metis
  let ?N2 = "(\<lambda>j. unat (get h' j)) ` {j \<in> T. get h j = 0}"
  have N2: "{j \<in> T. get ?h1 j = 0} = {j \<in> T. get h j = 0}" using gT by auto
  have io2: "io_step c (st ?h1) (st h') ?N2 (get h' ` T)"
    and inj2: "inj_on (get h') T" and same2: "\<forall>j. j \<notin> T \<longrightarrow> get h' j = get ?h1 j"
    and fill2: "\<forall>j \<in> T. filled c off n buf B ?h1 h' j"
    using tl by (simp_all add: walked_def N2)
  have hi: "get h' i = bp" using same2 h(3) g1(1) by simp
  have nz: "get h' j \<noteq> 0" if "j \<in> T" for j using fill2 that by (simp add: filled_def)
  have bp_used: "unat bp \<in> used (st ?h1)"
    using io1 up(3,4) h(4) by (cases "get h i = 0") (auto simp: io_step_def ptrs_ok_def)
  have old_neq: "get h j \<noteq> bp" if j: "j \<in> T" "get h j \<noteq> 0" for j
  proof (cases "get h i = 0")
    case True
    then have "unat bp \<notin> used (st h)" using up(4) io1 by (simp add: io_step_def)
    moreover have "unat (get h j) \<in> used (st h)" using h(4) j by (simp add: ptrs_ok_def)
    ultimately show ?thesis by auto
  next
    case False
    then show ?thesis using up(3) h(3,4) j unfolding ptrs_ok_def inj_on_def by auto
  qed
  have neq: "get h' j \<noteq> bp" if j: "j \<in> T" for j
  proof (cases "get h j = 0")
    case True
    then have "unat (get h' j) \<in> ?N2" using j by simp
    then have "unat (get h' j) \<notin> used (st ?h1)" using io2 unfolding io_step_def by blast
    with bp_used show ?thesis by auto
  next
    case False
    then have "get h' j = get h j" using fill2 j gT by (simp add: filled_def)
    then show ?thesis using old_neq[OF j False] by simp
  qed
  have v2: "blk_view c (st h') bp = blk_view c (st ?h1) bp"
    using io_step_view[OF io2 up(2)] neq by blast
  have "filled c off n buf B h h' i"
    unfolding filled_def hi v2 v1 using up(2,3,6,7) by blast
  moreover have "filled c off n buf B h h' j" if j: "j \<in> T" for j
  proof -
    have "get h j \<noteq> 0 \<longrightarrow> blk_view c (st ?h1) (get h j) = blk_view c (st h) (get h j)"
      using io_step_view[OF io1] old_neq[OF j] by blast
    moreover have "filled c off n buf B ?h1 h' j" using fill2 j by blast
    ultimately show ?thesis unfolding filled_def gT[OF j] by (cases "get h j = 0") auto
  qed
  moreover have "inj_on (get h') (insert i T)" using inj2 neq hi by (simp add: inj_on_insert) blast
  moreover have "io_step c (st h) (st h') ((\<lambda>j. unat (get h' j)) ` {j \<in> insert i T. get h j = 0}) (get h' ` insert i T)"
  proof -
    have "(\<lambda>j. unat (get h' j)) ` {j \<in> insert i T. get h j = 0} = N \<union> ?N2"
      using up(3,4) hi by (cases "get h i = 0") auto
    moreover have "get h' ` insert i T = {bp} \<union> get h' ` T" using hi by simp
    ultimately show ?thesis using io_step_trans[OF io1 io2] up(2) by simp
  qed
  moreover have "okay h'" "rest h' = rest h" using tl rest_upd[OF up(1)] by (simp_all add: walked_def)
  moreover have "\<forall>j. j \<notin> insert i T \<longrightarrow> get h' j = get h j" using same2 g1(2) by auto
  ultimately show ?thesis by (simp add: walked_def)
qed

text \<open>
  The loop over \<open>m\<close> pointers from index \<open>i\<close> on succeeds when there is a free block for every
  touched one, and fills exactly the touched ones.
\<close>

lemma walk_ok:
  assumes n: "0 < n" and f: "fits off n" and small: "off div BLOCK_SIZE < 2 ^ 32"
  shows "okay h \<Longrightarrow> blk_inv c (st h) \<Longrightarrow> i + m \<le> len \<Longrightarrow> locals_at off n (B + i) l \<Longrightarrow>
    ptrs_ok c {i ..< i + m} h \<Longrightarrow>
    card {j \<in> {i ..< i + m}. touched off n (B + j)} \<le> card (alloc_range - used (st h)) \<Longrightarrow>
    \<exists>h' l'. walk c (Some (page_addr p)) buf (int n) (of_nat (off div BLOCK_SIZE)) [i ..< i + m] h l = Some (h', l') \<and>
      locals_at off n (B + i + m) l' \<and> walked c off n buf B {j \<in> {i ..< i + m}. touched off n (B + j)} h h'"
proof (induction m arbitrary: i h l)
  case 0
  then show ?case by (simp add: walked_nothing)
next
  case (Suc m)
  note prems = Suc.prems
  let ?T = "\<lambda>i m. {j \<in> {i ..< i + m}. touched off n (B + j)}"
  have upt: "[i ..< i + Suc m] = i # [Suc i ..< Suc i + m]" by (rule upt_Suc_Cons)
  have set: "{i ..< i + Suc m} = insert i {Suc i ..< Suc i + m}" by auto
  have ptrs: "ptrs_ok c {Suc i ..< Suc i + m} h"
    using prems(5) unfolding ptrs_ok_def set by (auto intro: inj_on_subset)
  have idle: "\<exists>h' l'. walk c (Some (page_addr p)) buf (int n) (of_nat (off div BLOCK_SIZE)) [Suc i ..< Suc i + m] h l0 = Some (h', l') \<and>
      locals_at off n (B + i + Suc m) l' \<and> walked c off n buf B (?T i (Suc m)) h h'"
    if no: "\<not> touched off n (B + i)" and l0: "locals_at off n (Suc (B + i)) l0" for l0
  proof -
    have "?T i (Suc m) = ?T (Suc i) m" using no set by auto
    then show ?thesis
      using Suc.IH[of h "Suc i" l0] prems(1-3,6) l0 ptrs by (simp del: upt_Suc)
  qed
  show ?case
  proof (cases "B + i < off div BLOCK_SIZE")
    case True
    note skip = locals_skip[OF prems(4) True small]
    have "\<not> touched off n (B + i)" using True by (simp add: touched_def)
    then show ?thesis using idle[OF _ skip(2)] skip(1) unfolding upt by simp
  next
    case False
    then have ge: "off div BLOCK_SIZE \<le> B + i" by simp
    note reached = locals_reached[OF prems(4) ge]
    show ?thesis
    proof (cases "touched off n (B + i)")
      case no: False
      note li = locals_idle[OF prems(4) ge no n]
      obtain h' l' where h': "walk c (Some (page_addr p)) buf (int n) (of_nat (off div BLOCK_SIZE)) [Suc i ..< Suc i + m] h l = Some (h', l')"
        "locals_at off n (B + i + Suc m) l'" "walked c off n buf B (?T i (Suc m)) h h'"
        using idle[OF no li(2)] by blast
      have "update_block c (Some (page_addr p)) buf (int n) (st h) l (get h i) = Some (0, st h, l, get h i)"
        using li(1) by (simp add: update_block_def)
      then show ?thesis using h' reached unfolding upt by (simp add: upd_id)
    next
      case yes: True
      have Teq: "?T i (Suc m) = insert i (?T (Suc i) m)" using yes set by auto
      then have "card (?T i (Suc m)) = Suc (card (?T (Suc i) m))" by simp
      then have enough: "Suc (card (?T (Suc i) m)) \<le> card (alloc_range - used (st h))" using prems(6) by linarith
      then have free: "\<not> alloc_range \<subseteq> used (st h)" by (metis Diff_eq_empty_iff card.empty not_less_eq_eq zero_le)
      have old: "get h i \<noteq> 0 \<Longrightarrow> blk_readable c (st h) (get h i)" using prems(5) unfolding ptrs_ok_def set by blast
      obtain s1 l1 bp N where u: "update_block c (Some (page_addr p)) buf (int n) (st h) l (get h i) = Some (0, s1, l1, bp)"
          "locals_at off n (Suc (B + i)) l1" "objects s1 = objects (st h)" "bp \<noteq> 0"
          "get h i \<noteq> 0 \<longrightarrow> bp = get h i \<and> N = {}" "get h i = 0 \<longrightarrow> N = {unat bp}" "io_step c (st h) s1 N {bp}"
          "\<forall>y<BLOCK_SIZE. off \<le> BLOCK_SIZE * (B + i) + y \<longrightarrow> BLOCK_SIZE * (B + i) + y < off + n \<longrightarrow>
             blk_view c s1 bp y = buf (BLOCK_SIZE * (B + i) + y - off)"
          "\<forall>y<BLOCK_SIZE. get h i \<noteq> 0 \<longrightarrow> BLOCK_SIZE * (B + i) + y < off \<longrightarrow> blk_view c s1 bp y = blk_view c (st h) (get h i) y"
        using update_block_ok[OF prems(2,4) yes f n old free, of p buf] by blast
      let ?h1 = "upd h s1 i bp"
      obtain y where y: "st ?h1 = set_obj s1 ob y" using st_upd by blast
      have io1: "io_step c (st h) (st ?h1) N {bp}" using u(7) by (simp add: y)
      have "card N \<le> 1" using u(5,6) by (cases "get h i = 0") auto
      note free1 = io_step_free[OF io1 this enough]
      have g1: "get ?h1 j = get h j" if "j \<in> {Suc i ..< Suc i + m}" for j using get_other[OF u(3), of j i] that by simp
      have ptrs1: "ptrs_ok c {Suc i ..< Suc i + m} ?h1"
      proof -
        have "{j \<in> {Suc i ..< Suc i + m}. get ?h1 j \<noteq> 0} = {j \<in> {Suc i ..< Suc i + m}. get h j \<noteq> 0}" using g1 by auto
        moreover have "inj_on (get ?h1) {j \<in> {Suc i ..< Suc i + m}. get h j \<noteq> 0} =
            inj_on (get h) {j \<in> {Suc i ..< Suc i + m}. get h j \<noteq> 0}" using g1 by (intro inj_on_cong) blast
        ultimately show ?thesis
          using ptrs io_step_readable[OF io1] io_step_used[OF io1] g1 unfolding ptrs_ok_def by auto
      qed
      obtain h' l' where h': "walk c (Some (page_addr p)) buf (int n) (of_nat (off div BLOCK_SIZE)) [Suc i ..< Suc i + m] ?h1 l1 = Some (h', l')"
          "locals_at off n (B + Suc i + m) l'" "walked c off n buf B (?T (Suc i) m) ?h1 h'"
        using Suc.IH[OF okay_upd[OF prems(1) u(3)] io_step_inv[OF io1] _ _ ptrs1 free1, of l1] prems(3) u(2)
        by (auto simp del: upt_Suc)
      have "ptrs_ok c (insert i (?T (Suc i) m)) h"
        using prems(5) unfolding ptrs_ok_def set by (auto intro: inj_on_subset)
      then have "walked c off n buf B (?T i (Suc m)) h h'"
        unfolding Teq using walked_Cons[OF prems(1) _ _ _ u(3-9) h'(3)] prems(3) by simp
      then show ?thesis using h'(1,2) u(1) reached unfolding upt by simp
    qed
  qed
qed

end

text \<open>The pointers inside an object, and the pointers in the buffer of a pointer block.\<close>

definition dir_upd :: "nat \<Rightarrow> objfs_state \<Rightarrow> objfs_state \<Rightarrow> nat \<Rightarrow> u32 \<Rightarrow> objfs_state" where
  "dir_upd ob h s i bp = set_obj s ob ((objects s ob)\<lparr>obj_direct := (obj_direct (objects s ob))[i := bp]\<rparr>)"

interpretation dir: pointer_array "\<lambda>s. s" "\<lambda>s i. obj_direct (objects s ob) ! i" "dir_upd ob"
    "\<lambda>s. length (obj_direct (objects s ob)) = 4" "\<lambda>s. (objects s)(ob := (objects s ob)\<lparr>obj_direct := []\<rparr>)" 4 ob
  for ob
proof
  fix h :: objfs_state and i
  show "dir_upd ob h h i (obj_direct (objects h ob) ! i) = h" by (simp add: dir_upd_def set_obj_def)
qed (auto simp: dir_upd_def fun_eq_iff)

lemma write_direct_walk:
  "write_direct c addr buf sz start ob is s l =
     map_option (\<lambda>(h, l). (h, l)) (dir.walk ob c addr buf sz start is s l)"
  by (induction "is" arbitrary: s l) (simp_all add: dir_upd_def split: option.split)

lemma u32_byte_at: "k < 4 \<Longrightarrow> u32_byte (u32_at b j) k = b (4 * j + k)"
proof (rule bit_word_eqI)
  fix m assume k: "k < 4" and m: "m < LENGTH(8)"
  have "k = 0 \<or> k = 1 \<or> k = 2 \<or> k = 3" using k by auto
  then show "bit (u32_byte (u32_at b j) k) m = bit (b (4 * j + k)) m"
    using m by (elim disjE) (auto simp: bit_u32_byte u32_at_def bit_simps dest: bit_imp_le_length)
qed

lemma set_u32_id [simp]: "set_u32 b j (u32_at b j) = b"
proof
  fix k show "set_u32 b j (u32_at b j) k = b k"
    using u32_byte_at[of "k mod 4" b j] mult_div_mod_eq[of 4 k] by (auto simp: set_u32_def)
qed

interpretation ind: pointer_array fst "\<lambda>h. u32_at (snd h)" "\<lambda>h s i bp. (s, set_u32 (snd h) i bp)"
    "\<lambda>h. True" "\<lambda>h. objects (fst h)" 1024 ob
  for ob
proof
  fix s :: objfs_state and h :: "objfs_state \<times> buffer" and i and p :: u32
  show "\<exists>y. fst (s, set_u32 (snd h) i p) = set_obj s ob y"
    by (rule exI[of _ "objects s ob"]) (simp add: set_obj_def)
qed auto

lemma write_pointers_walk:
  "write_pointers c addr buf sz start js s l bd =
     map_option (\<lambda>((s, bd), l). (s, l, bd)) (ind.walk c addr buf sz start js (s, bd) l)"
  by (induction js arbitrary: s l bd) (simp_all split: option.split)

end
