(* ===== verification/Writing.thy ===== *)
theory Writing
  imports Contents
begin

text \<open>
  \<open>objstore_write\<close> of \<open>assignment-4/objstore.c\<close> on an object: the bytes of the caller's buffer
  become the contents of the object at the given offset, new blocks are taken from the free
  ones, the other objects keep their blocks and contents, and the invariant of the store holds
  again.
\<close>

section \<open>How the pointers of an object grow\<close>

definition own_inv :: "bool \<Rightarrow> objfs_state \<Rightarrow> nat \<Rightarrow> bool" where
  "own_inv c s ob \<longleftrightarrow>
     (\<forall>sl. slot_ok sl \<longrightarrow> ptr c s ob sl \<noteq> 0 \<longrightarrow>
        unat (ptr c s ob sl) \<in> used s \<and> blk_readable c s (ptr c s ob sl)) \<and>
     inj_on (ptr c s ob) {sl. slot_ok sl \<and> ptr c s ob sl \<noteq> 0} \<and>
     length (obj_direct (objects s ob)) = 4 \<and> length (obj_indirect (objects s ob)) = 4"

text \<open>
  \<open>grow c ob S N s s'\<close>: the step gives the slots in \<open>S\<close> that were empty blocks of \<open>N\<close>, which
  were free, writes only to blocks that slots in \<open>S\<close> point to, and keeps all other pointers.
\<close>

definition grow :: "bool \<Rightarrow> nat \<Rightarrow> slot set \<Rightarrow> nat set \<Rightarrow> objfs_state \<Rightarrow> objfs_state \<Rightarrow> bool" where
  "grow c ob S N s s' \<longleftrightarrow> own_inv c s' ob \<and>
     (\<exists>W. io_step c s s' N W \<and> (\<forall>b \<in> W. b \<noteq> 0 \<and> (\<exists>sl \<in> S. slot_ok sl \<and> b = ptr c s' ob sl))) \<and>
     (\<forall>sl. slot_ok sl \<longrightarrow> sl \<notin> S \<longrightarrow> ptr c s' ob sl = ptr c s ob sl) \<and>
     (\<forall>sl. slot_ok sl \<longrightarrow> ptr c s ob sl \<noteq> 0 \<longrightarrow> ptr c s' ob sl = ptr c s ob sl) \<and>
     (\<forall>sl. slot_ok sl \<longrightarrow> ptr c s ob sl = 0 \<longrightarrow> ptr c s' ob sl \<noteq> 0 \<longrightarrow> unat (ptr c s' ob sl) \<in> N) \<and>
     N \<subseteq> blocks_of c s' ob \<and> (\<forall>m. m \<noteq> ob \<longrightarrow> objects s' m = objects s m) \<and>
     obj_size (objects s' ob) = obj_size (objects s ob) \<and> obj_key (objects s' ob) = obj_key (objects s ob)"

lemma own_inv_inj:
  "own_inv c s ob \<Longrightarrow> slot_ok a \<Longrightarrow> slot_ok b \<Longrightarrow> ptr c s ob a \<noteq> 0 \<Longrightarrow> ptr c s ob a = ptr c s ob b \<Longrightarrow> a = b"
  unfolding own_inv_def inj_on_def by auto

lemma own_inv_used: "own_inv c s ob \<Longrightarrow> slot_ok a \<Longrightarrow> ptr c s ob a \<noteq> 0 \<Longrightarrow> unat (ptr c s ob a) \<in> used s"
  by (simp add: own_inv_def)

lemma own_inv_readable: "own_inv c s ob \<Longrightarrow> slot_ok a \<Longrightarrow> ptr c s ob a \<noteq> 0 \<Longrightarrow> blk_readable c s (ptr c s ob a)"
  by (simp add: own_inv_def)

lemma blocks_ofI: "slot_ok sl \<Longrightarrow> ptr c s ob sl \<noteq> 0 \<Longrightarrow> unat (ptr c s ob sl) \<in> blocks_of c s ob"
  unfolding blocks_of_def by blast

lemma grow_refl: "own_inv c s ob \<Longrightarrow> blk_inv c s \<Longrightarrow> grow c ob S {} s s"
  unfolding grow_def using io_step_refl by auto

lemma grow_own: "grow c ob S N s s' \<Longrightarrow> own_inv c s' ob"
  by (simp add: grow_def)

lemma grow_io: "grow c ob S N s s' \<Longrightarrow> \<exists>W. io_step c s s' N W"
  by (auto simp: grow_def)

text \<open>The blocks of slots outside \<open>S\<close> keep their contents.\<close>

lemma grow_view:
  assumes g: "grow c ob S N s s'" and sl: "slot_ok sl" "sl \<notin> S" "ptr c s ob sl \<noteq> 0"
  shows "blk_view c s' (ptr c s ob sl) = blk_view c s (ptr c s ob sl)"
proof -
  obtain W where W: "io_step c s s' N W" "\<forall>b \<in> W. b \<noteq> 0 \<and> (\<exists>sl \<in> S. slot_ok sl \<and> b = ptr c s' ob sl)"
    using g by (auto simp: grow_def)
  have same: "ptr c s' ob sl = ptr c s ob sl" using g sl by (auto simp: grow_def)
  have "ptr c s ob sl \<notin> W"
  proof
    assume "ptr c s ob sl \<in> W"
    then obtain sl' where "sl' \<in> S" "slot_ok sl'" "ptr c s ob sl = ptr c s' ob sl'" using W(2) by blast
    then have "sl = sl'" using own_inv_inj[OF grow_own[OF g] sl(1), of sl'] same sl(3) by simp
    with \<open>sl' \<in> S\<close> sl(2) show False by simp
  qed
  then show ?thesis using io_step_view[OF W(1) sl(3)] by blast
qed

lemma grow_trans:
  assumes a: "grow c ob S N s t" and b: "grow c ob S' N' t u"
  shows "grow c ob (S \<union> S') (N \<union> N') s u"
proof -
  obtain W where W: "io_step c s t N W" "\<forall>b \<in> W. b \<noteq> 0 \<and> (\<exists>sl \<in> S. slot_ok sl \<and> b = ptr c t ob sl)"
    using a by (auto simp: grow_def)
  obtain V where V: "io_step c t u N' V" "\<forall>b \<in> V. b \<noteq> 0 \<and> (\<exists>sl \<in> S'. slot_ok sl \<and> b = ptr c u ob sl)"
    using b by (auto simp: grow_def)
  have keep: "ptr c u ob sl = ptr c t ob sl" if "slot_ok sl" "ptr c t ob sl \<noteq> 0" for sl
    using b that by (simp add: grow_def)
  have "0 \<notin> W" using W(2) by blast
  then have "io_step c s u (N \<union> N') (W \<union> V)" using io_step_trans[OF W(1) V(1)] by blast
  moreover have "\<forall>b \<in> W \<union> V. b \<noteq> 0 \<and> (\<exists>sl \<in> S \<union> S'. slot_ok sl \<and> b = ptr c u ob sl)"
    using W(2) V(2) keep by (metis UnE UnI1 UnI2)
  moreover have "N \<union> N' \<subseteq> blocks_of c u ob"
  proof -
    have "blocks_of c t ob \<subseteq> blocks_of c u ob" using keep unfolding blocks_of_def by force
    then show ?thesis using a b by (auto simp: grow_def)
  qed
  moreover have "unat (ptr c u ob sl) \<in> N \<union> N'" if "slot_ok sl" "ptr c s ob sl = 0" "ptr c u ob sl \<noteq> 0" for sl
    using a b that keep[of sl] by (cases "ptr c t ob sl = 0") (auto simp: grow_def)
  ultimately show ?thesis using a b by (auto simp: grow_def)
qed

text \<open>What has to be shown of a step: the empty slots it fills get distinct new blocks.\<close>

lemma growI:
  assumes inv: "own_inv c s ob" and io: "io_step c s s' N W"
    and W: "\<forall>b \<in> W. b \<noteq> 0 \<and> (\<exists>sl \<in> S. slot_ok sl \<and> b = ptr c s' ob sl)"
    and keep: "\<And>sl. slot_ok sl \<Longrightarrow> sl \<notin> S \<or> ptr c s ob sl \<noteq> 0 \<Longrightarrow> ptr c s' ob sl = ptr c s ob sl"
    and new: "\<And>sl. slot_ok sl \<Longrightarrow> sl \<in> S \<Longrightarrow> ptr c s ob sl = 0 \<Longrightarrow> ptr c s' ob sl \<noteq> 0 \<Longrightarrow>
      unat (ptr c s' ob sl) \<in> N \<and> blk_readable c s' (ptr c s' ob sl)"
    and inj: "inj_on (ptr c s' ob) {sl \<in> S. slot_ok sl \<and> ptr c s ob sl = 0 \<and> ptr c s' ob sl \<noteq> 0}"
    and N: "N \<subseteq> blocks_of c s' ob" and rest: "\<forall>m. m \<noteq> ob \<longrightarrow> objects s' m = objects s m"
      "obj_size (objects s' ob) = obj_size (objects s ob)" "obj_key (objects s' ob) = obj_key (objects s ob)"
      "length (obj_direct (objects s' ob)) = 4" "length (obj_indirect (objects s' ob)) = 4"
  shows "grow c ob S N s s'"
proof -
  have fresh: "N \<inter> used s = {}" and u: "used s' = used s \<union> N" using io by (auto simp: io_step_def)
  have kind: "ptr c s ob sl \<noteq> 0 \<and> ptr c s' ob sl = ptr c s ob sl \<or>
      ptr c s ob sl = 0 \<and> sl \<in> S \<and> unat (ptr c s' ob sl) \<in> N \<and> blk_readable c s' (ptr c s' ob sl)"
    if "slot_ok sl" "ptr c s' ob sl \<noteq> 0" for sl
    using keep[of sl] new[of sl] that by metis
  have "a = b" if ab: "slot_ok a" "ptr c s' ob a \<noteq> 0" "slot_ok b" "ptr c s' ob b \<noteq> 0"
      "ptr c s' ob a = ptr c s' ob b" for a b
  proof -
    consider "ptr c s ob a \<noteq> 0" "ptr c s ob b \<noteq> 0" | "ptr c s ob a = 0" "ptr c s ob b = 0"
      | "ptr c s ob a \<noteq> 0" "ptr c s ob b = 0" | "ptr c s ob a = 0" "ptr c s ob b \<noteq> 0" by blast
    then show ?thesis
    proof cases
      case 1
      then show ?thesis using kind[OF ab(1,2)] kind[OF ab(3,4)] ab own_inv_inj[OF inv ab(1,3)] by simp
    next
      case 2
      then show ?thesis using kind[OF ab(1,2)] kind[OF ab(3,4)] ab inj unfolding inj_on_def by blast
    next
      case 3
      then show ?thesis using kind[OF ab(1,2)] kind[OF ab(3,4)] ab(5) own_inv_used[OF inv ab(1)] fresh by auto
    next
      case 4
      then show ?thesis using kind[OF ab(1,2)] kind[OF ab(3,4)] ab(5) own_inv_used[OF inv ab(3)] fresh by auto
    qed
  qed
  then have "inj_on (ptr c s' ob) {sl. slot_ok sl \<and> ptr c s' ob sl \<noteq> 0}" by (auto simp: inj_on_def)
  moreover have "unat (ptr c s' ob sl) \<in> used s' \<and> blk_readable c s' (ptr c s' ob sl)"
    if "slot_ok sl" "ptr c s' ob sl \<noteq> 0" for sl
    using kind[OF that] own_inv_used[OF inv that(1)] io_step_readable[OF io, of "ptr c s ob sl"]
      own_inv_readable[OF inv that(1)] u by auto
  ultimately have "own_inv c s' ob" using rest by (simp add: own_inv_def)
  moreover have "ptr c s ob sl = 0 \<longrightarrow> ptr c s' ob sl \<noteq> 0 \<longrightarrow> unat (ptr c s' ob sl) \<in> N" if "slot_ok sl" for sl
    using kind[OF that] by blast
  ultimately show ?thesis unfolding grow_def using io W keep N rest(1-3) by blast
qed

text \<open>A block that is new or belongs to a slot in \<open>S\<close> is no block of a slot outside \<open>S\<close>.\<close>

lemma other_slot_block:
  assumes inv: "own_inv c s ob" and io: "io_step c s s' N W" and sl: "slot_ok sl" "sl \<notin> S" "ptr c s ob sl \<noteq> 0"
    and W: "\<And>b. b \<in> W \<Longrightarrow> unat b \<in> N \<or> (\<exists>sl \<in> S. slot_ok sl \<and> b = ptr c s ob sl)"
  shows "blk_view c s' (ptr c s ob sl) = blk_view c s (ptr c s ob sl)"
proof -
  have "ptr c s ob sl \<notin> W"
  proof
    assume "ptr c s ob sl \<in> W"
    then consider "unat (ptr c s ob sl) \<in> N" | sl' where "sl' \<in> S" "slot_ok sl'" "ptr c s ob sl = ptr c s ob sl'"
      using W by blast
    then show False
      using own_inv_used[OF inv sl(1,3)] io own_inv_inj[OF inv sl(1) _ sl(3)] sl(2)
      by cases (auto simp: io_step_def)
  qed
  then show ?thesis using io_step_view[OF io sl(3)] by blast
qed

section \<open>The loops of \<open>objstore_write\<close>\<close>

definition blk_written ::
    "bool \<Rightarrow> nat \<Rightarrow> nat \<Rightarrow> buffer \<Rightarrow> nat \<Rightarrow> objfs_state \<Rightarrow> objfs_state \<Rightarrow> nat \<Rightarrow> bool" where
  "blk_written c off n buf ob s s' k \<longleftrightarrow> ptr c s' ob (slot_of k) \<noteq> 0 \<and>
     (\<forall>y<BLOCK_SIZE. off \<le> BLOCK_SIZE * k + y \<longrightarrow> BLOCK_SIZE * k + y < off + n \<longrightarrow>
        blk_view c s' (ptr c s' ob (slot_of k)) y = buf (BLOCK_SIZE * k + y - off)) \<and>
     (\<forall>y<BLOCK_SIZE. ptr c s ob (slot_of k) \<noteq> 0 \<longrightarrow> BLOCK_SIZE * k + y < off \<longrightarrow>
        blk_view c s' (ptr c s' ob (slot_of k)) y = blk_view c s (ptr c s ob (slot_of k)) y)"

lemma direct_grow:
  assumes inv: "own_inv c s ob" and T: "T \<subseteq> {..<4}" and w: "dir.walked ob c off n buf 0 T s s'"
  defines "N \<equiv> (\<lambda>i. unat (obj_direct (objects s' ob) ! i)) ` {i \<in> T. obj_direct (objects s ob) ! i = 0}"
  shows "grow c ob (Dir ` T) N s s' \<and> (\<forall>k \<in> T. blk_written c off n buf ob s s' k)"
proof -
  let ?W = "(\<lambda>i. obj_direct (objects s' ob) ! i) ` T"
  have io: "io_step c s s' N ?W" and len: "length (obj_direct (objects s' ob)) = 4"
    and rest: "(objects s')(ob := (objects s' ob)\<lparr>obj_direct := []\<rparr>) = (objects s)(ob := (objects s ob)\<lparr>obj_direct := []\<rparr>)"
    and inj: "inj_on (\<lambda>i. obj_direct (objects s' ob) ! i) T"
    and out: "\<And>i. i \<notin> T \<Longrightarrow> obj_direct (objects s' ob) ! i = obj_direct (objects s ob) ! i"
    and fill: "\<And>i. i \<in> T \<Longrightarrow> dir.filled ob c off n buf 0 s s' i"
    using w by (simp_all add: dir.walked_def N_def)
  have others: "\<forall>m. m \<noteq> ob \<longrightarrow> objects s' m = objects s m" using rest by (metis fun_upd_other)
  have "(objects s' ob)\<lparr>obj_direct := []\<rparr> = (objects s ob)\<lparr>obj_direct := []\<rparr>" using rest by (metis fun_upd_same)
  then have o: "obj_size (objects s' ob) = obj_size (objects s ob)" "obj_key (objects s' ob) = obj_key (objects s ob)"
      "obj_indirect (objects s' ob) = obj_indirect (objects s ob)"
    by (metis obj.select_convs obj.surjective obj.update_convs(3))+
  have nz: "obj_direct (objects s' ob) ! i \<noteq> 0" and old: "obj_direct (objects s ob) ! i \<noteq> 0 \<Longrightarrow>
      obj_direct (objects s' ob) ! i = obj_direct (objects s ob) ! i" if "i \<in> T" for i
    using fill[OF that] by (simp_all add: dir.filled_def)
  have W: "unat b \<in> N \<or> (\<exists>sl \<in> Dir ` T. slot_ok sl \<and> b = ptr c s ob sl)" if b: "b \<in> ?W" for b
  proof -
    obtain i where i: "i \<in> T" "b = obj_direct (objects s' ob) ! i" using b by blast
    show ?thesis
    proof (cases "obj_direct (objects s ob) ! i = 0")
      case True
      then have "unat b \<in> N" using i unfolding N_def by blast
      then show ?thesis by blast
    next
      case False
      then have "b = ptr c s ob (Dir i)" using old[OF i(1)] i(2) by simp
      then show ?thesis using i(1) T by force
    qed
  qed
  have keep: "ptr c s' ob sl = ptr c s ob sl" if "slot_ok sl" "sl \<notin> Dir ` T \<or> ptr c s ob sl \<noteq> 0" for sl
  proof (cases sl)
    case (Dir i)
    then show ?thesis using that out[of i] old[of i] by (cases "i \<in> T") auto
  next
    case (Ind i)
    then show ?thesis by (simp add: o)
  next
    case (Sub i j)
    have "blk_view c s' (ptr c s ob (Ind i)) = blk_view c s (ptr c s ob (Ind i))" if "ptr c s ob (Ind i) \<noteq> 0"
      by (rule other_slot_block[OF inv io _ _ that W]) (use Sub \<open>slot_ok sl\<close> in auto)
    then show ?thesis by (simp add: Sub o)
  qed
  have "grow c ob (Dir ` T) N s s'"
  proof (rule growI[OF inv io])
    show "\<forall>b \<in> ?W. b \<noteq> 0 \<and> (\<exists>sl \<in> Dir ` T. slot_ok sl \<and> b = ptr c s' ob sl)" using nz T by auto
    show "inj_on (ptr c s' ob) {sl \<in> Dir ` T. slot_ok sl \<and> ptr c s ob sl = 0 \<and> ptr c s' ob sl \<noteq> 0}"
      using inj by (auto simp: inj_on_def)
    show "N \<subseteq> blocks_of c s' ob"
    proof
      fix b assume "b \<in> N"
      then obtain i where "i \<in> T" "b = unat (ptr c s' ob (Dir i))" unfolding N_def by auto
      then show "b \<in> blocks_of c s' ob" using blocks_ofI[of "Dir i"] nz T by auto
    qed
    fix sl assume sl: "slot_ok sl" "sl \<in> Dir ` T" "ptr c s ob sl = 0"
    then show "unat (ptr c s' ob sl) \<in> N \<and> blk_readable c s' (ptr c s' ob sl)"
      using io unfolding io_step_def N_def by auto
  qed (use keep others o len inv in \<open>simp_all add: own_inv_def\<close>)
  moreover have "blk_written c off n buf ob s s' k" if "k \<in> T" for k
  proof -
    have "slot_of k = Dir k" using that T by (auto simp: slot_of.simps)
    then show ?thesis using fill[OF that] unfolding dir.filled_def blk_written_def
      by (cases "obj_direct (objects s ob) ! k = 0") auto
  qed
  ultimately show ?thesis by blast
qed

text \<open>
  Fetching or making the pointer block: afterwards its number is in the object and the buffer
  holds the pointers.
\<close>

lemma pointer_block_ready:
  assumes inv: "own_inv c s ob" and bi: "blk_inv c s" and i: "i < 4" and free: "\<not> alloc_range \<subseteq> used s"
  defines "ip \<equiv> obj_indirect (objects s ob) ! i"
  shows "\<exists>s2 bd ip' N. (if ip = 0 then
            (case alloc_block s of (bp, s1) \<Rightarrow>
               (0, set_obj s1 ob ((objects s1 ob)\<lparr>obj_indirect := (obj_indirect (objects s1 ob))[i := bp]\<rparr>), zero_buf))
          else read_ch_blk c s ip (page_addr p) zero_buf) = (0, s2, bd) \<and>
    ip' \<noteq> 0 \<and> (ip \<noteq> 0 \<longrightarrow> ip' = ip \<and> N = {}) \<and> (ip = 0 \<longrightarrow> N = {unat ip'}) \<and> io_step c s s2 N {} \<and>
    objects s2 = (objects s)(ob := (objects s ob)\<lparr>obj_indirect := (obj_indirect (objects s ob))[i := ip']\<rparr>) \<and>
    (\<forall>j. u32_at bd j = (if ip = 0 then 0 else u32_at (blk_view c s ip) j))"
proof (cases "ip = 0")
  case True
  obtain b s1 where "alloc_block s = (b, s1)" "b \<noteq> 0" "io_step c s s1 {unat b} {}" "objects s1 = objects s"
    using alloc_block_step[OF bi free] by blast
  with True show ?thesis by (simp, intro exI[of _ b]) simp
next
  case False
  have "blk_readable c s ip" using own_inv_readable[OF inv, of "Ind i"] i False by (simp add: ip_def)
  then obtain s2 where s2: "read_ch_blk c s ip (page_addr p) zero_buf = (0, s2, blk_view c s ip)" "same_blocks c s s2"
      "objects s2 = objects s" "blk_bmp s2 = blk_bmp s"
    using read_ch_blk_same[OF bi False] by blast
  have "io_step c s s2 {} {}" using s2(2,4) by (simp add: io_step_def same_blocks_def used_def)
  moreover have "objects s2 = (objects s)(ob := (objects s ob)\<lparr>obj_indirect := (obj_indirect (objects s ob))[i := ip]\<rparr>)"
    by (simp add: s2(3) ip_def)
  ultimately show ?thesis using False s2(1)
    by (intro exI[of _ s2] exI[of _ "blk_view c s ip"] exI[of _ ip] exI[of _ "{}"]) simp
qed

abbreviation (input) base :: "nat \<Rightarrow> nat" where
  "base i \<equiv> 4 + 1024 * i"

definition ind_slots :: "nat \<Rightarrow> nat \<Rightarrow> nat \<Rightarrow> slot set" where
  "ind_slots off n i = insert (Ind i) (Sub i ` {j \<in> {0 ..< 1024}. touched off n (base i + j)})"

lemma slot_of_base: "i < 4 \<Longrightarrow> j < 1024 \<Longrightarrow> slot_of (base i + j) = Sub i j"
  by (simp add: slot_of.simps)

text \<open>The parts of the effect of one round on the pointer block \<open>ip\<close> put together.\<close>

lemma indirect_grow:
  assumes inv: "own_inv c s ob" and i: "i < 4"
    and ip: "ip' \<noteq> 0" "obj_indirect (objects s ob) ! i \<noteq> 0 \<longrightarrow> ip' = obj_indirect (objects s ob) ! i \<and> N1 = {}"
      "obj_indirect (objects s ob) ! i = 0 \<longrightarrow> N1 = {unat ip'}" and io1: "io_step c s s2 N1 {}"
    and objs: "objects s2 = (objects s)(ob := (objects s ob)\<lparr>obj_indirect := (obj_indirect (objects s ob))[i := ip']\<rparr>)"
    and bd: "\<forall>j. u32_at bd j = ptr c s ob (Sub i j)"
    and w: "ind.walked c off n buf (base i) {j \<in> {0 ..< 1024}. touched off n (base i + j)} (s2, bd) (s3, bd3)"
    and wr: "objects s4 = objects s3" "io_step c s3 s4 {} {ip'}" "blk_view c s4 ip' = bd3"
  defines "T \<equiv> {j \<in> {0 ..< 1024}. touched off n (base i + j)}"
  shows "\<exists>N. grow c ob (ind_slots off n i) N s s4 \<and> card N \<le> Suc (card T) \<and> ptr c s4 ob (Ind i) \<noteq> 0 \<and>
    (\<forall>k. base i \<le> k \<longrightarrow> k < base (Suc i) \<longrightarrow> touched off n k \<longrightarrow> blk_written c off n buf ob s s4 k)"
proof -
  let ?S = "ind_slots off n i"
  define N2 where "N2 = (\<lambda>j. unat (u32_at bd3 j)) ` {j \<in> T. u32_at bd j = 0}"
  have io2: "io_step c s2 s3 N2 (u32_at bd3 ` T)" and objs3: "objects s3 = objects s2"
    and inj: "inj_on (u32_at bd3) T" and out: "\<And>j. j \<notin> T \<Longrightarrow> u32_at bd3 j = u32_at bd j"
    and fill: "\<And>j. j \<in> T \<Longrightarrow> ind.filled c off n buf (base i) (s2, bd) (s3, bd3) j"
    using w by (simp_all add: ind.walked_def N2_def T_def)
  have nz: "u32_at bd3 j \<noteq> 0" and old: "u32_at bd j \<noteq> 0 \<Longrightarrow> u32_at bd3 j = u32_at bd j" if "j \<in> T" for j
    using fill[OF that] by (simp_all add: ind.filled_def)
  have z: "0 \<notin> u32_at bd3 ` T" using nz by force
  have io: "io_step c s s4 (N1 \<union> N2) (u32_at bd3 ` T \<union> {ip'})"
    using io_step_trans[OF io_step_trans[OF io1 io2] wr(2)] z by simp
  have T: "j < 1024" if "j \<in> T" for j using that by (simp add: T_def)
  have len: "length (obj_indirect (objects s ob)) = 4" "length (obj_direct (objects s ob)) = 4"
    using inv by (simp_all add: own_inv_def)
  have p4: "ptr c s4 ob (Ind i) = ip'" "\<And>j. ptr c s4 ob (Sub i j) = u32_at bd3 j" "\<And>k. ptr c s4 ob (Dir k) = ptr c s ob (Dir k)"
      "\<And>k. k \<noteq> i \<Longrightarrow> ptr c s4 ob (Ind k) = ptr c s ob (Ind k)"
    using i len ip(1) by (simp_all add: wr objs3 objs)
  have subS: "Sub i j \<in> ?S" if "j \<in> T" for j using that by (simp add: ind_slots_def T_def)
  have indS: "Ind i \<in> ?S" "slot_ok (Ind i)" using i by (simp_all add: ind_slots_def)
  have W: "unat b \<in> N1 \<union> N2 \<or> (\<exists>sl \<in> ?S. slot_ok sl \<and> b = ptr c s ob sl)" if b: "b \<in> u32_at bd3 ` T \<union> {ip'}" for b
  proof (cases "b = ip'")
    case True
    then show ?thesis using ip(2,3) indS by (cases "obj_indirect (objects s ob) ! i = 0") force+
  next
    case False
    then obtain j where j: "j \<in> T" "b = u32_at bd3 j" using b by blast
    show ?thesis
    proof (cases "u32_at bd j = 0")
      case True
      then show ?thesis using j unfolding N2_def by blast
    next
      case False
      then have "b = ptr c s ob (Sub i j)" using old[OF j(1)] j(2) bd by simp
      moreover have "slot_ok (Sub i j)" using i T[OF j(1)] by simp
      ultimately show ?thesis using subS[OF j(1)] by blast
    qed
  qed
  have keep: "ptr c s4 ob sl = ptr c s ob sl" if ok: "slot_ok sl" and sl: "sl \<notin> ?S \<or> ptr c s ob sl \<noteq> 0" for sl
  proof (cases sl)
    case (Dir k)
    then show ?thesis using p4(3) by simp
  next
    case (Ind k)
    then show ?thesis using p4(1,4) ip(2) sl indS(1) by (cases "k = i") auto
  next
    case (Sub k j)
    show ?thesis
    proof (cases "k = i")
      case True
      then show ?thesis using Sub p4(2)[of j] out[of j] old[of j] bd sl subS[of j] by (cases "j \<in> T") auto
    next
      case False
      have "blk_view c s4 (ptr c s ob (Ind k)) = blk_view c s (ptr c s ob (Ind k))" if "ptr c s ob (Ind k) \<noteq> 0"
        by (rule other_slot_block[OF inv io _ _ that W]) (use Sub ok False in \<open>auto simp: ind_slots_def\<close>)
      then show ?thesis using p4(4)[OF False] by (simp add: Sub)
    qed
  qed
  have new: "unat (ptr c s4 ob sl) \<in> N1 \<union> N2 \<and> ptr c s4 ob sl \<in> u32_at bd3 ` T \<union> {ip'}"
    if "sl \<in> ?S" "ptr c s ob sl = 0" for sl
    using that p4(1,2) ip(3) bd unfolding ind_slots_def T_def[symmetric] N2_def by auto
  have grow: "grow c ob ?S (N1 \<union> N2) s s4"
  proof (rule growI[OF inv io])
    show "\<forall>b \<in> u32_at bd3 ` T \<union> {ip'}. b \<noteq> 0 \<and> (\<exists>sl \<in> ?S. slot_ok sl \<and> b = ptr c s4 ob sl)"
    proof
      fix b assume "b \<in> u32_at bd3 ` T \<union> {ip'}"
      then consider "b = ip'" | j where "j \<in> T" "b = u32_at bd3 j" by blast
      then show "b \<noteq> 0 \<and> (\<exists>sl \<in> ?S. slot_ok sl \<and> b = ptr c s4 ob sl)"
      proof cases
        case 1
        then show ?thesis using ip(1) p4(1) indS by metis
      next
        case 2
        moreover have "slot_ok (Sub i j)" using i T[OF 2(1)] by simp
        ultimately show ?thesis using nz p4(2) subS by metis
      qed
    qed
    have neq: "u32_at bd3 j \<noteq> ip'" if "j \<in> T" "u32_at bd j = 0" "obj_indirect (objects s ob) ! i = 0" for j
    proof -
      have "unat (u32_at bd3 j) \<in> N2" using that by (simp add: N2_def)
      then have "unat (u32_at bd3 j) \<notin> used s2" using io2 by (auto simp: io_step_def)
      moreover have "unat ip' \<in> used s2" using io_step_used[OF io1] ip(3) that(3) by simp
      ultimately show ?thesis by auto
    qed
    show "inj_on (ptr c s4 ob) {sl \<in> ?S. slot_ok sl \<and> ptr c s ob sl = 0 \<and> ptr c s4 ob sl \<noteq> 0}" (is "inj_on _ ?E")
    proof (rule inj_onI)
      fix a b assume ab: "a \<in> ?E" "b \<in> ?E" and eq: "ptr c s4 ob a = ptr c s4 ob b"
      have cs: "x = Ind i \<and> obj_indirect (objects s ob) ! i = 0 \<or> (\<exists>j \<in> T. x = Sub i j \<and> u32_at bd j = 0)"
        if "x \<in> ?E" for x
        using that bd[rule_format, symmetric] unfolding ind_slots_def T_def[symmetric] by (auto simp del: ptr.simps(3))
      show "a = b"
        using cs[OF ab(1)] cs[OF ab(2)] eq neq inj_onD[OF inj] by (elim disjE bexE conjE) (simp_all only: p4, metis+)
    qed
    show "N1 \<union> N2 \<subseteq> blocks_of c s4 ob"
    proof
      fix b assume "b \<in> N1 \<union> N2"
      then consider "b = unat (ptr c s4 ob (Ind i))" | j where "j \<in> T" "b = unat (ptr c s4 ob (Sub i j))"
        using ip(2,3) p4(1,2) by (cases "obj_indirect (objects s ob) ! i = 0") (auto simp: N2_def)
      then show "b \<in> blocks_of c s4 ob"
        using blocks_ofI[of "Ind i" c s4 ob] blocks_ofI[of "Sub i _" c s4 ob] p4(1,2) nz T i ip(1) by cases auto
    qed
    fix sl assume "slot_ok sl" "sl \<in> ?S" "ptr c s ob sl = 0"
    then show "unat (ptr c s4 ob sl) \<in> N1 \<union> N2 \<and> blk_readable c s4 (ptr c s4 ob sl)"
      using new[of sl] io unfolding io_step_def by blast
  qed (use keep len wr(1) objs3 objs in simp_all)
  have "blk_written c off n buf ob s s4 k" if k: "base i \<le> k" "k < base (Suc i)" "touched off n k" for k
  proof -
    define j where "j = k - base i"
    have j: "k = base i + j" "j < 1024" using k by (simp_all add: j_def)
    then have jT: "j \<in> T" using k by (simp add: T_def)
    have sl: "slot_of k = Sub i j" using slot_of_base[OF i j(2)] j(1) by simp
    have "u32_at bd3 j \<noteq> ip'"
      using own_inv_inj[OF grow_own[OF grow], of "Sub i j" "Ind i"] i j(2) nz[OF jT] p4(1,2) by auto
    then have v4: "blk_view c s4 (u32_at bd3 j) = blk_view c s3 (u32_at bd3 j)"
      using io_step_view[OF wr(2) nz[OF jT]] by simp
    have v2: "blk_view c s2 (u32_at bd j) = blk_view c s (u32_at bd j)" if "u32_at bd j \<noteq> 0"
      using io_step_view[OF io1 that] by simp
    have bdj: "ptr c s ob (Sub i j) = u32_at bd j" using bd by metis
    note fj = fill[OF jT, unfolded ind.filled_def j(1)[symmetric] fst_conv snd_conv]
    have "blk_view c s3 (u32_at bd3 j) y = blk_view c s (u32_at bd j) y"
      if y: "y < BLOCK_SIZE" "u32_at bd j \<noteq> 0" "BLOCK_SIZE * k + y < off" for y
    proof -
      have "blk_view c s3 (u32_at bd3 j) y = blk_view c s2 (u32_at bd j) y" using fj y by blast
      then show ?thesis using v2[OF y(2)] by simp
    qed
    moreover note fj
    ultimately show ?thesis unfolding blk_written_def sl p4(2) v4 bdj by blast
  qed
  moreover have "card (N1 \<union> N2) \<le> Suc (card T)"
  proof -
    have "finite T" by (simp add: T_def)
    moreover have "N2 \<subseteq> (\<lambda>j. unat (u32_at bd3 j)) ` T" unfolding N2_def by (rule image_mono) (rule Collect_restrict)
    ultimately have "card N2 \<le> card T" by (rule surj_card_le)
    moreover have "card N1 \<le> 1" using ip(2,3) by (cases "obj_indirect (objects s ob) ! i = 0") auto
    ultimately show ?thesis using card_Un_le[of N1 N2] by linarith
  qed
  ultimately show ?thesis using grow p4(1) ip(1) by metis
qed

section \<open>The whole write\<close>

lemma slot_of_ok: "k < 4100 \<Longrightarrow> slot_ok (slot_of k)"
  by (auto simp: slot_of.simps)

lemma slot_of_inj: "slot_of k = slot_of k' \<Longrightarrow> k = k'"
proof -
  assume "slot_of k = slot_of k'"
  then have "k < 4 \<and> k' < 4 \<and> k = k' \<or> \<not> k < 4 \<and> \<not> k' < 4 \<and>
      (k - 4) div 1024 = (k' - 4) div 1024 \<and> (k - 4) mod 1024 = (k' - 4) mod 1024"
    by (auto simp: slot_of.simps split: if_splits)
  moreover have "k - 4 = k' - 4" if "(k - 4) div 1024 = (k' - 4) div 1024" "(k - 4) mod 1024 = (k' - 4) mod 1024"
    using that by (metis mult_div_mod_eq)
  ultimately show "k = k'" by auto
qed

lemma slot_of_not_Ind [simp]: "slot_of k \<noteq> Ind i"
  by (simp add: slot_of.simps)

definition slots_between :: "nat \<Rightarrow> nat \<Rightarrow> nat \<Rightarrow> nat \<Rightarrow> slot set" where
  "slots_between off n K K' =
     slot_of ` {k. K \<le> k \<and> k < K' \<and> touched off n k} \<union> Ind ` {i. K \<le> base i \<and> base i < K'}"

definition wrote_upto ::
    "bool \<Rightarrow> nat \<Rightarrow> nat \<Rightarrow> buffer \<Rightarrow> nat \<Rightarrow> nat \<Rightarrow> nat set \<Rightarrow> objfs_state \<Rightarrow> objfs_state \<Rightarrow> bool" where
  "wrote_upto c off n buf ob K N s s' \<longleftrightarrow> grow c ob (slots_between off n 0 K) N s s' \<and>
     (\<forall>k<K. touched off n k \<longrightarrow> blk_written c off n buf ob s s' k) \<and>
     (\<forall>i<4. base i < K \<longrightarrow> BLOCK_SIZE * base i < off + n \<longrightarrow> ptr c s' ob (Ind i) \<noteq> 0)"

lemma grow_mono: "grow c ob S N s s' \<Longrightarrow> S \<subseteq> S' \<Longrightarrow> grow c ob S' N s s'"
proof -
  assume g: "grow c ob S N s s'" and sub: "S \<subseteq> S'"
  obtain W where W: "io_step c s s' N W" "\<forall>b \<in> W. b \<noteq> 0 \<and> (\<exists>sl \<in> S. slot_ok sl \<and> b = ptr c s' ob sl)"
    using g by (auto simp: grow_def)
  have "\<forall>b \<in> W. b \<noteq> 0 \<and> (\<exists>sl \<in> S'. slot_ok sl \<and> b = ptr c s' ob sl)" using W(2) sub by blast
  moreover have "\<forall>sl. slot_ok sl \<longrightarrow> sl \<notin> S' \<longrightarrow> ptr c s' ob sl = ptr c s ob sl"
    using g sub by (auto simp: grow_def)
  ultimately show ?thesis using g W(1) by (auto simp: grow_def)
qed

lemma slots_between_Un: "K \<le> K' \<Longrightarrow> slots_between off n 0 K \<union> slots_between off n K K' \<subseteq> slots_between off n 0 K'"
  by (auto simp: slots_between_def)

lemma slot_of_between [simp]: "slot_of k \<in> slots_between off n K K' \<longleftrightarrow> K \<le> k \<and> k < K' \<and> touched off n k"
  using slot_of_inj by (auto simp: slots_between_def dest: sym)

lemma wrote_upto_step:
  assumes a: "wrote_upto c off n buf ob K N s t" and b: "grow c ob (slots_between off n K K') N' t u"
    and w: "\<forall>k. K \<le> k \<longrightarrow> k < K' \<longrightarrow> touched off n k \<longrightarrow> blk_written c off n buf ob t u k"
    and ind: "\<forall>i<4. K \<le> base i \<longrightarrow> base i < K' \<longrightarrow> ptr c u ob (Ind i) \<noteq> 0"
    and K: "K \<le> K'" "K' \<le> 4100"
  shows "wrote_upto c off n buf ob K' (N \<union> N') s u"
proof -
  have g: "grow c ob (slots_between off n 0 K) N s t" using a by (simp add: wrote_upto_def)
  have "blk_written c off n buf ob s u k" if k: "k < K'" "touched off n k" for k
  proof (cases "k < K")
    case True
    have bw: "blk_written c off n buf ob s t k" using a True k by (simp add: wrote_upto_def)
    then have nz: "ptr c t ob (slot_of k) \<noteq> 0" by (simp add: blk_written_def)
    have ok: "slot_ok (slot_of k)" "slot_of k \<notin> slots_between off n K K'"
      using k K True by (simp_all add: slot_of_ok)
    have "ptr c u ob (slot_of k) = ptr c t ob (slot_of k)" using b ok by (simp add: grow_def)
    then show ?thesis using bw grow_view[OF b ok nz] by (simp add: blk_written_def)
  next
    case False
    then have bw: "blk_written c off n buf ob t u k" using w k by simp
    have ok: "slot_ok (slot_of k)" "slot_of k \<notin> slots_between off n 0 K"
      using k K False by (simp_all add: slot_of_ok)
    have p: "ptr c t ob (slot_of k) = ptr c s ob (slot_of k)" using g ok by (simp add: grow_def)
    show ?thesis using bw grow_view[OF g ok] unfolding blk_written_def p by simp
  qed
  moreover have "ptr c u ob (Ind i) \<noteq> 0" if i: "i < 4" "base i < K'" "BLOCK_SIZE * base i < off + n" for i
  proof (cases "base i < K")
    case True
    then have "ptr c t ob (Ind i) \<noteq> 0" using a i by (simp add: wrote_upto_def)
    moreover have "slot_ok (Ind i)" using i(1) by simp
    ultimately show ?thesis using b unfolding grow_def by metis
  next
    case False
    then show ?thesis using ind i by simp
  qed
  ultimately show ?thesis
    using grow_mono[OF grow_trans[OF g b] slots_between_Un[OF K(1)]] by (simp add: wrote_upto_def)
qed

definition need :: "nat \<Rightarrow> nat \<Rightarrow> nat \<Rightarrow> nat" where
  "need off n K = card {k. K \<le> k \<and> k < 4100 \<and> touched off n k}"

definition nfree :: "objfs_state \<Rightarrow> nat" where
  "nfree s = card (alloc_range - used s)"

lemma need_split:
  assumes "K' = K + m" "K' \<le> 4100"
  shows "need off n K = card {j \<in> {0 ..< m}. touched off n (K + j)} + need off n K'"
proof -
  let ?A = "(\<lambda>j. K + j) ` {j \<in> {0 ..< m}. touched off n (K + j)}"
  let ?B = "{k. K' \<le> k \<and> k < 4100 \<and> touched off n k}"
  have "{k. K \<le> k \<and> k < 4100 \<and> touched off n k} = ?A \<union> ?B"
  proof (intro equalityI subsetI)
    fix k assume k: "k \<in> {k. K \<le> k \<and> k < 4100 \<and> touched off n k}"
    then have "k = K + (k - K)" by simp
    with k assms(1) show "k \<in> ?A \<union> ?B" by (cases "k < K'") auto
  qed (use assms in auto)
  moreover have "?A \<inter> ?B = {}" using assms by auto
  moreover have "finite ?A" by simp
  moreover have "finite ?B" by (rule finite_subset[of _ "{..<4100}"]) auto
  ultimately show ?thesis by (simp add: need_def card_Un_disjoint card_image)
qed

lemma grow_nfree:
  assumes "grow c ob S N s t"
  shows "nfree s - card N \<le> nfree t"
proof -
  obtain W where W: "io_step c s t N W" using grow_io[OF assms] by blast
  have "alloc_range - used t = (alloc_range - used s) - N" using W by (auto simp: io_step_def)
  moreover have "finite N" using W bmp.finite_avail by (auto simp: io_step_def intro: finite_subset)
  ultimately show ?thesis by (simp add: nfree_def diff_card_le_card_Diff)
qed

lemma nfree_pos: "Suc m \<le> nfree s \<Longrightarrow> \<not> alloc_range \<subseteq> used s"
  unfolding nfree_def by (metis Diff_eq_empty_iff card.empty not_less_eq_eq zero_le)

lemma ind_slots_between: "i < 4 \<Longrightarrow> ind_slots off n i \<subseteq> slots_between off n (base i) (base (Suc i))"
proof -
  assume i: "i < 4"
  have "Sub i j \<in> slots_between off n (base i) (base (Suc i))" if "j < 1024" "touched off n (base i + j)" for j
    using slot_of_between[of "base i + j" off n "base i" "base (Suc i)"] slot_of_base[OF i that(1)] that by simp
  moreover have "Ind i \<in> slots_between off n (base i) (base (Suc i))" by (simp add: slots_between_def)
  ultimately show ?thesis by (auto simp: ind_slots_def)
qed

text \<open>One round of the loop over the pointer blocks.\<close>

lemma write_indirect_at_ok:
  assumes n: "0 < n" and f: "fits off n" and small: "off div BLOCK_SIZE < 2 ^ 32"
    and inv: "own_inv c s ob" and bi: "blk_inv c s" and i: "i < 4" and l: "locals_at off n (base i) l"
    and mem: "mmap_page s BLOCK_SIZE \<noteq> None" and room: "need off n (base i) + Suc m \<le> nfree s"
  shows "\<exists>s' l' N. write_indirect_at c (Some (page_addr p)) buf (int n) (of_nat (off div BLOCK_SIZE)) ob i s l = Some (Inr (s', l')) \<and>
    locals_at off n (base (Suc i)) l' \<and> grow c ob (slots_between off n (base i) (base (Suc i))) N s s' \<and>
    need off n (base (Suc i)) + m \<le> nfree s' \<and> ptr c s' ob (Ind i) \<noteq> 0 \<and>
    (\<forall>k. base i \<le> k \<longrightarrow> k < base (Suc i) \<longrightarrow> touched off n k \<longrightarrow> blk_written c off n buf ob s s' k)"
proof -
  let ?T = "{j \<in> {0 ..< 1024}. touched off n (base i + j)}"
  let ?ip = "obj_indirect (objects s ob) ! i"
  obtain q where q: "mmap_page s BLOCK_SIZE = Some q" using mem by auto
  have free: "\<not> alloc_range \<subseteq> used s" using nfree_pos room by (metis add_Suc_right)
  have split: "need off n (base i) = card ?T + need off n (base (Suc i))"
    by (rule need_split) (use i in auto)
  obtain s2 bd ip' N1 where s2: "(if ?ip = 0 then
            (case alloc_block s of (bp, s1) \<Rightarrow>
               (0, set_obj s1 ob ((objects s1 ob)\<lparr>obj_indirect := (obj_indirect (objects s1 ob))[i := bp]\<rparr>), zero_buf))
          else read_ch_blk c s ?ip (page_addr q) zero_buf) = (0, s2, bd)"
      "ip' \<noteq> 0" "?ip \<noteq> 0 \<longrightarrow> ip' = ?ip \<and> N1 = {}" "?ip = 0 \<longrightarrow> N1 = {unat ip'}" "io_step c s s2 N1 {}"
      "objects s2 = (objects s)(ob := (objects s ob)\<lparr>obj_indirect := (obj_indirect (objects s ob))[i := ip']\<rparr>)"
      "\<forall>j. u32_at bd j = (if ?ip = 0 then 0 else u32_at (blk_view c s ?ip) j)"
    using pointer_block_ready[OF inv bi i free, of q] by blast
  have bd: "\<forall>j. u32_at bd j = ptr c s ob (Sub i j)" using s2(7) by simp
  have "card N1 \<le> 1" using s2(3,4) by (cases "?ip = 0") auto
  then have room2: "card ?T \<le> card (alloc_range - used s2)"
    using io_step_free[OF s2(5)] room split unfolding nfree_def by simp
  have ptrs: "ind.ptrs_ok c {0 ..< 0 + 1024} (s2, bd)"
  proof -
    have "blk_readable c s2 (u32_at bd j) \<and> unat (u32_at bd j) \<in> used s2" if "j < 1024" "u32_at bd j \<noteq> 0" for j
      using own_inv_used[OF inv, of "Sub i j"] own_inv_readable[OF inv, of "Sub i j"] i that bd[rule_format, of j]
        io_step_readable[OF s2(5)] io_step_used[OF s2(5)] by (simp del: ptr.simps)
    moreover have "j = k" if "j < 1024" "k < 1024" "u32_at bd j \<noteq> 0" "u32_at bd j = u32_at bd k" for j k
      using own_inv_inj[OF inv, of "Sub i j" "Sub i k"] i that bd by (simp del: ptr.simps)
    ultimately show ?thesis unfolding ind.ptrs_ok_def inj_on_def by auto
  qed
  obtain s3 bd3 l3 where w: "ind.walk c (Some (page_addr p)) buf (int n) (of_nat (off div BLOCK_SIZE)) [0 ..< 0 + 1024] (s2, bd) l = Some ((s3, bd3), l3)"
      "locals_at off n (base i + 0 + 1024) l3" "ind.walked c off n buf (base i) ?T (s2, bd) (s3, bd3)"
    using ind.walk_ok[OF n f small _ _ _ _ ptrs, of "base i" l p buf] io_step_inv[OF s2(5)] l room2
    unfolding add_0 add_0_right by (auto simp del: upt_conv_Cons)
  have bi3: "blk_inv c s3" using w(3) by (auto simp: ind.walked_def io_step_def)
  obtain s4 where s4: "write_ch_blk c s3 ip' (page_addr q) bd3 = (0, s4)" "objects s4 = objects s3"
      "io_step c s3 s4 {} {ip'}" "blk_view c s4 ip' = bd3"
    using write_step[OF bi3 s2(2)] by blast
  have o3: "obj_indirect (objects s3 ob) ! i = ip'"
    using w(3) s2(6) inv i by (simp add: ind.walked_def own_inv_def)
  have "write_pointers c (Some (page_addr p)) buf (int n) (of_nat (off div BLOCK_SIZE)) [0 ..< 1024] s2 l bd = Some (s3, l3, bd3)"
    using w(1) unfolding write_pointers_walk by simp
  then have "write_indirect_at c (Some (page_addr p)) buf (int n) (of_nat (off div BLOCK_SIZE)) ob i s l = Some (Inr (s4, l3))"
    unfolding write_indirect_at_def Let_def cmalloc_def q using s2(1) s4(1) o3 by simp
  moreover obtain N where N: "grow c ob (ind_slots off n i) N s s4" "card N \<le> Suc (card ?T)" "ptr c s4 ob (Ind i) \<noteq> 0"
      "\<forall>k. base i \<le> k \<longrightarrow> k < base (Suc i) \<longrightarrow> touched off n k \<longrightarrow> blk_written c off n buf ob s s4 k"
    using indirect_grow[OF inv i s2(2-6) bd w(3) s4(2-4)] by blast
  moreover have "locals_at off n (base (Suc i)) l3" using w(2) by (simp add: add.commute add.left_commute)
  moreover have "need off n (base (Suc i)) + m \<le> nfree s4"
    using grow_nfree[OF N(1)] N(2) room split by linarith
  ultimately show ?thesis using grow_mono[OF N(1) ind_slots_between[OF i]] by blast
qed

lemma locals_done:
  assumes "locals_at off n K l" "\<not> remaining l > 0" "0 < n" "K \<le> K'"
  shows "locals_at off n K' l" "K \<le> k \<Longrightarrow> \<not> touched off n k" "off + n \<le> BLOCK_SIZE * K"
proof -
  have le: "n \<le> BLOCK_SIZE * K - off" using assms(1,2) by (simp add: locals_at_def)
  show gt: "off + n \<le> BLOCK_SIZE * K" using le assms(3) by linarith
  then show "K \<le> k \<Longrightarrow> \<not> touched off n k" by (auto simp: touched_def)
  have "off div BLOCK_SIZE < K" using gt assms(3) by (simp add: div_less_iff_less_mult)
  then show "locals_at off n K' l" using assms(1,4) gt by (auto simp: locals_at_def)
qed

lemma wrote_upto_idle:
  assumes "wrote_upto c off n buf ob K N s s'" "K \<le> K'" "\<And>k. K \<le> k \<Longrightarrow> \<not> touched off n k"
    and "off + n \<le> BLOCK_SIZE * K"
  shows "wrote_upto c off n buf ob K' N s s'"
proof -
  have "grow c ob (slots_between off n 0 K') N s s'"
    using grow_mono[of c ob "slots_between off n 0 K"] assms(1) slots_between_Un[OF assms(2)]
    by (simp add: wrote_upto_def)
  moreover have "k < K" if "touched off n k" for k using assms(3) that by (meson not_le)
  moreover have "base i < K" if "BLOCK_SIZE * base i < off + n" for i
  proof -
    have "BLOCK_SIZE * base i < BLOCK_SIZE * K" using that assms(4) by linarith
    then show ?thesis by simp
  qed
  ultimately show ?thesis using assms(1) unfolding wrote_upto_def by blast
qed

lemma wrote_upto_grow: "wrote_upto c off n buf ob K N s t \<Longrightarrow> grow c ob (slots_between off n 0 K) N s t"
  by (simp add: wrote_upto_def)

lemma grow_blk_inv: "grow c ob S N s t \<Longrightarrow> blk_inv c t" and grow_mmap: "grow c ob S N s t \<Longrightarrow> mmap_page t = mmap_page s"
  by (auto simp: grow_def io_step_def)

lemma write_indirect_ok:
  assumes n: "0 < n" and f: "fits off n" and small: "off div BLOCK_SIZE < 2 ^ 32"
    and mem: "mmap_page s0 BLOCK_SIZE \<noteq> None"
  shows "i + m = 4 \<Longrightarrow> wrote_upto c off n buf ob (base i) N s0 s \<Longrightarrow> locals_at off n (base i) l \<Longrightarrow>
    need off n (base i) + m \<le> nfree s \<Longrightarrow>
    \<exists>s' l' N'. write_indirect c (Some (page_addr p)) buf (int n) (of_nat (off div BLOCK_SIZE)) ob [i ..< i + m] s l = Some (Inr (s', l')) \<and>
      wrote_upto c off n buf ob 4100 N' s0 s'"
proof (induction m arbitrary: i s l N)
  case 0
  then show ?case by auto
next
  case (Suc m)
  note prems = Suc.prems
  have i: "i < 4" and base: "base i \<le> base (Suc i)" "base (Suc i) \<le> 4100" using prems(1) by simp_all
  have upt: "[i ..< i + Suc m] = i # [Suc i ..< Suc i + m]" by (rule upt_Suc_Cons)
  note g = wrote_upto_grow[OF prems(2)]
  show ?case
  proof (cases "remaining l > 0")
    case True
    have mem': "mmap_page s BLOCK_SIZE \<noteq> None" using grow_mmap[OF g] mem by simp
    obtain s1 l1 N1 where s1: "write_indirect_at c (Some (page_addr p)) buf (int n) (of_nat (off div BLOCK_SIZE)) ob i s l = Some (Inr (s1, l1))"
        "locals_at off n (base (Suc i)) l1" "grow c ob (slots_between off n (base i) (base (Suc i))) N1 s s1"
        "need off n (base (Suc i)) + m \<le> nfree s1" "ptr c s1 ob (Ind i) \<noteq> 0"
        "\<forall>k. base i \<le> k \<longrightarrow> k < base (Suc i) \<longrightarrow> touched off n k \<longrightarrow> blk_written c off n buf ob s s1 k"
      using write_indirect_at_ok[OF n f small grow_own[OF g] grow_blk_inv[OF g] i prems(3) mem' prems(4), of p buf] by blast
    have "wrote_upto c off n buf ob (base (Suc i)) (N \<union> N1) s0 s1"
    proof (rule wrote_upto_step[OF prems(2) s1(3,6) _ base], intro allI impI)
      fix k assume "base i \<le> base k" "base k < base (Suc i)"
      then have "k = i" by simp
      then show "ptr c s1 ob (Ind k) \<noteq> 0" using s1(5) by simp
    qed
    from Suc.IH[OF _ this s1(2,4)] prems(1) show ?thesis
      unfolding upt using True s1(1) by (simp del: upt_Suc)
  next
    case False
    note d = locals_done[OF prems(3) False n base(1)]
    have "wrote_upto c off n buf ob (base (Suc i)) N s0 s" using wrote_upto_idle[OF prems(2) base(1) d(2,3)] .
    moreover have "need off n (base (Suc i)) + m \<le> nfree s"
      using prems(4) need_split[of "base (Suc i)" "base i" 1024 off n] base(2) by simp
    ultimately show ?thesis
      using Suc.IH[OF _ _ d(1)] prems(1) False unfolding upt by (simp del: upt_Suc)
  qed
qed

lemma need_bound:
  assumes "fits off n" "0 < n"
  shows "need off n 0 \<le> n div BLOCK_SIZE + 1"
proof -
  let ?b = "off div BLOCK_SIZE"
  have "k \<le> ?b + n div BLOCK_SIZE" if "touched off n k" for k
  proof (cases "off mod BLOCK_SIZE = 0")
    case True
    then have "off = BLOCK_SIZE * ?b" by auto
    with that have "BLOCK_SIZE * k < BLOCK_SIZE * ?b + n" by (simp add: touched_def)
    then have "BLOCK_SIZE * (k - ?b) \<le> n" by (simp only: diff_mult_distrib2)
    then have "k - ?b \<le> n div BLOCK_SIZE" by (simp add: less_eq_div_iff_mult_less_eq mult.commute)
    then show ?thesis by simp
  next
    case False
    then have "BLOCK_SIZE * k < BLOCK_SIZE * Suc ?b"
      using that assms(1) mult_div_mod_eq[of BLOCK_SIZE off] unfolding touched_def fits_def mult_Suc_right by linarith
    then show ?thesis by simp
  qed
  then have "{k. 0 \<le> k \<and> k < 4100 \<and> touched off n k} \<subseteq> {?b ..< ?b + n div BLOCK_SIZE + 1}"
    by (auto simp: touched_def less_Suc_eq_le)
  then have "card {k. 0 \<le> k \<and> k < 4100 \<and> touched off n k} \<le> card {?b ..< ?b + n div BLOCK_SIZE + 1}"
    by (intro card_mono) simp_all
  then show ?thesis unfolding need_def by simp
qed

lemma write_loops_ok:
  assumes n: "0 < n" and f: "fits off n" and small: "off div BLOCK_SIZE < 2 ^ 32"
    and inv: "own_inv c s ob" and bi: "blk_inv c s" and mem: "mmap_page s BLOCK_SIZE \<noteq> None"
    and l: "locals_at off n 0 l" and room: "n div BLOCK_SIZE + 5 \<le> nfree s"
  shows "\<exists>s1 l1 s2 l2 N. write_direct c (Some (page_addr p)) buf (int n) (of_nat (off div BLOCK_SIZE)) ob [0 ..< 4] s l = Some (s1, l1) \<and>
    write_indirect c (Some (page_addr p)) buf (int n) (of_nat (off div BLOCK_SIZE)) ob [0 ..< 4] s1 l1 = Some (Inr (s2, l2)) \<and>
    wrote_upto c off n buf ob 4100 N s s2"
proof -
  let ?T = "{j \<in> {0 ..< 4}. touched off n (0 + j)}"
  have split: "need off n 0 = card ?T + need off n (base 0)" using need_split[of "base 0" 0 4 off n] by simp
  have room4: "need off n 0 + 4 \<le> nfree s" using room need_bound[OF f n] by simp
  have len: "length (obj_direct (objects s ob)) = 4" using inv by (simp add: own_inv_def)
  have ptrs: "dir.ptrs_ok ob c {0 ..< 0 + 4} s"
  proof -
    have "blk_readable c s (ptr c s ob (Dir j)) \<and> unat (ptr c s ob (Dir j)) \<in> used s"
      if "j < 4" "ptr c s ob (Dir j) \<noteq> 0" for j
      using own_inv_used[OF inv, of "Dir j"] own_inv_readable[OF inv, of "Dir j"] that by simp
    moreover have "j = k" if "j < 4" "k < 4" "ptr c s ob (Dir j) \<noteq> 0" "ptr c s ob (Dir j) = ptr c s ob (Dir k)" for j k
      using own_inv_inj[OF inv, of "Dir j" "Dir k"] that by simp
    ultimately show ?thesis unfolding dir.ptrs_ok_def inj_on_def by auto
  qed
  obtain s1 l1 where w: "dir.walk ob c (Some (page_addr p)) buf (int n) (of_nat (off div BLOCK_SIZE)) [0 ..< 0 + 4] s l = Some (s1, l1)"
      "locals_at off n (0 + 0 + 4) l1" "dir.walked ob c off n buf 0 ?T s s1"
    using dir.walk_ok[OF n f small len bi _ _ ptrs, of 0 l p buf] l room4 split
    unfolding nfree_def by auto
  have wd: "write_direct c (Some (page_addr p)) buf (int n) (of_nat (off div BLOCK_SIZE)) ob [0 ..< 4] s l = Some (s1, l1)"
    using w(1) unfolding write_direct_walk by simp
  have T4: "?T \<subseteq> {..<4}" by auto
  define N where "N = (\<lambda>i. unat (obj_direct (objects s1 ob) ! i)) ` {i \<in> ?T. obj_direct (objects s ob) ! i = 0}"
  have g: "grow c ob (Dir ` ?T) N s s1" and bw: "\<forall>k \<in> ?T. blk_written c off n buf ob s s1 k"
    using direct_grow[OF inv T4 w(3)] unfolding N_def by blast+
  have "Dir ` ?T \<subseteq> slots_between off n 0 (base 0)" by (auto simp: slots_between_def slot_of.simps)
  then have up: "wrote_upto c off n buf ob (base 0) N s s1"
    using grow_mono[OF g] bw by (auto simp: wrote_upto_def)
  have "card N \<le> card ?T"
  proof -
    have "N \<subseteq> (\<lambda>i. unat (obj_direct (objects s1 ob) ! i)) ` ?T" unfolding N_def by (rule image_mono) (rule Collect_restrict)
    then show ?thesis by (intro surj_card_le) simp_all
  qed
  then have "need off n (base 0) + 4 \<le> nfree s1" using grow_nfree[OF g] room4 split by linarith
  from write_indirect_ok[OF n f small mem _ up _ this, of l1 p] w(2)
  show ?thesis using wd by (simp del: upt_conv_Cons)
qed

section \<open>The invariant of the store after a write\<close>

lemma store_inv_own:
  assumes inv: "store_inv c s" and ob: "ob < MAX_OBJS"
  shows "own_inv c s ob"
proof -
  have "wf_obj (objects s ob)" using inv ob by (simp add: store_inv_def dir_inv_def)
  moreover have "unat (ptr c s ob sl) \<in> used s \<and> blk_readable c s (ptr c s ob sl)"
    if "slot_ok sl" "ptr c s ob sl \<noteq> 0" for sl
    using ptr_bounded[OF inv ob that(1)] that(2) by (simp add: ptr_ok_def)
  moreover have "inj_on (ptr c s ob) {sl. slot_ok sl \<and> ptr c s ob sl \<noteq> 0}"
  proof (rule inj_onI)
    fix a b assume ab: "a \<in> {sl. slot_ok sl \<and> ptr c s ob sl \<noteq> 0}" "b \<in> {sl. slot_ok sl \<and> ptr c s ob sl \<noteq> 0}"
      and eq: "ptr c s ob a = ptr c s ob b"
    have "inj_on (\<lambda>(m, sl). ptr c s m sl) (owned c s)" using inv by (simp add: store_inv_def)
    from inj_onD[OF this, of "(ob, a)" "(ob, b)"] ab eq ob show "a = b" by (simp add: owned_def)
  qed
  ultimately show ?thesis by (simp add: own_inv_def wf_obj_def)
qed

lemma store_inv_distinct:
  assumes inv: "store_inv c s" and "(a, x) \<in> owned c s" "(b, y) \<in> owned c s" "ptr c s a x = ptr c s b y"
  shows "a = b \<and> x = y"
proof -
  have "inj_on (\<lambda>(m, sl). ptr c s m sl) (owned c s)" using inv by (simp add: store_inv_def)
  from inj_onD[OF this, of "(a, x)" "(b, y)"] assms(2-4) show ?thesis by simp
qed

text \<open>The blocks that a growing object writes to belong to no other object.\<close>

lemma grow_other_object:
  assumes inv: "store_inv c s" and ob: "ob < MAX_OBJS" and g: "grow c ob S N s t"
    and m: "m < MAX_OBJS" "m \<noteq> ob" "slot_ok sl"
  shows "ptr c t m sl = ptr c s m sl"
    and "ptr c s m sl \<noteq> 0 \<Longrightarrow> blk_view c t (ptr c s m sl) = blk_view c s (ptr c s m sl) \<and> blk_readable c t (ptr c s m sl)"
proof -
  obtain W where W: "io_step c s t N W" "\<forall>b \<in> W. b \<noteq> 0 \<and> (\<exists>sl \<in> S. slot_ok sl \<and> b = ptr c t ob sl)"
    using g by (auto simp: grow_def)
  have keep: "blk_view c t (ptr c s m x) = blk_view c s (ptr c s m x) \<and> blk_readable c t (ptr c s m x)"
    if x: "slot_ok x" "ptr c s m x \<noteq> 0" for x
  proof -
    have own: "(m, x) \<in> owned c s" using x m by (simp add: owned_def)
    have live: "unat (ptr c s m x) \<in> used s" "blk_readable c s (ptr c s m x)"
      using ptr_bounded[OF inv m(1) x(1)] x(2) by (simp_all add: ptr_ok_def)
    have "ptr c s m x \<notin> W"
    proof
      assume "ptr c s m x \<in> W"
      then obtain y where y: "slot_ok y" "ptr c s m x = ptr c t ob y" "ptr c t ob y \<noteq> 0" using W(2) by metis
      show False
      proof (cases "ptr c s ob y = 0")
        case True
        then have "unat (ptr c t ob y) \<in> N" using g y by (simp add: grow_def)
        with live(1) y(2) W(1) show False by (auto simp: io_step_def)
      next
        case False
        then have "ptr c t ob y = ptr c s ob y" using g y(1) by (simp add: grow_def)
        moreover have "(ob, y) \<in> owned c s" using False y(1) ob by (simp add: owned_def)
        ultimately show False using store_inv_distinct[OF inv own] y(2) m(2) by metis
      qed
    qed
    then show ?thesis using io_step_view[OF W(1) x(2)] io_step_readable[OF W(1) x(2) live(2)] by simp
  qed
  have same: "objects t m = objects s m" using g m(2) by (simp add: grow_def)
  show "ptr c t m sl = ptr c s m sl"
  proof (cases sl)
    case (Sub i j)
    then show ?thesis using keep[of "Ind i"] m(3) same by simp
  qed (simp_all add: same)
  show "ptr c s m sl \<noteq> 0 \<Longrightarrow> blk_view c t (ptr c s m sl) = blk_view c s (ptr c s m sl) \<and> blk_readable c t (ptr c s m sl)"
    using keep[OF m(3)] by simp
qed

lemma grow_store_inv:
  assumes inv: "store_inv c s" and live: "names s ob \<noteq> None" and g: "grow c ob S N s t"
  shows "store_inv c t \<and> names t = names s"
proof -
  have ob: "ob < MAX_OBJS" using live names_bound by blast
  obtain W where W: "io_step c s t N W" using grow_io[OF g] by blast
  note oth = grow_other_object[OF inv ob g]
  have res: "{..<RES_BLOCKS} \<subseteq> used s" using inv by (simp add: store_inv_def)
  have same: "\<And>m. m \<noteq> ob \<Longrightarrow> objects t m = objects s m" and key: "obj_size (objects t ob) = obj_size (objects s ob)"
      "obj_key (objects t ob) = obj_key (objects s ob)"
    using g by (simp_all add: grow_def)
  have f: "obj_size (objects t m) = obj_size (objects s m)" "obj_key (objects t m) = obj_key (objects s m)" for m
    using same key by (cases "m = ob"; simp)+
  then have n: "names t = names s" by (intro names_same) simp
  note own = grow_own[OF g]
  have d: "dir_inv t"
  proof -
    have "wf_obj (objects t m)" if "m < MAX_OBJS" for m
      using inv that same[of m] key own by (cases "m = ob") (auto simp: store_inv_def dir_inv_def wf_obj_def own_inv_def)
    then show ?thesis using inv f by (simp add: store_inv_def dir_inv_def n)
  qed
  have fresh: "unat (ptr c t ob sl) \<in> N \<or> ptr c t ob sl = ptr c s ob sl \<and> ptr c s ob sl \<noteq> 0"
    if "slot_ok sl" "ptr c t ob sl \<noteq> 0" for sl
    using g that by (auto simp: grow_def)
  have N: "b \<notin> used s \<and> RES_BLOCKS \<le> b" if "b \<in> N" for b
  proof -
    have b: "b \<notin> used s" using W that unfolding io_step_def by blast
    then have "b \<notin> {..<RES_BLOCKS}" using res by blast
    then show ?thesis using b by simp
  qed
  have "names t m \<noteq> None \<and> ptr_ok c t (ptr c t m sl)" if "(m, sl) \<in> owned c t" for m sl
  proof (cases "m = ob")
    case True
    have sl: "slot_ok sl" "ptr c t ob sl \<noteq> 0" using that True by (simp_all add: owned_def)
    have "RES_BLOCKS \<le> unat (ptr c t ob sl)"
      using fresh[OF sl] N ptr_bounded[OF inv ob sl(1)] by (auto simp: ptr_ok_def)
    then show ?thesis
      using True live n own_inv_used[OF own sl] own_inv_readable[OF own sl] by (simp add: ptr_ok_def)
  next
    case False
    have sl: "m < MAX_OBJS" "slot_ok sl" "ptr c t m sl \<noteq> 0" using that by (simp_all add: owned_def)
    have eq: "ptr c t m sl = ptr c s m sl" using oth(1)[OF sl(1) False sl(2)] .
    have "(m, sl) \<in> owned c s" using sl eq by (simp add: owned_def)
    then have "names s m \<noteq> None" "ptr_ok c s (ptr c s m sl)" using inv unfolding store_inv_def by blast+
    then show ?thesis
      using oth(2)[OF sl(1) False sl(2)] sl(3) io_step_used[OF W] by (simp add: eq n ptr_ok_def)
  qed
  then have ok: "\<forall>(m, sl) \<in> owned c t. names t m \<noteq> None \<and> ptr_ok c t (ptr c t m sl)" by blast
  have "a = b \<and> x = y" if ab: "(a, x) \<in> owned c t" "(b, y) \<in> owned c t" "ptr c t a x = ptr c t b y" for a b x y
  proof -
    have cross: "False" if ow: "(m, p) \<in> owned c t" "(ob, q) \<in> owned c t" "ptr c t m p = ptr c t ob q" and m: "m \<noteq> ob" for m p q
    proof -
      have p: "m < MAX_OBJS" "slot_ok p" "ptr c t m p \<noteq> 0" and q: "slot_ok q" "ptr c t ob q \<noteq> 0"
        using ow by (simp_all add: owned_def)
      have eq: "ptr c t m p = ptr c s m p" using oth(1)[OF p(1) m p(2)] .
      have mp: "(m, p) \<in> owned c s" using p eq by (simp add: owned_def)
      then have "unat (ptr c s m p) \<in> used s" using inv unfolding store_inv_def ptr_ok_def by blast
      then have "ptr c t ob q = ptr c s ob q" "ptr c s ob q \<noteq> 0" using fresh[OF q] N ow(3) eq by auto
      moreover then have "(ob, q) \<in> owned c s" using q ob by (simp add: owned_def)
      ultimately show False using store_inv_distinct[OF inv mp] ow(3) eq m by metis
    qed
    show ?thesis
    proof (cases "a = ob"; cases "b = ob")
      assume "a = ob" "b = ob"
      then show ?thesis using ab own_inv_inj[OF own, of x y] by (simp add: owned_def)
    next
      assume "a = ob" "b \<noteq> ob"
      then show ?thesis using cross[of b y x] ab by metis
    next
      assume "a \<noteq> ob" "b = ob"
      then show ?thesis using cross[of a x y] ab by metis
    next
      assume n: "a \<noteq> ob" "b \<noteq> ob"
      have e: "ptr c t a x = ptr c s a x" "ptr c t b y = ptr c s b y" using ab n oth(1) by (simp_all add: owned_def)
      have "(a, x) \<in> owned c s" "(b, y) \<in> owned c s" using ab e by (simp_all add: owned_def)
      moreover have "ptr c s a x = ptr c s b y" using e ab(3) by metis
      ultimately show ?thesis by (rule store_inv_distinct[OF inv])
    qed
  qed
  then have inj: "inj_on (\<lambda>(m, sl). ptr c t m sl) (owned c t)"
    by (intro inj_onI) (metis (no_types, lifting) case_prod_conv surj_pair)
  have "blk_inv c t" "mmap_page t = mmap_page s" "used s \<subseteq> used t" using W by (auto simp: io_step_def)
  then show ?thesis
    using inv d ok inj n res unfolding store_inv_def by (intro conjI) (simp_all, blast?)
qed

section \<open>\<open>objstore_write\<close>\<close>

lemma c_offset [simp]:
  "(word_of_int (int off sdiv 4096) :: u32) = of_nat (off div 4096)"
  "unat (word_of_int (int off smod 4096) :: u32) = off mod 4096"
proof -
  show "(word_of_int (int off sdiv 4096) :: u32) = of_nat (off div 4096)"
  proof -
    have "int off sdiv 4096 = int (off div 4096)"
      by (cases "off = 0") (simp_all add: signed_divide_int_def zdiv_int)
    then show ?thesis by simp
  qed
  have "int off smod 4096 = int (off mod 4096)" by (simp add: signed_modulo_int_def zmod_int sgn_if)
  then show "unat (word_of_int (int off smod 4096) :: u32) = off mod 4096"
    by simp
qed

text \<open>Setting the size of a live object to another positive value.\<close>

lemma set_size_store:
  assumes inv: "store_inv c s" and live: "names s ob \<noteq> None" and sz: "sz \<noteq> 0"
  defines "t \<equiv> set_obj s ob ((objects s ob)\<lparr>obj_size := sz\<rparr>)"
  shows "store_inv c t" "names t = names s" "ptr c t = ptr c s" "blk_view c t = blk_view c s" "used t = used s"
proof -
  have v: "blk_view c t = blk_view c s" "blk_readable c t = blk_readable c s" "blk_inv c t = blk_inv c s"
    by (simp_all add: t_def set_obj_def blk_view_def blk_readable_def blk_inv_def io_ok_def fun_eq_iff)
  show "blk_view c t = blk_view c s" by (rule v)
  have o: "obj_direct (objects t m) = obj_direct (objects s m)" "obj_indirect (objects t m) = obj_indirect (objects s m)"
      "obj_key (objects t m) = obj_key (objects s m)" "obj_size (objects t m) = 0 \<longleftrightarrow> obj_size (objects s m) = 0" for m
    using live sz by (auto simp: t_def names_def split: if_splits)
  show n: "names t = names s" by (simp add: names_def o fun_eq_iff)
  show p: "ptr c t = ptr c s"
  proof (intro ext)
    fix m sl show "ptr c t m sl = ptr c s m sl" using o v by (cases sl) simp_all
  qed
  show u: "used t = used s" by (simp add: t_def)
  have d: "dir_inv t" using inv by (auto simp: store_inv_def dir_inv_def n wf_obj_def o)
  show "store_inv c t"
    by (rule store_inv_table[OF inv d]) (use o n in \<open>simp_all add: t_def set_obj_def\<close>)
qed

lemma wrote_content:
  assumes w: "wrote_upto c off n buf ob 4100 N s t" and x: "off + x < 16793600"
  shows "x < n \<Longrightarrow> content c t ob (off + x) = buf x" "x < n \<Longrightarrow> ptr c t ob (slot_of ((off + x) div BLOCK_SIZE)) \<noteq> 0"
proof -
  let ?k = "(off + x) div BLOCK_SIZE" let ?y = "(off + x) mod BLOCK_SIZE"
  assume lt: "x < n"
  have eq: "BLOCK_SIZE * ?k + ?y = off + x" by simp
  have k: "?k < 4100" using x by simp
  have "touched off n ?k" using lt eq by (simp add: touched_def div_le_mono)
  then have bw: "blk_written c off n buf ob s t ?k" using w k by (simp add: wrote_upto_def)
  then show "ptr c t ob (slot_of ?k) \<noteq> 0" by (simp add: blk_written_def)
  have "?y < BLOCK_SIZE" "off \<le> BLOCK_SIZE * ?k + ?y" "BLOCK_SIZE * ?k + ?y < off + n" "BLOCK_SIZE * ?k + ?y - off = x"
    using eq lt by simp_all
  then have "blk_view c t (ptr c t ob (slot_of ?k)) ?y = buf x" using bw unfolding blk_written_def by metis
  then show "content c t ob (off + x) = buf x" by (simp add: content_def)
qed

text \<open>Bytes in front of the write, and in blocks it does not touch, stay as they are.\<close>

lemma wrote_content_before:
  assumes w: "wrote_upto c off n buf ob 4100 N s t" and x: "x < off \<or> \<not> touched off n (x div BLOCK_SIZE)" "x < 16793600"
    and p: "ptr c s ob (slot_of (x div BLOCK_SIZE)) \<noteq> 0"
  shows "content c t ob x = content c s ob x" "ptr c t ob (slot_of (x div BLOCK_SIZE)) = ptr c s ob (slot_of (x div BLOCK_SIZE))"
proof -
  let ?k = "x div BLOCK_SIZE" let ?y = "x mod BLOCK_SIZE"
  have k: "?k < 4100" using x(2) by simp
  note g = wrote_upto_grow[OF w]
  show same: "ptr c t ob (slot_of ?k) = ptr c s ob (slot_of ?k)" using g slot_of_ok[OF k] p by (simp add: grow_def)
  show "content c t ob x = content c s ob x"
  proof (cases "touched off n ?k")
    case True
    then have bw: "blk_written c off n buf ob s t ?k" using w k by (simp add: wrote_upto_def)
    have "BLOCK_SIZE * ?k + ?y < off" "?y < BLOCK_SIZE" using x(1) True by simp_all
    then have "blk_view c t (ptr c t ob (slot_of ?k)) ?y = blk_view c s (ptr c s ob (slot_of ?k)) ?y"
      using bw p unfolding blk_written_def by blast
    then show ?thesis by (simp add: content_def)
  next
    case False
    then show ?thesis using grow_view[OF g slot_of_ok[OF k] _ p] by (simp add: content_def same)
  qed
qed

lemma objstore_write_result:
  assumes inv: "store_inv c s" and live: "names s ob \<noteq> None" and n: "0 < n" and f: "fits off n"
    and bound: "off + n \<le> 16793600" and room: "n div BLOCK_SIZE + 5 \<le> nfree s"
  shows "\<exists>s'. objstore_write c (int ob + 2) buf (int n) s (int off) = Some (int n, s') \<and> store_inv c s' \<and>
    names s' = names s \<and> obj_size (objects s' ob) = of_nat (off + n) \<and> dirty s' = insert ob (dirty s) \<and>
    (\<forall>x<n. ptr c s' ob (slot_of ((off + x) div BLOCK_SIZE)) \<noteq> 0 \<and> content c s' ob (off + x) = buf x) \<and>
    (\<forall>x<16793600. x < off \<or> \<not> touched off n (x div BLOCK_SIZE) \<longrightarrow> ptr c s ob (slot_of (x div BLOCK_SIZE)) \<noteq> 0 \<longrightarrow>
       ptr c s' ob (slot_of (x div BLOCK_SIZE)) \<noteq> 0 \<and> content c s' ob x = content c s ob x) \<and>
    (\<forall>i<4. BLOCK_SIZE * base i < off + n \<longrightarrow> ptr c s' ob (Ind i) \<noteq> 0) \<and>
    (\<forall>m<MAX_OBJS. m \<noteq> ob \<longrightarrow> objects s' m = objects s m \<and>
       (\<forall>sl. slot_ok sl \<longrightarrow> ptr c s' m sl = ptr c s m sl \<and>
          (ptr c s m sl \<noteq> 0 \<longrightarrow> blk_view c s' (ptr c s m sl) = blk_view c s (ptr c s m sl)))) \<and>
    used s \<subseteq> used s' \<and> used s' \<subseteq> used s \<union> blocks_of c s' ob \<and>
    (\<forall>sl. slot_ok sl \<longrightarrow> ptr c s ob sl \<noteq> 0 \<longrightarrow> ptr c s' ob sl = ptr c s ob sl)"
proof -
  have ob: "ob < MAX_OBJS" using live names_bound by blast
  have bi: "blk_inv c s" and mem: "mmap_page s BLOCK_SIZE \<noteq> None" using inv by (simp_all add: store_inv_def)
  obtain p where p: "mmap_page s BLOCK_SIZE = Some p" using mem by auto
  have small: "off div BLOCK_SIZE < 2 ^ 32" using bound by (simp add: div_less_iff_less_mult)
  define l where "l = \<lparr>remaining = int n, shift = off mod BLOCK_SIZE, blocks_done = (0 :: u32), temp = zero_buf\<rparr>"
  have l: "locals_at off n 0 l" by (simp add: locals_at_def l_def)
  obtain s1 l1 s2 l2 N where w: "write_direct c (Some (page_addr p)) buf (int n) (of_nat (off div BLOCK_SIZE)) ob [0 ..< 4] s l = Some (s1, l1)"
      "write_indirect c (Some (page_addr p)) buf (int n) (of_nat (off div BLOCK_SIZE)) ob [0 ..< 4] s1 l1 = Some (Inr (s2, l2))"
      "wrote_upto c off n buf ob 4100 N s s2"
    using write_loops_ok[OF n f small store_inv_own[OF inv ob] bi mem l room] by blast
  note g = wrote_upto_grow[OF w(3)]
  have st: "store_inv c s2" "names s2 = names s" using grow_store_inv[OF inv live g] by blast+
  let ?sz = "of_nat (off + n) :: u64"
  have "unat ?sz = off + n" using bound unfolding unat_of_nat by (intro mod_less) simp
  then have nz: "?sz \<noteq> 0" using n by (metis add_is_0 less_numeral_extra(3) unat_0)
  let ?t = "set_obj s2 ob ((objects s2 ob)\<lparr>obj_size := ?sz\<rparr>)"
  have live2: "names s2 ob \<noteq> None" using live st(2) by simp
  note ss = set_size_store[OF st(1) live2 nz]
  define s' where "s' = ?t\<lparr>obj_bmp := (obj_bmp ?t)(ob div 64 := set_bit (ob mod 64) (obj_bmp ?t (ob div 64)))\<rparr>"
  have run: "objstore_write c (int ob + 2) buf (int n) s (int off) = Some (int n, s')"
  proof -
    have "objstore_write c (int ob + 2) buf (int n) s (int off) =
       (case mark_obj_dirty ?t (word_of_int (int ob + 2)) of None \<Rightarrow> None | Some (r, s4) \<Rightarrow> Some (int n, s4))"
      using ob bound w(1,2) unfolding l_def by (simp add: objstore_write_def Let_def cmalloc_def p)
    then show ?thesis using mark_obj_dirty_ok[OF ob, of ?t] by (simp add: s'_def add.commute)
  qed
  have fr: "store_inv c s'" "names s' = names s" "blk_view c s' = blk_view c s2" "used s' = used s2"
    using ss st(2) by (simp_all add: s'_def)
  have "ptr c s' m sl = ptr c ?t m sl" for m sl by (cases sl) (simp_all add: s'_def)
  then have pt: "ptr c s' = ptr c s2" using ss(3) by (intro ext) simp
  have ct: "content c s' ob = content c s2 ob" by (simp add: content_def fun_eq_iff pt fr(3))
  have d: "dirty s' = insert ob (dirty s)"
  proof -
    have "obj_bmp s2 = obj_bmp s" using g by (auto simp: grow_def io_step_def)
    then show ?thesis using dirty_set_bit[OF ob, of s] by (simp add: s'_def dirty_def set_obj_def)
  qed
  have "\<forall>x<n. ptr c s' ob (slot_of ((off + x) div BLOCK_SIZE)) \<noteq> 0 \<and> content c s' ob (off + x) = buf x"
    unfolding ct pt using wrote_content[OF w(3)] bound by simp
  moreover have "\<forall>x<16793600. x < off \<or> \<not> touched off n (x div BLOCK_SIZE) \<longrightarrow> ptr c s ob (slot_of (x div BLOCK_SIZE)) \<noteq> 0 \<longrightarrow>
       ptr c s' ob (slot_of (x div BLOCK_SIZE)) \<noteq> 0 \<and> content c s' ob x = content c s ob x"
    unfolding ct pt using wrote_content_before[OF w(3)] by simp
  moreover have "\<forall>i<4. BLOCK_SIZE * base i < off + n \<longrightarrow> ptr c s' ob (Ind i) \<noteq> 0"
    unfolding pt using w(3) by (simp add: wrote_upto_def)
  moreover have "\<forall>m<MAX_OBJS. m \<noteq> ob \<longrightarrow> objects s' m = objects s m \<and>
       (\<forall>sl. slot_ok sl \<longrightarrow> ptr c s' m sl = ptr c s m sl \<and>
          (ptr c s m sl \<noteq> 0 \<longrightarrow> blk_view c s' (ptr c s m sl) = blk_view c s (ptr c s m sl)))"
    unfolding pt fr(3) using grow_other_object[OF inv ob g] g by (simp add: s'_def grow_def)
  moreover have "blocks_of c s' ob = blocks_of c s2 ob" by (simp add: blocks_of_def pt)
  then have "used s \<subseteq> used s' \<and> used s' \<subseteq> used s \<union> blocks_of c s' ob"
    unfolding fr(4) using g by (auto simp: grow_def io_step_def)
  moreover have "\<forall>sl. slot_ok sl \<longrightarrow> ptr c s ob sl \<noteq> 0 \<longrightarrow> ptr c s' ob sl = ptr c s ob sl"
    unfolding pt using g by (simp add: grow_def)
  ultimately show ?thesis using run fr(1,2) d by (intro exI[of _ s']) (simp add: s'_def)
qed

end
