(* ===== verification/Reading.thy ===== *)
theory Reading
  imports Writing
begin

text \<open>
  \<open>objstore_read\<close> of \<open>assignment-4/objstore.c\<close>: where the pointers of an object have no hole, a
  read delivers the contents of the object and changes no block. With \<open>objstore_write\<close>, what
  is written is what is read.
\<close>

section \<open>One block of a read\<close>

lemma flush_ch_blk_objects: "flush_ch_blk s i = (r, s') \<Longrightarrow> objects s' = objects s"
  by (auto simp: flush_ch_blk_def write_block_def pwrite_block_def Let_def split: if_splits prod.splits)

lemma read_ch_blk_objects: "read_ch_blk c s b addr buf = (r, s', t) \<Longrightarrow> objects s' = objects s"
  by (auto simp: read_ch_blk_def Let_def split: if_splits prod.splits dest: flush_ch_blk_objects)

lemma get_block_data_objects:
  "get_block_data c addr sz s l buf b = Some (r, s', l', buf') \<Longrightarrow> objects s' = objects s"
  by (auto simp: get_block_data_def Let_def split: if_splits prod.splits option.splits dest: read_ch_blk_objects)

text \<open>What a read that sees the state \<open>s\<close> and the pointers \<open>P\<close> of the blocks in \<open>K\<close> puts into the buffer.\<close>

definition delivered ::
    "bool \<Rightarrow> nat \<Rightarrow> nat \<Rightarrow> objfs_state \<Rightarrow> (nat \<Rightarrow> u32) \<Rightarrow> nat \<Rightarrow> nat \<Rightarrow> buffer \<Rightarrow> buffer \<Rightarrow> bool" where
  "delivered c off n s P K K' buf buf' \<longleftrightarrow> (\<forall>x. buf' x =
     (if x < n \<and> K \<le> (off + x) div BLOCK_SIZE \<and> (off + x) div BLOCK_SIZE < K'
      then blk_view c s (P ((off + x) div BLOCK_SIZE)) ((off + x) mod BLOCK_SIZE) else buf x))"

lemma delivered_none: "K' \<le> K \<Longrightarrow> delivered c off n s P K K' buf buf"
  by (auto simp: delivered_def)

lemma delivered_idle:
  assumes "delivered c off n s P K K' buf buf'" "\<And>k. K' \<le> k \<Longrightarrow> k < K'' \<Longrightarrow> \<not> touched off n k" "K' \<le> K''"
  shows "delivered c off n s P K K'' buf buf'"
proof -
  have "touched off n ((off + x) div BLOCK_SIZE)" if "x < n" for x
    using that by (auto simp: touched_def div_le_mono)
  then have "x < n \<and> K \<le> (off + x) div BLOCK_SIZE \<and> (off + x) div BLOCK_SIZE < K'' \<longleftrightarrow>
      x < n \<and> K \<le> (off + x) div BLOCK_SIZE \<and> (off + x) div BLOCK_SIZE < K'" for x
    using assms(2,3) by (meson leI less_le_trans)
  then show ?thesis using assms(1) unfolding delivered_def by presburger
qed

lemma delivered_append:
  assumes "delivered c off n s P K K' buf buf1" "delivered c off n t P K' K'' buf1 buf2" "K \<le> K'" "K' \<le> K''"
    and same: "\<And>k. K' \<le> k \<Longrightarrow> k < K'' \<Longrightarrow> touched off n k \<Longrightarrow> blk_view c t (P k) = blk_view c s (P k)"
  shows "delivered c off n s P K K'' buf buf2"
  unfolding delivered_def
proof
  fix x
  let ?k = "(off + x) div BLOCK_SIZE"
  have t: "touched off n ?k" if "x < n" using that by (auto simp: touched_def div_le_mono)
  have b1: "buf1 x = (if x < n \<and> K \<le> ?k \<and> ?k < K' then blk_view c s (P ?k) ((off + x) mod BLOCK_SIZE) else buf x)"
    and b2: "buf2 x = (if x < n \<and> K' \<le> ?k \<and> ?k < K'' then blk_view c t (P ?k) ((off + x) mod BLOCK_SIZE) else buf1 x)"
    using assms(1,2) unfolding delivered_def by blast+
  show "buf2 x = (if x < n \<and> K \<le> ?k \<and> ?k < K'' then blk_view c s (P ?k) ((off + x) mod BLOCK_SIZE) else buf x)"
  proof (cases "x < n \<and> K' \<le> ?k \<and> ?k < K''")
    case True
    then show ?thesis using b2 same[of ?k] t assms(3) by simp
  next
    case False
    have "buf2 x = buf1 x" unfolding b2 by (rule if_not_P[OF False])
    moreover have "x < n \<and> K \<le> ?k \<and> ?k < K'' \<longleftrightarrow> x < n \<and> K \<le> ?k \<and> ?k < K'" using False assms(4) by linarith
    ultimately show ?thesis using b1 by simp
  qed
qed

lemma get_block_data_ok:
  assumes inv: "blk_inv c s" and l: "locals_at off n k l" and t: "touched off n k"
    and f: "fits off n" and n: "0 < n" and b: "P k \<noteq> 0" "blk_readable c s (P k)"
  shows "\<exists>s' l' buf'. get_block_data c (Some (page_addr p)) (int n) s l buf (P k) = Some (0, s', l', buf') \<and>
    locals_at off n (Suc k) l' \<and> same_blocks c s s' \<and> objects s' = objects s \<and> blk_bmp s' = blk_bmp s \<and>
    delivered c off n s P k (Suc k) buf buf'"
proof -
  note act = locals_active[OF l t f n]
  define cur where "cur = (if remaining l > int BLOCK_SIZE then int BLOCK_SIZE else remaining l)"
  obtain s' where s': "read_ch_blk c s (P k) (page_addr p) (temp l) = (0, s', blk_view c s (P k))"
      "same_blocks c s s'" "objects s' = objects s" "blk_bmp s' = blk_bmp s"
    using read_ch_blk_same[OF inv b] by blast
  define buf' where "buf' = memcpy buf (nat (int n - remaining l)) (blk_view c s (P k)) (shift l) (nat cur)"
  define l' where "l' = l\<lparr>remaining := remaining l - cur, shift := 0, temp := blk_view c s (P k)\<rparr>"
  have "get_block_data c (Some (page_addr p)) (int n) s l buf (P k) = Some (0, s', l', buf')"
    unfolding get_block_data_def Let_def cur_def[symmetric]
    using act(1,2)[folded cur_def] s'(1) by (simp add: l'_def buf'_def)
  moreover have "locals_at off n (Suc k) l'" unfolding l'_def cur_def using act(3) .
  moreover have "delivered c off n s P k (Suc k) buf buf'"
    unfolding delivered_def
  proof
    fix x
    let ?lo = "BLOCK_SIZE * k - off"
    have sh: "shift l = (if k \<le> off div BLOCK_SIZE then off mod BLOCK_SIZE else 0)" using l by (simp add: locals_at_def)
    have ge: "off div BLOCK_SIZE \<le> k" using t by (simp add: touched_def)
    have pos: "BLOCK_SIZE * k + shift l = off + ?lo"
    proof (cases "k \<le> off div BLOCK_SIZE")
      case True
      then have "k = off div BLOCK_SIZE" using ge by simp
      then show ?thesis using sh by simp
    next
      case False
      then have "off \<le> BLOCK_SIZE * k" using mult_div_mod_eq[of BLOCK_SIZE off] mod_less_divisor[of BLOCK_SIZE off] by linarith
      then show ?thesis using sh False by simp
    qed
    have iff: "?lo \<le> x \<and> x < ?lo + nat cur \<longleftrightarrow> x < n \<and> k \<le> (off + x) div BLOCK_SIZE \<and> (off + x) div BLOCK_SIZE < Suc k"
    proof -
      have "k \<le> (off + x) div BLOCK_SIZE \<and> (off + x) div BLOCK_SIZE < Suc k \<longleftrightarrow> BLOCK_SIZE * k \<le> off + x \<and> off + x < BLOCK_SIZE * k + BLOCK_SIZE"
        by (auto simp: less_eq_div_iff_mult_less_eq div_less_iff_less_mult mult.commute)
      moreover have "cur = min (int BLOCK_SIZE) (int n - int ?lo)" and "?lo < n"
        using l act(1,4) by (auto simp: cur_def locals_at_def)
      moreover have "nat cur + shift l \<le> BLOCK_SIZE" using act(2) by (simp add: cur_def)
      ultimately show ?thesis using pos by (cases "shift l = 0") (auto simp: min_def split: if_splits)
    qed
    show "buf' x = (if x < n \<and> k \<le> (off + x) div BLOCK_SIZE \<and> (off + x) div BLOCK_SIZE < Suc k
        then blk_view c s (P ((off + x) div BLOCK_SIZE)) ((off + x) mod BLOCK_SIZE) else buf x)"
    proof (cases "?lo \<le> x \<and> x < ?lo + nat cur")
      case True
      have k: "(off + x) div BLOCK_SIZE = k" and xn: "x < n" using True iff by auto
      have "shift l + (x - ?lo) = (off + x) mod BLOCK_SIZE"
        using pos True k mult_div_mod_eq[of BLOCK_SIZE "off + x"] by auto
      then show ?thesis using True k xn unfolding buf'_def act(4) memcpy_def by simp
    next
      case False
      have "buf' x = buf x" unfolding buf'_def act(4) memcpy_def by (rule if_not_P[OF False])
      then show ?thesis unfolding if_not_P[OF False[unfolded iff]] .
    qed
  qed
  ultimately show ?thesis using s'(2-4) by blast
qed

section \<open>The loops\<close>

definition readable_ptrs :: "bool \<Rightarrow> nat \<Rightarrow> nat \<Rightarrow> objfs_state \<Rightarrow> (nat \<Rightarrow> u32) \<Rightarrow> nat \<Rightarrow> nat \<Rightarrow> bool" where
  "readable_ptrs c off n s P K K' \<longleftrightarrow>
     (\<forall>k. K \<le> k \<longrightarrow> k < K' \<longrightarrow> touched off n k \<longrightarrow> P k \<noteq> 0 \<and> blk_readable c s (P k))"

text \<open>A step that only reads.\<close>

definition only_read :: "bool \<Rightarrow> objfs_state \<Rightarrow> objfs_state \<Rightarrow> bool" where
  "only_read c s s' \<longleftrightarrow> same_blocks c s s' \<and> objects s' = objects s \<and> blk_bmp s' = blk_bmp s"

lemma only_read_refl: "blk_inv c s \<Longrightarrow> only_read c s s"
  by (simp add: only_read_def)

lemma only_read_trans: "only_read c s t \<Longrightarrow> only_read c t u \<Longrightarrow> only_read c s u"
  by (auto simp: only_read_def intro: same_blocks_trans)

lemma only_read_inv: "only_read c s t \<Longrightarrow> blk_inv c t"
  by (simp add: only_read_def same_blocks_def)

lemma only_read_view: "only_read c s t \<Longrightarrow> b \<noteq> 0 \<Longrightarrow> blk_view c t b = blk_view c s b"
  by (simp add: only_read_def same_blocks_def)

lemma readable_ptrs_step:
  assumes "readable_ptrs c off n s P K K'" "only_read c s t" "K \<le> L"
  shows "readable_ptrs c off n t P L K'"
  using assms by (auto simp: readable_ptrs_def only_read_def same_blocks_def)

lemma read_pointers_ok:
  assumes n: "0 < n" and f: "fits off n" and small: "off div BLOCK_SIZE < 2 ^ 32"
    and P: "\<And>j. P (B + j) = u32_at bd j"
  shows "blk_inv c s \<Longrightarrow> locals_at off n (B + i) l \<Longrightarrow> readable_ptrs c off n s P (B + i) (B + i + m) \<Longrightarrow>
    \<exists>s' l' buf'. read_pointers c (Some (page_addr p)) (int n) (of_nat (off div BLOCK_SIZE)) bd [i ..< i + m] s l buf = Some (s', l', buf') \<and>
      locals_at off n (B + i + m) l' \<and> only_read c s s' \<and> delivered c off n s P (B + i) (B + i + m) buf buf'"
proof (induction m arbitrary: i s l buf)
  case 0
  then show ?case by (simp add: only_read_refl delivered_none)
next
  case (Suc m)
  note prems = Suc.prems
  have upt: "[i ..< i + Suc m] = i # [Suc i ..< Suc i + m]" by (rule upt_Suc_Cons)
  have eq: "B + Suc i + m = B + i + Suc m" by simp
  note IH = Suc.IH[where i = "Suc i", unfolded eq]
  have idle: "\<exists>s' l' buf'. read_pointers c (Some (page_addr p)) (int n) (of_nat (off div BLOCK_SIZE)) bd [Suc i ..< Suc i + m] s l0 buf = Some (s', l', buf') \<and>
      locals_at off n (B + i + Suc m) l' \<and> only_read c s s' \<and> delivered c off n s P (B + i) (B + i + Suc m) buf buf'"
    if no: "\<not> touched off n (B + i)" and l0: "locals_at off n (Suc (B + i)) l0" for l0
  proof -
    have "readable_ptrs c off n s P (B + Suc i) (B + i + Suc m)"
      using readable_ptrs_step[OF prems(3) only_read_refl[OF prems(1)]] by simp
    then obtain s' l' buf' where *: "read_pointers c (Some (page_addr p)) (int n) (of_nat (off div BLOCK_SIZE)) bd [Suc i ..< Suc i + m] s l0 buf = Some (s', l', buf')"
        "locals_at off n (B + i + Suc m) l'" "only_read c s s'" "delivered c off n s P (B + Suc i) (B + i + Suc m) buf buf'"
      using IH[OF prems(1), of l0 buf] l0 by auto
    have "delivered c off n s P (B + i) (B + Suc i) buf buf"
      by (rule delivered_idle[OF delivered_none[of "B + i" "B + i"]]) (use no in \<open>auto simp: le_less_Suc_eq\<close>)
    from delivered_append[OF this *(4)] have "delivered c off n s P (B + i) (B + i + Suc m) buf buf'" by simp
    then show ?thesis using * by blast
  qed
  show ?case
  proof (cases "B + i < off div BLOCK_SIZE")
    case True
    note skip = locals_skip[OF prems(2) True small]
    have "\<not> touched off n (B + i)" using True by (simp add: touched_def)
    then show ?thesis using idle[OF _ skip(2)] skip(1) unfolding upt by simp
  next
    case False
    then have ge: "off div BLOCK_SIZE \<le> B + i" by simp
    note reached = locals_reached[OF prems(2) ge]
    show ?thesis
    proof (cases "touched off n (B + i)")
      case no: False
      note li = locals_idle[OF prems(2) ge no n]
      show ?thesis
      proof (cases "u32_at bd i = 0")
        case True
        have rem: "\<not> remaining l > 0" using li(1) by simp
        note d = locals_done[OF prems(2) rem n, of "B + i + Suc m"]
        have "delivered c off n s P (B + i) (B + i + Suc m) buf buf"
          by (rule delivered_idle[OF delivered_none[of "B + i" "B + i"]]) (use d(2) in auto)
        then show ?thesis using d(1) True reached only_read_refl[OF prems(1)] unfolding upt by simp
      next
        case False
        have "get_block_data c (Some (page_addr p)) (int n) s l buf (u32_at bd i) = Some (0, s, l, buf)"
          using li(1) by (simp add: get_block_data_def)
        then show ?thesis using idle[OF no li(2)] reached False unfolding upt by simp
      qed
    next
      case yes: True
      have b: "P (B + i) \<noteq> 0" "blk_readable c s (P (B + i))" using prems(3) yes by (simp_all add: readable_ptrs_def)
      obtain s1 l1 buf1 where g: "get_block_data c (Some (page_addr p)) (int n) s l buf (P (B + i)) = Some (0, s1, l1, buf1)"
          "locals_at off n (Suc (B + i)) l1" "same_blocks c s s1" "objects s1 = objects s" "blk_bmp s1 = blk_bmp s"
          "delivered c off n s P (B + i) (Suc (B + i)) buf buf1"
        using get_block_data_ok[where P = P, OF prems(1,2) yes f n b] by blast
      have o1: "only_read c s s1" using g(3-5) by (simp add: only_read_def)
      have "readable_ptrs c off n s1 P (B + Suc i) (B + i + Suc m)" by (rule readable_ptrs_step[OF prems(3) o1]) simp
      then obtain s' l' buf' where *: "read_pointers c (Some (page_addr p)) (int n) (of_nat (off div BLOCK_SIZE)) bd [Suc i ..< Suc i + m] s1 l1 buf1 = Some (s', l', buf')"
          "locals_at off n (B + i + Suc m) l'" "only_read c s1 s'" "delivered c off n s1 P (B + Suc i) (B + i + Suc m) buf1 buf'"
        using IH[OF only_read_inv[OF o1], of l1 buf1] g(2) by auto
      have "delivered c off n s P (B + i) (B + i + Suc m) buf buf'"
      proof (rule delivered_append[OF g(6)])
        show "delivered c off n s1 P (Suc (B + i)) (B + i + Suc m) buf1 buf'" using *(4) by simp
        show "blk_view c s1 (P k) = blk_view c s (P k)" if "Suc (B + i) \<le> k" "k < B + i + Suc m" "touched off n k" for k
          using only_read_view[OF o1] prems(3) that by (simp add: readable_ptrs_def)
      qed simp_all
      moreover have "only_read c s s'" using only_read_trans[OF o1 *(3)] .
      ultimately show ?thesis using *(1,2) g(1) reached b(1) unfolding upt P by (simp del: upt_Suc)
    qed
  qed
qed

text \<open>The loop over the direct pointers is the same loop over a buffer that holds them.\<close>

lemma read_direct_pointers:
  "(\<forall>i \<in> set is. u32_at bd i = obj_direct (objects s ob) ! i) \<Longrightarrow>
   read_direct c addr sz start ob is s l buf = read_pointers c addr sz start bd is s l buf"
proof (induction "is" arbitrary: s l buf)
  case (Cons i "is")
  have "read_direct c addr sz start ob is s' l' buf' = read_pointers c addr sz start bd is s' l' buf'"
    if "objects s' = objects s" for s' l' buf'
    using Cons that by simp
  then show ?case using Cons.prems
    by (auto split: option.splits dest: get_block_data_objects)
qed simp

fun ptr_buf :: "u32 list \<Rightarrow> nat \<Rightarrow> buffer" where
  "ptr_buf [] i = zero_buf"
| "ptr_buf (x # xs) i = set_u32 (ptr_buf xs (Suc i)) i x"

lemma u32_at_ptr_buf: "j < length xs \<Longrightarrow> u32_at (ptr_buf xs i) (i + j) = xs ! j"
proof (induction xs arbitrary: i j)
  case (Cons x xs)
  show ?case
  proof (cases j)
    case (Suc j')
    then show ?thesis using Cons.IH[of j' "Suc i"] Cons.prems by simp
  qed simp
qed simp

definition pointers_of :: "bool \<Rightarrow> objfs_state \<Rightarrow> nat \<Rightarrow> nat \<Rightarrow> u32" where
  "pointers_of c s ob k = ptr c s ob (slot_of k)"

lemma only_read_ptr:
  assumes "only_read c s t"
  shows "ptr c t ob sl = ptr c s ob sl"
  using assms only_read_view[OF assms] by (cases sl) (simp_all add: only_read_def)

lemma only_read_pointers: "only_read c s t \<Longrightarrow> pointers_of c t ob = pointers_of c s ob"
  by (simp add: pointers_of_def only_read_ptr fun_eq_iff)

text \<open>The loop over the pointer blocks, where none is missing in front of the end of the read.\<close>

lemma read_indirect_ok:
  assumes n: "0 < n" and f: "fits off n" and small: "off div BLOCK_SIZE < 2 ^ 32"
  shows "i + m = 4 \<Longrightarrow> own_inv c s ob \<Longrightarrow> blk_inv c s \<Longrightarrow> mmap_page s BLOCK_SIZE \<noteq> None \<Longrightarrow> locals_at off n (base i) l \<Longrightarrow>
    readable_ptrs c off n s (pointers_of c s ob) (base i) 4100 \<Longrightarrow>
    \<forall>k<4. BLOCK_SIZE * base k < off + n \<longrightarrow> ptr c s ob (Ind k) \<noteq> 0 \<Longrightarrow>
    \<exists>s' l' buf'. read_indirect c (Some (page_addr p)) (int n) (of_nat (off div BLOCK_SIZE)) ob [i ..< i + m] s l buf = Some (Inr (s', l', buf')) \<and>
      locals_at off n 4100 l' \<and> only_read c s s' \<and> delivered c off n s (pointers_of c s ob) (base i) 4100 buf buf'"
proof (induction m arbitrary: i s l buf)
  case 0
  then have "base i = 4100" by simp
  then show ?case using 0 only_read_refl[of c s] delivered_none[of 4100 4100] by auto
next
  case (Suc m)
  note prems = Suc.prems
  let ?P = "pointers_of c s ob"
  have i: "i < 4" and le: "base i \<le> 4100" "base (Suc i) \<le> 4100" using prems(1) by simp_all
  have upt: "[i ..< i + Suc m] = i # [Suc i ..< Suc i + m]" by (rule upt_Suc_Cons)
  show ?case
  proof (cases "remaining l > 0")
    case False
    note d = locals_done[OF prems(5) False n le(1)]
    have "delivered c off n s ?P (base i) 4100 buf buf"
      by (rule delivered_idle[OF delivered_none[of "base i" "base i"]]) (use d(2) le in auto)
    then show ?thesis using False d(1) only_read_refl[OF prems(3)] unfolding upt by simp
  next
    case True
    then have "BLOCK_SIZE * base i < off + n" using prems(5) by (simp add: locals_at_def)
    then have ip: "ptr c s ob (Ind i) \<noteq> 0" using prems(7) i by blast
    let ?ip = "obj_indirect (objects s ob) ! i"
    obtain q where q: "mmap_page s BLOCK_SIZE = Some q" using prems(4) by auto
    have "blk_readable c s ?ip" using own_inv_readable[OF prems(2), of "Ind i"] i ip by simp
    then obtain s1 where s1: "read_ch_blk c s ?ip (page_addr q) zero_buf = (0, s1, blk_view c s ?ip)" "same_blocks c s s1"
        "objects s1 = objects s" "blk_bmp s1 = blk_bmp s"
      using read_ch_blk_same[OF prems(3), of ?ip q zero_buf] ip by auto
    have o1: "only_read c s s1" using s1(2-4) by (simp add: only_read_def)
    define P where "P = (\<lambda>k. if base i \<le> k then u32_at (blk_view c s ?ip) (k - base i) else 0)"
    have PB: "P (base i + j) = u32_at (blk_view c s ?ip) j" for j by (simp add: P_def)
    have Peq: "P k = ?P k" if "base i \<le> k" "k < base (Suc i)" for k
    proof -
      define j where "j = k - base i"
      have "k = base i + j" "j < 1024" using that by (simp_all add: j_def)
      then show ?thesis using slot_of_base[OF i, of j] ip PB[of j] by (simp add: pointers_of_def)
    qed
    have "readable_ptrs c off n s P (base i + 0) (base i + 0 + 1024)"
      using prems(6) Peq le(2) by (simp add: readable_ptrs_def)
    then have "readable_ptrs c off n s1 P (base i + 0) (base i + 0 + 1024)" by (rule readable_ptrs_step[OF _ o1]) simp
    from read_pointers_ok[where P = P and B = "base i" and i = 0 and m = 1024, OF n f small PB only_read_inv[OF o1] _ this, of l p buf]
    obtain s2 l2 buf2 where r: "read_pointers c (Some (page_addr p)) (int n) (of_nat (off div BLOCK_SIZE)) (blk_view c s ?ip) [0 ..< 1024] s1 l buf = Some (s2, l2, buf2)"
        "locals_at off n (base (Suc i)) l2" "only_read c s1 s2" "delivered c off n s1 P (base i) (base (Suc i)) buf buf2"
      using prems(5) by (auto simp: add.commute add.left_commute simp del: upt_conv_Cons)
    have o2: "only_read c s s2" using only_read_trans[OF o1 r(3)] .
    have d1: "delivered c off n s ?P (base i) (base (Suc i)) buf buf2"
      unfolding delivered_def
    proof
      fix x
      let ?k = "(off + x) div BLOCK_SIZE"
      have "touched off n ?k" if "x < n" using that by (auto simp: touched_def div_le_mono)
      then have "blk_view c s1 (P ?k) = blk_view c s (?P ?k)" if "x < n" "base i \<le> ?k" "?k < base (Suc i)"
        using that Peq[of ?k] only_read_view[OF o1] prems(6) le(2) by (simp add: readable_ptrs_def)
      then show "buf2 x = (if x < n \<and> base i \<le> ?k \<and> ?k < base (Suc i)
          then blk_view c s (?P ?k) ((off + x) mod BLOCK_SIZE) else buf x)"
        using r(4)[unfolded delivered_def, rule_format, of x] by (auto simp del: add_Suc_right mult_Suc_right split: if_splits)
    qed
    have inv2: "own_inv c s2 ob"
    proof -
      have "used s2 = used s" "objects s2 = objects s" using o2 by (simp_all add: only_read_def used_def)
      moreover have "blk_readable c s2 b" if "blk_readable c s b" "b \<noteq> 0" for b
        using o2 that by (simp add: only_read_def same_blocks_def)
      ultimately show ?thesis using prems(2) unfolding own_inv_def only_read_ptr[OF o2] by (simp cong: inj_on_cong add: only_read_ptr[OF o2])
    qed
    have "readable_ptrs c off n s2 (pointers_of c s2 ob) (base (Suc i)) 4100"
      unfolding only_read_pointers[OF o2] by (rule readable_ptrs_step[OF prems(6) o2]) simp
    moreover have "mmap_page s2 BLOCK_SIZE \<noteq> None" using o2 prems(4) by (simp add: only_read_def same_blocks_def)
    moreover have "\<forall>k<4. BLOCK_SIZE * base k < off + n \<longrightarrow> ptr c s2 ob (Ind k) \<noteq> 0"
      using prems(7) unfolding only_read_ptr[OF o2] .
    ultimately obtain s' l' buf' where *: "read_indirect c (Some (page_addr p)) (int n) (of_nat (off div BLOCK_SIZE)) ob [Suc i ..< Suc i + m] s2 l2 buf2 = Some (Inr (s', l', buf'))"
        "locals_at off n 4100 l'" "only_read c s2 s'" "delivered c off n s2 (pointers_of c s2 ob) (base (Suc i)) 4100 buf2 buf'"
      using Suc.IH[of "Suc i" s2 l2 buf2] prems(1) inv2 only_read_inv[OF o2] r(2) by (auto simp del: upt_Suc)
    have "delivered c off n s ?P (base i) 4100 buf buf'"
    proof (rule delivered_append[OF d1])
      show "delivered c off n s2 ?P (base (Suc i)) 4100 buf2 buf'" using *(4) unfolding only_read_pointers[OF o2] .
      show "blk_view c s2 (?P k) = blk_view c s (?P k)" if "base (Suc i) \<le> k" "k < 4100" "touched off n k" for k
        using only_read_view[OF o2] prems(6) that by (simp add: readable_ptrs_def)
    qed (use le in simp_all)
    moreover have "read_indirect c (Some (page_addr p)) (int n) (of_nat (off div BLOCK_SIZE)) ob [i ..< i + Suc m] s l buf = Some (Inr (s', l', buf'))"
      unfolding upt using True ip s1(1) r(1) *(1) q by (simp add: cmalloc_def del: upt_Suc upt_conv_Cons)
    ultimately show ?thesis using *(2) only_read_trans[OF o2 *(3)] by blast
  qed
qed

section \<open>\<open>objstore_read\<close>\<close>

lemma zero_rest_done: "rem \<le> 0 \<Longrightarrow> zero_rest sz rem buf = buf"
  by (simp add: zero_rest.simps)

text \<open>The clearing loop overwrites exactly the last \<open>rem\<close> bytes of the caller's buffer.\<close>

lemma zero_rest_result:
  "0 \<le> rem \<Longrightarrow> rem \<le> sz \<Longrightarrow>
   zero_rest sz rem buf = (\<lambda>x. if nat (sz - rem) \<le> x \<and> x < nat sz then 0 else buf x)"
proof (induction sz rem buf rule: zero_rest.induct)
  case (1 sz rem buf)
  show ?case
  proof (cases "rem > 0")
    case True
    have e: "nat (sz - (rem - 1)) = Suc (nat (sz - rem))" using 1(3) by simp
    have "nat (sz - rem) < nat sz" using True 1(3) by simp
    then have "(\<lambda>x. if nat (sz - (rem - 1)) \<le> x \<and> x < nat sz then 0 else (buf(nat (sz - rem) := 0)) x)
        = (\<lambda>x. if nat (sz - rem) \<le> x \<and> x < nat sz then 0 else buf x)"
      unfolding e by (auto simp: fun_eq_iff)
    moreover have "zero_rest sz (rem - 1) (buf(nat (sz - rem) := 0)) =
        (\<lambda>x. if nat (sz - (rem - 1)) \<le> x \<and> x < nat sz then 0 else (buf(nat (sz - rem) := 0)) x)"
      by (rule 1(1)[OF True]) (use 1 True in auto)
    ultimately show ?thesis by (subst zero_rest.simps) (simp only: True if_True)
  next
    case False
    then show ?thesis using 1(2) by (auto simp: zero_rest_done fun_eq_iff)
  qed
qed

text \<open>An object whose pointers have no hole between \<open>off\<close> and \<open>off + n\<close>.\<close>

definition dense :: "bool \<Rightarrow> objfs_state \<Rightarrow> nat \<Rightarrow> nat \<Rightarrow> nat \<Rightarrow> bool" where
  "dense c s ob off n \<longleftrightarrow> (\<forall>x<n. ptr c s ob (slot_of ((off + x) div BLOCK_SIZE)) \<noteq> 0) \<and>
     (\<forall>i<4. BLOCK_SIZE * base i < off + n \<longrightarrow> ptr c s ob (Ind i) \<noteq> 0)"

lemma store_inv_only_read:
  assumes "store_inv c s" "only_read c s t"
  shows "store_inv c t \<and> names t = names s"
proof -
  have o: "objects t = objects s" "used t = used s" "mmap_page t = mmap_page s"
    using assms(2) by (simp_all add: only_read_def same_blocks_def used_def)
  have n: "names t = names s" by (simp add: names_def o fun_eq_iff)
  have ok: "ptr_ok c t b" if "ptr_ok c s b" for b
  proof -
    have "b \<noteq> 0" using that by (auto simp: ptr_ok_def)
    then show ?thesis using that assms(2) by (auto simp: ptr_ok_def o only_read_def same_blocks_def)
  qed
  have ow: "owned c t = owned c s" by (simp add: owned_def only_read_ptr[OF assms(2)])
  have "\<forall>(m, sl) \<in> owned c s. names s m \<noteq> None \<and> ptr_ok c t (ptr c s m sl)"
    using assms(1) ok unfolding store_inv_def by fast
  moreover have "dir_inv t = dir_inv s" by (simp add: dir_inv_def o n)
  ultimately have "store_inv c t"
    using assms(1) only_read_inv[OF assms(2)] unfolding store_inv_def only_read_ptr[OF assms(2)] o n ow by simp
  then show ?thesis using n by simp
qed

lemma objstore_read_result:
  assumes inv: "store_inv c s" and ob: "ob < MAX_OBJS" and n: "0 < n" and f: "fits off n"
    and bound: "off + n \<le> 16793600" and d: "dense c s ob off n"
  shows "\<exists>s'. objstore_read c (int ob + 2) buf (int n) s (int off) =
      Some (int n, s', \<lambda>x. if x < n then content c s ob (off + x) else buf x) \<and> only_read c s s'"
proof -
  have bi: "blk_inv c s" and mem: "mmap_page s BLOCK_SIZE \<noteq> None" using inv by (simp_all add: store_inv_def)
  obtain p where p: "mmap_page s BLOCK_SIZE = Some p" using mem by auto
  have small: "off div BLOCK_SIZE < 2 ^ 32" using bound by (simp add: div_less_iff_less_mult)
  note own = store_inv_own[OF inv ob]
  let ?P = "pointers_of c s ob"
  define l where "l = \<lparr>remaining = int n, shift = off mod BLOCK_SIZE, blocks_done = (0 :: u32), temp = zero_buf\<rparr>"
  have l: "locals_at off n 0 l" by (simp add: locals_at_def l_def)
  have rp: "readable_ptrs c off n s ?P 0 4100"
    unfolding readable_ptrs_def
  proof (intro allI impI)
    fix k assume k: "k < 4100" "touched off n k"
    have "?P k \<noteq> 0"
    proof -
      define x where "x = (if k = off div BLOCK_SIZE then 0 else BLOCK_SIZE * k - off)"
      have "(off + x) div BLOCK_SIZE = k \<and> x < n"
      proof (cases "k = off div BLOCK_SIZE")
        case True
        then show ?thesis using n by (simp add: x_def)
      next
        case False
        then have "off div BLOCK_SIZE < k" using k(2) by (simp add: touched_def)
        then have le: "off \<le> BLOCK_SIZE * k" using mult_div_mod_eq[of BLOCK_SIZE off] mod_less_divisor[of BLOCK_SIZE off] by linarith
        then have "BLOCK_SIZE * k - off < n" using k(2) unfolding touched_def by linarith
        then show ?thesis using False le by (simp add: x_def)
      qed
      then show ?thesis using d unfolding dense_def pointers_of_def by metis
    qed
    then show "?P k \<noteq> 0 \<and> blk_readable c s (?P k)"
      using own_inv_readable[OF own slot_of_ok[OF k(1)]] by (simp add: pointers_of_def)
  qed
  let ?xs = "obj_direct (objects s ob)"
  have len: "length ?xs = 4" using own by (simp add: own_inv_def)
  define P where "P = u32_at (ptr_buf ?xs 0)"
  have bd: "u32_at (ptr_buf ?xs 0) i = ?xs ! i" if "i < 4" for i using u32_at_ptr_buf[of i ?xs 0] len that by simp
  have P4: "P k = ?P k" if "k < 4" for k using bd[OF that] that by (simp add: P_def pointers_of_def slot_of.simps)
  have "readable_ptrs c off n s P (0 + 0) (0 + 0 + 4)" using rp P4 by (simp add: readable_ptrs_def)
  from read_pointers_ok[where P = P and B = 0 and i = 0 and m = 4 and bd = "ptr_buf ?xs 0", OF n f small _ bi _ this, of l p buf]
  obtain s1 l1 buf1 where r1: "read_pointers c (Some (page_addr p)) (int n) (of_nat (off div BLOCK_SIZE)) (ptr_buf ?xs 0) [0 ..< 4] s l buf = Some (s1, l1, buf1)"
      "locals_at off n 4 l1" "only_read c s s1" "delivered c off n s P 0 4 buf buf1"
    using l by (auto simp: P_def simp del: upt_conv_Cons)
  have rd: "read_direct c (Some (page_addr p)) (int n) (of_nat (off div BLOCK_SIZE)) ob [0 ..< 4] s l buf = Some (s1, l1, buf1)"
    using read_direct_pointers[of "[0 ..< 4]" "ptr_buf ?xs 0" s ob] bd r1(1) by simp
  have d1: "delivered c off n s ?P 0 4 buf buf1"
    using r1(4) P4 unfolding delivered_def by (metis (no_types, lifting))
  have st1: "store_inv c s1" using store_inv_only_read[OF inv r1(3)] by blast
  have "mmap_page s1 BLOCK_SIZE \<noteq> None" using st1 by (simp add: store_inv_def)
  moreover have "readable_ptrs c off n s1 (pointers_of c s1 ob) (base 0) 4100"
    unfolding only_read_pointers[OF r1(3)] by (rule readable_ptrs_step[OF rp r1(3)]) simp
  moreover have "\<forall>k<4. BLOCK_SIZE * base k < off + n \<longrightarrow> ptr c s1 ob (Ind k) \<noteq> 0"
    using d unfolding only_read_ptr[OF r1(3)] dense_def by blast
  ultimately obtain s2 l2 buf2 where r2: "read_indirect c (Some (page_addr p)) (int n) (of_nat (off div BLOCK_SIZE)) ob [0 ..< 4] s1 l1 buf1 = Some (Inr (s2, l2, buf2))"
      "locals_at off n 4100 l2" "only_read c s1 s2" "delivered c off n s1 (pointers_of c s1 ob) (base 0) 4100 buf1 buf2"
    using read_indirect_ok[OF n f small, of 0 4 c s1 ob l1 p buf1] store_inv_own[OF st1 ob] only_read_inv[OF r1(3)] r1(2)
    by (auto simp del: upt_conv_Cons)
  have "delivered c off n s ?P 0 4100 buf buf2"
  proof (rule delivered_append[OF d1])
    show "delivered c off n s1 ?P 4 4100 buf1 buf2" using r2(4) unfolding only_read_pointers[OF r1(3)] by simp
    show "blk_view c s1 (?P k) = blk_view c s (?P k)" if "4 \<le> k" "k < 4100" "touched off n k" for k
      using only_read_view[OF r1(3)] rp that by (simp add: readable_ptrs_def)
  qed simp_all
  then have "buf2 x = (if x < n then content c s ob (off + x) else buf x)" for x
    using bound unfolding delivered_def content_def pointers_of_def by (auto simp: div_less_iff_less_mult)
  then have b2: "buf2 = (\<lambda>x. if x < n then content c s ob (off + x) else buf x)" by blast
  have rem: "remaining l2 \<le> 0" using r2(2) bound by (simp add: locals_at_def)
  have "objstore_read c (int ob + 2) buf (int n) s (int off) = Some (int n, s2, zero_rest (int n) (remaining l2) buf2)"
    using ob bound rd r2(1) unfolding l_def by (simp add: objstore_read_def Let_def cmalloc_def p)
  then show ?thesis using only_read_trans[OF r1(3) r2(3)] unfolding zero_rest_done[OF rem] b2 by blast
qed

end
