(* ===== verification/Mount.thy ===== *)
theory Mount
  imports ObjectIO
begin

text \<open>
  Mounting and unmounting: \<open>objstore_init\<close> and \<open>objstore_destroy\<close> of
  \<open>assignment-4/objstore.c\<close>, which load the block bitmap and the object table from the
  reserved blocks of the image and write them back. The 1 MB transfer buffer \<open>res_blk_buf\<close>
  is an array of blocks; \<open>struct object\<close> is laid out as the x86-64 ABI does (72 bytes:
  \<open>size\<close> at 0, \<open>key\<close> at 8, \<open>direct\<close> at 40, \<open>indirect\<close> at 56). The mutex calls are left out.
\<close>

abbreviation (input) OBJ_SIZEOF :: nat where "OBJ_SIZEOF \<equiv> 72"
abbreviation (input) DATA_SIZEOF :: nat where "DATA_SIZEOF \<equiv> 73304856"
abbreviation (input) BMP_BUF_SIZE :: nat where "BMP_BUF_SIZE \<equiv> 1048576"

section \<open>The bytes of the structures\<close>

definition obj_byte :: "obj \<Rightarrow> nat \<Rightarrow> byte" where
  "obj_byte ob k =
     (if k < 8 then u64_byte (obj_size ob) k
      else if k < 40 then obj_key ob ! (k - 8)
      else if k < 56 then u32_byte (obj_direct ob ! ((k - 40) div 4)) (k mod 4)
      else u32_byte (obj_indirect ob ! ((k - 56) div 4)) (k mod 4))"

definition decode_obj :: "buffer \<Rightarrow> nat \<Rightarrow> obj" where
  "decode_obj b m =
     \<lparr>obj_size = u64_at b (OBJ_SIZEOF * m),
      obj_key = map (\<lambda>k. b (OBJ_SIZEOF * m + 8 + k)) [0 ..< KEY_SIZE],
      obj_direct = map (\<lambda>k. u32_at b (18 * m + 10 + k)) [0 ..< 4],
      obj_indirect = map (\<lambda>k. u32_at b (18 * m + 14 + k)) [0 ..< 4]\<rparr>"

definition zero_obj :: obj where
  "zero_obj = \<lparr>obj_size = 0, obj_key = replicate KEY_SIZE 0,
     obj_direct = replicate 4 0, obj_indirect = replicate 4 0\<rparr>"

text \<open>The copies between the bitmap and the transfer buffer, and between 50 objects and a block.\<close>

definition bmp_of_buf :: "(nat \<Rightarrow> buffer) \<Rightarrow> nat \<Rightarrow> u64" where
  "bmp_of_buf rb = (\<lambda>i. u64_at (rb (i div 512)) (8 * (i mod 512)))"

definition buf_of_bmp :: "(nat \<Rightarrow> u64) \<Rightarrow> nat \<Rightarrow> buffer" where
  "buf_of_bmp bm = (\<lambda>n k. u64_byte (bm (512 * n + k div 8)) (k mod 8))"

definition copy_objs_in :: "(nat \<Rightarrow> obj) \<Rightarrow> nat \<Rightarrow> buffer \<Rightarrow> nat \<Rightarrow> obj" where
  "copy_objs_in objs i b =
     (\<lambda>m. if i * OBJ_PER_BLOCK \<le> m \<and> m < i * OBJ_PER_BLOCK + OBJ_PER_BLOCK
          then decode_obj b (m - i * OBJ_PER_BLOCK) else objs m)"

definition copy_objs_out :: "(nat \<Rightarrow> obj) \<Rightarrow> nat \<Rightarrow> buffer \<Rightarrow> buffer" where
  "copy_objs_out objs i b =
     (\<lambda>k. if k < OBJ_PER_BLOCK * OBJ_SIZEOF
          then obj_byte (objs (i * OBJ_PER_BLOCK + k div OBJ_SIZEOF)) (k mod OBJ_SIZEOF) else b k)"

section \<open>Mounting\<close>

fun load_bmp :: "objfs_state \<Rightarrow> u64 \<Rightarrow> nat list \<Rightarrow> (nat \<Rightarrow> buffer) \<Rightarrow> int \<times> (nat \<Rightarrow> buffer)" where
  "load_bmp s addr [] rb = (0, rb)"
| "load_bmp s addr (i # is) rb =
     (case read_block s (of_nat i) (addr + 4096 * of_nat i) (rb i) of (r, b) \<Rightarrow>
        if r < 0 then (-1, rb(i := b)) else load_bmp s addr is (rb(i := b)))"

definition reserve_word :: "nat \<Rightarrow> u64 \<Rightarrow> u64" where
  "reserve_word i w =
     (if (i + 1) * 64 < RES_BLOCKS then NOT 0 else w OR (push_bit (RES_BLOCKS - i * 64) 1 - 1))"

fun mark_reserved :: "nat \<Rightarrow> (nat \<Rightarrow> u64) \<Rightarrow> nat \<Rightarrow> nat \<Rightarrow> u64" where
  "mark_reserved 0 bm i = bm"
| "mark_reserved (Suc n) bm i =
     (if i * 64 < RES_BLOCKS then
        mark_reserved n (bm(i := reserve_word i (bm i))) (Suc i)
      else bm)"

fun load_objs ::
    "objfs_state \<Rightarrow> u64 \<Rightarrow> nat list \<Rightarrow> buffer \<Rightarrow> (nat \<Rightarrow> obj) \<Rightarrow> int \<times> (nat \<Rightarrow> obj)" where
  "load_objs s addr [] b objs = (0, objs)"
| "load_objs s addr (i # is) b objs =
     (case read_block s (of_nat (i + BLK_BMP_BLOCKS)) addr b of (r, b') \<Rightarrow>
        if r < 0 then (-1, objs) else load_objs s addr is b' (copy_objs_in objs i b'))"

definition objstore_init :: "bool \<Rightarrow> objfs_state \<Rightarrow> (int \<times> objfs_state) option" where
  "objstore_init cached s =
     (case cmalloc s DATA_SIZEOF of
        None \<Rightarrow> None
      | Some _ \<Rightarrow>
          let s0 = s\<lparr>mounted := True, objects := \<lambda>_. zero_obj, obj_bmp := \<lambda>_. 0,
                     blk_bmp := \<lambda>_. 0, cache_info := \<lambda>_. 0\<rparr> in
          (case cmalloc s0 BMP_BUF_SIZE of
             None \<Rightarrow> Some (-1, s0)
           | Some addr \<Rightarrow>
               (case load_bmp s0 addr [0 ..< BLK_BMP_BLOCKS] (\<lambda>_. zero_buf) of (r, rb) \<Rightarrow>
                  if r < 0 then Some (-1, s0)
                  else
                    let s1 = s0\<lparr>blk_bmp := mark_reserved BLK_BMP_LN (bmp_of_buf rb) 0\<rparr> in
                    (case load_objs s1 addr [0 ..< OBJ_BLOCKS] (rb 0) (objects s1) of (r, objs) \<Rightarrow>
                       let s2 = s1\<lparr>objects := objs\<rparr> in
                       if r < 0 then Some (-1, s2)
                       else Some (0, if cached then s2\<lparr>cache_info := \<lambda>_. 0\<rparr> else s2)))))"

section \<open>Unmounting\<close>

text \<open>The loop that is to flush the cache: its guard takes the slots whose number is 0.\<close>

fun flush_cache :: "nat list \<Rightarrow> objfs_state \<Rightarrow> objfs_state" where
  "flush_cache [] s = s"
| "flush_cache (i # is) s =
     flush_cache is (if cache_info s i = 0 then snd (flush_ch_blk s i) else s)"

fun store_bmp :: "u64 \<Rightarrow> (nat \<Rightarrow> buffer) \<Rightarrow> nat list \<Rightarrow> objfs_state \<Rightarrow> int \<times> objfs_state" where
  "store_bmp addr rb [] s = (0, s)"
| "store_bmp addr rb (i # is) s =
     (case write_block s (of_nat i) (addr + 4096 * of_nat i) (rb i) of (r, s1) \<Rightarrow>
        if r < 0 then (-1, s1) else store_bmp addr rb is s1)"

definition obj_blk_dirty :: "objfs_state \<Rightarrow> nat \<Rightarrow> bool" where
  "obj_blk_dirty s i \<longleftrightarrow>
     list_ex (\<lambda>j. let m = i * OBJ_PER_BLOCK + j in
        drop_bit (m mod 64) (obj_bmp s (m div 64)) AND 1 \<noteq> 0) [0 ..< OBJ_PER_BLOCK]"

fun store_objs :: "u64 \<Rightarrow> nat list \<Rightarrow> buffer \<Rightarrow> objfs_state \<Rightarrow> int \<times> objfs_state" where
  "store_objs addr [] b s = (0, s)"
| "store_objs addr (i # is) b s =
     (if obj_blk_dirty s i then
        let b' = copy_objs_out (objects s) i b in
        (case write_block s (of_nat (i + BLK_BMP_BLOCKS)) addr b' of (r, s1) \<Rightarrow>
           if r < 0 then (-1, s1) else store_objs addr is b' s1)
      else store_objs addr is b s)"

definition objstore_destroy :: "bool \<Rightarrow> objfs_state \<Rightarrow> int \<times> objfs_state" where
  "objstore_destroy cached s =
     (let s1 = (if cached then flush_cache [0 ..< CACHE_LEN] s else s) in
      case cmalloc s1 BMP_BUF_SIZE of
        None \<Rightarrow> (-1, s1)
      | Some addr \<Rightarrow>
          let rb = buf_of_bmp (blk_bmp s1) in
          (case store_bmp addr rb [0 ..< BLK_BMP_BLOCKS] s1 of (r, s2) \<Rightarrow>
             if r < 0 then (-1, s2)
             else
               (case store_objs addr [0 ..< OBJ_BLOCKS] (rb 0) s2 of (r, s3) \<Rightarrow>
                  if r < 0 then (-1, s3) else (0, s3\<lparr>mounted := False\<rparr>))))"

section \<open>The encodings are faithful\<close>

lemma bmp_roundtrip: "bmp_of_buf (buf_of_bmp bm) = bm"
proof
  fix i
  have "(8 * (i mod 512) + k) div 8 = i mod 512" "(8 * (i mod 512) + k) mod 8 = k" if "k < 8" for k :: nat
    using that by simp_all
  then show "bmp_of_buf (buf_of_bmp bm) i = bm i"
    unfolding bmp_of_buf_def buf_of_bmp_def by (intro u64_at_bytes) simp
qed

lemma decode_encode_obj:
  assumes wf: "wf_obj ob" and bytes: "\<And>k. k < OBJ_SIZEOF \<Longrightarrow> b (OBJ_SIZEOF * m + k) = obj_byte ob k"
  shows "decode_obj b m = ob"
proof -
  have "u64_at b (72 * m) = obj_size ob"
    using bytes by (intro u64_at_bytes) (simp add: obj_byte_def)
  moreover have "map (\<lambda>k. b (72 * m + 8 + k)) [0 ..< 32] = obj_key ob"
  proof (rule nth_equalityI)
    fix k assume "k < length (map (\<lambda>k. b (72 * m + 8 + k)) [0 ..< 32])"
    then have k: "k < 32" by simp
    then show "map (\<lambda>k. b (72 * m + 8 + k)) [0 ..< 32] ! k = obj_key ob ! k"
      using bytes[of "8 + k"] by (simp add: obj_byte_def add.assoc)
  qed (use wf in \<open>simp add: wf_obj_def\<close>)
  moreover have "u32_at b (18 * m + 10 + j) = obj_direct ob ! j" if "j < 4" for j
  proof (rule u32_at_bytes)
    fix k :: nat assume k: "k < 4"
    have "(4 * j + k) div 4 = j" "(40 + (4 * j + k)) mod 4 = k" using k by simp_all presburger
    then show "b (4 * (18 * m + 10 + j) + k) = u32_byte (obj_direct ob ! j) k"
      using bytes[of "40 + (4 * j + k)"] that k by (simp add: obj_byte_def algebra_simps)
  qed
  moreover have "u32_at b (18 * m + 14 + j) = obj_indirect ob ! j" if "j < 4" for j
  proof (rule u32_at_bytes)
    fix k :: nat assume k: "k < 4"
    have "(4 * j + k) div 4 = j" "(56 + (4 * j + k)) mod 4 = k" using k by simp_all presburger
    then show "b (4 * (18 * m + 14 + j) + k) = u32_byte (obj_indirect ob ! j) k"
      using bytes[of "56 + (4 * j + k)"] that k by (simp add: obj_byte_def algebra_simps)
  qed
  ultimately have "map (\<lambda>k. u32_at b (18 * m + 10 + k)) [0 ..< 4] = obj_direct ob"
      "map (\<lambda>k. u32_at b (18 * m + 14 + k)) [0 ..< 4] = obj_indirect ob"
      "u64_at b (72 * m) = obj_size ob" "map (\<lambda>k. b (72 * m + 8 + k)) [0 ..< 32] = obj_key ob"
    using wf by (auto simp: wf_obj_def intro: nth_equalityI)
  then show ?thesis
    unfolding decode_obj_def by (cases ob) simp
qed

lemma objs_roundtrip:
  assumes "wf_obj (objs (i * OBJ_PER_BLOCK + m))" "m < OBJ_PER_BLOCK"
  shows "decode_obj (copy_objs_out objs i b) m = objs (i * OBJ_PER_BLOCK + m)"
proof (rule decode_encode_obj[OF assms(1)])
  fix k :: nat assume k: "k < 72"
  then have "(72 * m + k) div 72 = m" "(72 * m + k) mod 72 = k" by simp_all
  moreover have "72 * m + k < 50 * 72" using assms(2) k by simp
  ultimately show "copy_objs_out objs i b (72 * m + k) = obj_byte (objs (i * 50 + m)) k"
    by (simp add: copy_objs_out_def)
qed

section \<open>The transfer loops\<close>

lemma load_bmp_ok:
  assumes "io_ok s" "\<forall>i \<in> set is. i < disk_len s \<and> i < 2 ^ 32"
  shows "load_bmp s (page_addr p) is rb = (0, \<lambda>i. if i \<in> set is then disk s i else rb i)"
  using assms(2)
proof (induction "is" arbitrary: rb)
  case (Cons i "is")
  then have rd: "read_block s (of_nat i) (page_addr (p + of_nat i)) (rb i) = (0, disk s i)"
    using read_block_nat[OF assms(1), of i] by simp
  show ?case using Cons by (simp add: rd fun_eq_iff)
qed simp

lemma load_objs_ok:
  assumes "io_ok s" "\<forall>i \<in> set is. i + BLK_BMP_BLOCKS < disk_len s \<and> i + BLK_BMP_BLOCKS < 2 ^ 32"
  shows "load_objs s (page_addr p) is b objs =
    (0, \<lambda>m. if m div OBJ_PER_BLOCK \<in> set is
            then decode_obj (disk s (m div OBJ_PER_BLOCK + BLK_BMP_BLOCKS)) (m mod OBJ_PER_BLOCK) else objs m)"
  using assms(2)
proof (induction "is" arbitrary: b objs)
  case (Cons i "is")
  then have rd: "read_block s (of_nat (i + 256)) (page_addr p) b = (0, disk s (i + 256))"
    using read_block_nat[OF assms(1), of "i + 256"] by simp
  have range: "i * 50 \<le> m \<and> m < i * 50 + 50 \<longleftrightarrow> m div 50 = i" for m :: nat by auto
  have "m - i * 50 = m mod 50" if "m div 50 = i" for m
    using that by (auto simp: minus_div_mult_eq_mod[symmetric] mult.commute)
  with Cons show ?case
    by (simp add: rd copy_objs_in_def range fun_eq_iff del: of_nat_add)
qed simp

lemma store_bmp_ok:
  assumes "\<forall>i \<in> set is. i < 2 ^ 32"
  shows "io_ok s \<Longrightarrow> \<exists>n \<ge> disk_len s. store_bmp (page_addr p) rb is s =
    (0, s\<lparr>disk := \<lambda>b. if b \<in> set is then rb b else disk s b, disk_len := n\<rparr>)"
  using assms
proof (induction "is" arbitrary: s)
  case (Cons i "is")
  let ?s = "s\<lparr>disk := (disk s)(i := rb i), disk_len := max (disk_len s) (Suc i)\<rparr>"
  have wr: "write_block s (of_nat i) (page_addr (p + of_nat i)) (rb i) = (0, ?s)"
    using write_block_nat[OF Cons.prems(1), of i] Cons.prems(2) by simp
  have "io_ok ?s" using Cons.prems(1) by (simp add: io_ok_def)
  from Cons.IH[OF this] Cons.prems(2) obtain n where n: "n \<ge> disk_len ?s"
      "store_bmp (page_addr p) rb is ?s = (0, ?s\<lparr>disk := \<lambda>b. if b \<in> set is then rb b else disk ?s b, disk_len := n\<rparr>)"
    by auto
  have "(\<lambda>b. if b \<in> set is then rb b else disk ?s b) = (\<lambda>b. if b \<in> set (i # is) then rb b else disk s b)"
    by auto
  with n wr show ?case by (intro exI[of _ n]) simp
qed auto

lemma obj_blk_dirty_iff:
  assumes "i < OBJ_BLOCKS"
  shows "obj_blk_dirty s i \<longleftrightarrow> (\<exists>m. m div OBJ_PER_BLOCK = i \<and> m \<in> dirty s)"
proof -
  have one: "drop_bit n (w :: u64) AND 1 \<noteq> 0 \<longleftrightarrow> bit w n" for n w
    by (simp add: and_one_eq bit_iff_odd_drop_bit even_iff_mod_2_eq_zero)
  have "(\<exists>m. m div 50 = i \<and> m \<in> dirty s) \<longleftrightarrow> (\<exists>j<50. i * 50 + j \<in> dirty s)"
  proof
    assume "\<exists>m. m div 50 = i \<and> m \<in> dirty s"
    then obtain m where "m div 50 = i" "m \<in> dirty s" by blast
    then show "\<exists>j<50. i * 50 + j \<in> dirty s"
      by (intro exI[of _ "m mod 50"]) (auto simp: div_mult_mod_eq)
  next
    assume "\<exists>j<50. i * 50 + j \<in> dirty s"
    then obtain j where "j < 50" "i * 50 + j \<in> dirty s" by blast
    then show "\<exists>m. m div 50 = i \<and> m \<in> dirty s"
      by (intro exI[of _ "i * 50 + j"]) simp
  qed
  moreover have "i * 50 + j < 64 * OBJ_BMP_LN" if "j < 50" for j using that assms by simp
  ultimately show ?thesis
    by (auto simp: obj_blk_dirty_def list_ex_iff Let_def one dirty_def)
qed

lemma obj_blk_dirty_disk [simp]: "obj_blk_dirty (s\<lparr>disk := d, disk_len := n\<rparr>) = obj_blk_dirty s"
  by (simp add: obj_blk_dirty_def fun_eq_iff)

text \<open>What the object loop leaves on disk: the blocks that held a dirty object, freshly encoded.\<close>

definition objs_stored :: "objfs_state \<Rightarrow> nat set \<Rightarrow> (nat \<Rightarrow> buffer) \<Rightarrow> bool" where
  "objs_stored s I d \<longleftrightarrow>
     (\<forall>k. k \<notin> (\<lambda>i. i + BLK_BMP_BLOCKS) ` {i \<in> I. obj_blk_dirty s i} \<longrightarrow> d k = disk s k) \<and>
     (\<forall>i \<in> I. obj_blk_dirty s i \<longrightarrow> (\<exists>b'. d (i + BLK_BMP_BLOCKS) = copy_objs_out (objects s) i b'))"

lemma store_objs_ok:
  assumes "distinct is" "\<forall>i \<in> set is. i < OBJ_BLOCKS"
  shows "io_ok s \<Longrightarrow> \<exists>d n. disk_len s \<le> n \<and> store_objs (page_addr p) is b s = (0, s\<lparr>disk := d, disk_len := n\<rparr>) \<and>
    objs_stored s (set is) d"
  using assms
proof (induction "is" arbitrary: s b)
  case Nil
  show ?case by (intro exI[of _ "disk s"] exI[of _ "disk_len s"]) (simp add: objs_stored_def)
next
  case (Cons i "is")
  from Cons.prems have i: "i \<notin> set is" "i < OBJ_BLOCKS" and "is": "distinct is" "\<forall>i \<in> set is. i < OBJ_BLOCKS"
    by auto
  show ?case
  proof (cases "obj_blk_dirty s i")
    case False
    from Cons.IH[OF Cons.prems(1) "is", of b] obtain d n where dn: "disk_len s \<le> n"
      "store_objs (page_addr p) is b s = (0, s\<lparr>disk := d, disk_len := n\<rparr>)" "objs_stored s (set is) d"
      by blast
    have "objs_stored s (set (i # is)) d"
      using dn(3) False by (auto simp: objs_stored_def image_iff)
    with dn False show ?thesis by (intro exI[of _ d] exI[of _ n]) simp
  next
    case True
    let ?b = "copy_objs_out (objects s) i b"
    let ?s = "s\<lparr>disk := (disk s)(i + 256 := ?b), disk_len := max (disk_len s) (Suc (i + 256))\<rparr>"
    have wr: "write_block s (of_nat (i + 256)) (page_addr p) ?b = (0, ?s)"
      using write_block_nat[OF Cons.prems(1), of "i + 256"] i by simp
    have "io_ok ?s" using Cons.prems(1) by (simp add: io_ok_def)
    from Cons.IH[OF this "is", of ?b] obtain d n where dn: "disk_len ?s \<le> n"
      "store_objs (page_addr p) is ?b ?s = (0, ?s\<lparr>disk := d, disk_len := n\<rparr>)" "objs_stored ?s (set is) d"
      by blast
    have off: "i + 256 \<notin> (\<lambda>i. i + 256) ` {j \<in> set is. obj_blk_dirty s j}" using i by auto
    then have "d (i + 256) = ?b" using dn(3) by (simp add: objs_stored_def)
    moreover have "d k = disk s k" if "k \<notin> (\<lambda>i. i + 256) ` {j \<in> set (i # is). obj_blk_dirty s j}" for k
    proof -
      have "k \<noteq> i + 256" "k \<notin> (\<lambda>i. i + 256) ` {j \<in> set is. obj_blk_dirty s j}" using that True by auto
      then show ?thesis using dn(3) by (simp add: objs_stored_def)
    qed
    ultimately have "objs_stored s (set (i # is)) d"
      using dn(3) by (auto simp: objs_stored_def)
    moreover have "store_objs (page_addr p) (i # is) b s = (0, s\<lparr>disk := d, disk_len := n\<rparr>)"
      using True wr dn(2) by (simp add: Let_def del: of_nat_add)
    ultimately show ?thesis
      using dn(1) by (intro exI[of _ d] exI[of _ n]) simp
  qed
qed

section \<open>The reserved blocks\<close>

lemma mark_reserved_at:
  "mark_reserved n bm i j =
     (if i \<le> j \<and> j < i + n \<and> j * 64 < RES_BLOCKS then reserve_word j (bm j) else bm j)"
proof (induction n arbitrary: bm i)
  case (Suc n)
  then show ?case by (cases "j = i") auto
qed auto

lemma mark_reserved_bit:
  assumes "b < 64 * BLK_BMP_LN"
  shows "bit (mark_reserved BLK_BMP_LN bm 0 (b div 64)) (b mod 64) \<longleftrightarrow>
    b < RES_BLOCKS \<or> bit (bm (b div 64)) (b mod 64)"
proof -
  define i where "i = b div 64"
  have lt: "i < BLK_BMP_LN" using assms by (auto simp: i_def)
  have b: "b = 64 * i + b mod 64" by (simp add: i_def)
  have m: "b mod 64 < 64" by simp
  have word: "bit (reserve_word i w) (b mod 64) \<longleftrightarrow> b < RES_BLOCKS \<or> bit w (b mod 64)"
    if "i * 64 < RES_BLOCKS" for w
  proof (cases "i < 316")
    case True
    then have "b < RES_BLOCKS" using b m by linarith
    with True show ?thesis by (simp add: reserve_word_def bit_simps)
  next
    case False
    with that have i: "i = 316" by simp
    then have "b < RES_BLOCKS \<longleftrightarrow> b mod 64 < 32" using b by linarith
    moreover have "reserve_word i w = w OR mask 32"
      using i by (simp add: reserve_word_def mask_eq_exp_minus_1)
    ultimately show ?thesis by (simp add: bit_simps) auto
  qed
  show ?thesis
  proof (cases "i * 64 < RES_BLOCKS")
    case True
    with lt word[OF True] show ?thesis by (simp add: mark_reserved_at i_def[symmetric])
  next
    case False
    then have "\<not> b < RES_BLOCKS" using b by linarith
    with False show ?thesis by (simp add: mark_reserved_at i_def[symmetric])
  qed
qed

section \<open>What a mount finds\<close>

lemma objstore_init_ok:
  assumes io: "io_ok s" and len: "RES_BLOCKS \<le> disk_len s"
    and mem: "mmap_page s DATA_SIZEOF \<noteq> None" "mmap_page s BMP_BUF_SIZE \<noteq> None"
  shows "\<exists>s'. objstore_init c s = Some (0, s') \<and> mounted s' \<and>
    (\<forall>m<MAX_OBJS. objects s' m =
       decode_obj (disk s (m div OBJ_PER_BLOCK + BLK_BMP_BLOCKS)) (m mod OBJ_PER_BLOCK)) \<and>
    blk_bmp s' = mark_reserved BLK_BMP_LN (bmp_of_buf (\<lambda>n. if n < BLK_BMP_BLOCKS then disk s n else zero_buf)) 0 \<and>
    dirty s' = {} \<and> cache_info s' = (\<lambda>_. 0) \<and> disk s' = disk s \<and> disk_len s' = disk_len s \<and> io_ok s'"
proof -
  obtain p q where pq: "mmap_page s DATA_SIZEOF = Some p" "mmap_page s BMP_BUF_SIZE = Some q"
    using mem by auto
  let ?s0 = "s\<lparr>mounted := True, objects := \<lambda>_. zero_obj, obj_bmp := \<lambda>_. 0, blk_bmp := \<lambda>_. 0, cache_info := \<lambda>_. 0\<rparr>"
  let ?rb = "\<lambda>n. if n < BLK_BMP_BLOCKS then disk s n else zero_buf"
  let ?s1 = "?s0\<lparr>blk_bmp := mark_reserved BLK_BMP_LN (bmp_of_buf ?rb) 0\<rparr>"
  have io0: "io_ok ?s0" and io1: "io_ok ?s1" using io by (simp_all add: io_ok_def)
  have lb: "load_bmp ?s0 (page_addr q) [0 ..< 256] (\<lambda>_. zero_buf) = (0, ?rb)"
    using load_bmp_ok[OF io0, of "[0 ..< 256]" q] len by (simp cong: if_cong)
  let ?objs = "\<lambda>m. if m div 50 \<in> set [0 ..< 20000] then decode_obj (disk s (m div 50 + 256)) (m mod 50) else zero_obj"
  have lo: "load_objs ?s1 (page_addr q) [0 ..< 20000] (?rb 0) (objects ?s1) = (0, ?objs)"
    using load_objs_ok[OF io1, of "[0 ..< 20000]" q "?rb 0" "objects ?s1"] len by (simp cong: if_cong)
  let ?s2 = "?s1\<lparr>objects := ?objs\<rparr>"
  have "objstore_init c s = Some (0, if c then ?s2\<lparr>cache_info := \<lambda>_. 0\<rparr> else ?s2)"
    unfolding objstore_init_def using pq lb lo by (simp add: cmalloc_def Let_def)
  moreover have "m div 50 \<in> set [0 ..< 20000]" if "m < 1000000" for m :: nat using that by auto
  ultimately show ?thesis
    using io by (intro exI[of _ "?s2"]) (auto simp: dirty_def io_ok_def)
qed

section \<open>What an unmount leaves\<close>

lemma flush_cache_block0:
  "io_ok s \<Longrightarrow> \<exists>d n. flush_cache is s = s\<lparr>disk := d, disk_len := n\<rparr> \<and> disk_len s \<le> n \<and>
     (\<forall>k. k \<noteq> 0 \<longrightarrow> d k = disk s k)"
proof (induction "is" arbitrary: s)
  case Nil
  show ?case by (intro exI[of _ "disk s"] exI[of _ "disk_len s"]) simp
next
  case (Cons i "is")
  show ?case
  proof (cases "cache_info s i = 0")
    case True
    let ?t = "s\<lparr>disk := (disk s)(0 := cache s i), disk_len := max (disk_len s) 1\<rparr>"
    have "(cache_info s)(i := 0) = cache_info s" using True by auto
    then have t: "snd (flush_ch_blk s i) = ?t"
      using True flush_ch_blk_ok[OF Cons.prems, of i] by simp
    have "io_ok ?t" using Cons.prems by (simp add: io_ok_def)
    from Cons.IH[OF this] obtain d n where "flush_cache is ?t = ?t\<lparr>disk := d, disk_len := n\<rparr>"
      "disk_len ?t \<le> n" "\<forall>k. k \<noteq> 0 \<longrightarrow> d k = disk ?t k" by blast
    then show ?thesis using True t by (intro exI[of _ d] exI[of _ n]) simp
  next
    case False
    with Cons.IH[OF Cons.prems] show ?thesis by simp
  qed
qed

definition table_written :: "objfs_state \<Rightarrow> (nat \<Rightarrow> buffer) \<Rightarrow> bool" where
  "table_written s d \<longleftrightarrow>
     (\<forall>i<OBJ_BLOCKS. (obj_blk_dirty s i \<longrightarrow> (\<exists>b. d (i + BLK_BMP_BLOCKS) = copy_objs_out (objects s) i b)) \<and>
        (\<not> obj_blk_dirty s i \<longrightarrow> d (i + BLK_BMP_BLOCKS) = disk s (i + BLK_BMP_BLOCKS)))"

lemma objstore_destroy_ok:
  assumes io: "io_ok s" and mem: "mmap_page s BMP_BUF_SIZE \<noteq> None"
  shows "\<exists>d n. objstore_destroy c s = (0, s\<lparr>disk := d, disk_len := n, mounted := False\<rparr>) \<and> disk_len s \<le> n \<and>
    (\<forall>k<BLK_BMP_BLOCKS. d k = buf_of_bmp (blk_bmp s) k) \<and> (\<forall>k\<ge>RES_BLOCKS. d k = disk s k) \<and>
    table_written s d"
proof -
  obtain q where q: "mmap_page s BMP_BUF_SIZE = Some q" using mem by auto
  obtain d1 n1 where s1: "(if c then flush_cache [0 ..< CACHE_LEN] s else s) = s\<lparr>disk := d1, disk_len := n1\<rparr>"
      "disk_len s \<le> n1" "\<forall>k. k \<noteq> 0 \<longrightarrow> d1 k = disk s k"
  proof (cases c)
    case True
    with flush_cache_block0[OF io, of "[0 ..< CACHE_LEN]"] that show ?thesis by auto
  next
    case False
    with that[of "disk_len s" "disk s"] show ?thesis by simp
  qed
  let ?s1 = "s\<lparr>disk := d1, disk_len := n1\<rparr>"
  let ?rb = "buf_of_bmp (blk_bmp s)"
  have io1: "io_ok ?s1" using io by (simp add: io_ok_def)
  obtain n2 where n2: "n1 \<le> n2" "store_bmp (page_addr q) ?rb [0 ..< 256] ?s1 =
      (0, ?s1\<lparr>disk := \<lambda>b. if b \<in> set [0 ..< 256] then ?rb b else d1 b, disk_len := n2\<rparr>)"
    using store_bmp_ok[OF _ io1, of "[0 ..< 256]" q ?rb] by (auto cong: if_cong)
  let ?d2 = "\<lambda>b. if b < 256 then ?rb b else d1 b"
  let ?s2 = "s\<lparr>disk := ?d2, disk_len := n2\<rparr>"
  have s2: "store_bmp (page_addr q) ?rb [0 ..< 256] ?s1 = (0, ?s2)" using n2(2) by simp
  have io2: "io_ok ?s2" using io by (simp add: io_ok_def)
  have "distinct [0 ..< 20000]" "\<forall>i \<in> set [0 ..< 20000]. i < OBJ_BLOCKS" by simp_all
  from store_objs_ok[OF this io2, of q "?rb 0"] obtain d n where dn: "n2 \<le> n"
      "store_objs (page_addr q) [0 ..< 20000] (?rb 0) ?s2 = (0, ?s2\<lparr>disk := d, disk_len := n\<rparr>)"
      "objs_stored ?s2 (set [0 ..< 20000]) d" by auto
  have "objstore_destroy c s = (0, s\<lparr>disk := d, disk_len := n, mounted := False\<rparr>)"
    unfolding objstore_destroy_def using s1(1) q s2 dn(2) by (simp add: cmalloc_def Let_def)
  moreover have "d k = ?d2 k" if "k < 256 \<or> 20256 \<le> k" for k
  proof -
    have "k \<notin> (\<lambda>i. i + 256) ` {i \<in> set [0 ..< 20000]. obj_blk_dirty ?s2 i}" using that by auto
    then show ?thesis using dn(3) by (simp add: objs_stored_def)
  qed
  moreover have "d (i + 256) = disk s (i + 256)" if "\<not> obj_blk_dirty s i" for i
  proof -
    have "i + 256 \<notin> (\<lambda>i. i + 256) ` {i \<in> set [0 ..< 20000]. obj_blk_dirty ?s2 i}" using that by auto
    then show ?thesis using dn(3) s1(3) by (simp add: objs_stored_def)
  qed
  then have "table_written s d"
    using dn(3) by (auto simp: objs_stored_def table_written_def)
  ultimately show ?thesis
    using s1 n2(1) dn(1) by (intro exI[of _ d] exI[of _ n]) auto
qed

section \<open>Unmounting and mounting again\<close>

text \<open>
  What the running store keeps true about the table on disk: an object that differs from its
  bytes on disk is marked in the object bitmap.
\<close>

definition clean_on_disk :: "objfs_state \<Rightarrow> bool" where
  "clean_on_disk s \<longleftrightarrow>
     (\<forall>m<MAX_OBJS. m \<notin> dirty s \<longrightarrow>
        decode_obj (disk s (m div OBJ_PER_BLOCK + BLK_BMP_BLOCKS)) (m mod OBJ_PER_BLOCK) = objects s m)"

definition can_remount :: "objfs_state \<Rightarrow> bool" where
  "can_remount s \<longleftrightarrow> io_ok s \<and> RES_BLOCKS \<le> disk_len s \<and>
     mmap_page s DATA_SIZEOF \<noteq> None \<and> mmap_page s BMP_BUF_SIZE \<noteq> None \<and>
     (\<forall>m<MAX_OBJS. wf_obj (objects s m)) \<and> {..<RES_BLOCKS} \<subseteq> used s \<and> clean_on_disk s"

lemma used_remount:
  assumes "{..<RES_BLOCKS} \<subseteq> used s"
    and "blk_bmp t = mark_reserved BLK_BMP_LN (bmp_of_buf f) 0"
    and "\<forall>n<BLK_BMP_BLOCKS. f n = buf_of_bmp (blk_bmp s) n"
  shows "used t = used s"
proof -
  have "bmp_of_buf f i = blk_bmp s i" if "i < BLK_BMP_LN" for i
  proof -
    have "i div 512 < BLK_BMP_BLOCKS" using that by auto
    then have "bmp_of_buf f i = bmp_of_buf (buf_of_bmp (blk_bmp s)) i"
      using assms(3) by (simp add: bmp_of_buf_def)
    then show ?thesis by (simp add: bmp_roundtrip)
  qed
  then have "bit (bmp_of_buf f (b div 64)) (b mod 64) \<longleftrightarrow> bit (blk_bmp s (b div 64)) (b mod 64)"
    if "b < 64 * BLK_BMP_LN" for b
    using that by (metis less_mult_imp_div_less mult.commute)
  then show ?thesis
    using assms(1,2) mark_reserved_bit by (auto simp: used_def)
qed

lemma objects_remount:
  assumes wf: "\<forall>m<MAX_OBJS. wf_obj (objects s m)" and clean: "clean_on_disk s"
    and d: "table_written s d"
    and m: "m < MAX_OBJS"
  shows "decode_obj (d (m div OBJ_PER_BLOCK + BLK_BMP_BLOCKS)) (m mod OBJ_PER_BLOCK) = objects s m"
proof -
  have i: "m div 50 < OBJ_BLOCKS" using m by auto
  show ?thesis
  proof (cases "obj_blk_dirty s (m div 50)")
    case True
    with d i obtain b where "d (m div 50 + 256) = copy_objs_out (objects s) (m div 50) b"
      unfolding table_written_def by blast
    moreover have "wf_obj (objects s (m div 50 * 50 + m mod 50))" using wf m by simp
    ultimately show ?thesis
      using objs_roundtrip[of "objects s" "m div 50" "m mod 50" b] by simp
  next
    case False
    with obj_blk_dirty_iff[OF i] have "m \<notin> dirty s" by blast
    with clean m False d i show ?thesis by (simp add: clean_on_disk_def table_written_def)
  qed
qed

lemma remount_general:
  assumes "can_remount s"
  shows "\<exists>s1 s2. objstore_destroy c s = (0, s1) \<and> objstore_init c s1 = Some (0, s2) \<and> mounted s2 \<and>
    (\<forall>m<MAX_OBJS. objects s2 m = objects s m) \<and> used s2 = used s \<and> dirty s2 = {} \<and>
    cache_info s2 = (\<lambda>_. 0) \<and> (\<forall>b\<ge>RES_BLOCKS. disk s2 b = disk s b)"
proof -
  have io: "io_ok s" and mem: "mmap_page s BMP_BUF_SIZE \<noteq> None" using assms by (simp_all add: can_remount_def)
  obtain d n where dn: "objstore_destroy c s = (0, s\<lparr>disk := d, disk_len := n, mounted := False\<rparr>)" "disk_len s \<le> n"
      "\<forall>k<BLK_BMP_BLOCKS. d k = buf_of_bmp (blk_bmp s) k" "\<forall>k\<ge>RES_BLOCKS. d k = disk s k"
      "table_written s d"
    using objstore_destroy_ok[OF io mem, of c] by blast
  let ?s1 = "s\<lparr>disk := d, disk_len := n, mounted := False\<rparr>"
  have "io_ok ?s1" "RES_BLOCKS \<le> disk_len ?s1" "mmap_page ?s1 DATA_SIZEOF \<noteq> None" "mmap_page ?s1 BMP_BUF_SIZE \<noteq> None"
    using assms dn(2) by (auto simp: can_remount_def io_ok_def)
  from objstore_init_ok[OF this, of c] obtain s2 where s2: "objstore_init c ?s1 = Some (0, s2)" "mounted s2"
      "\<forall>m<MAX_OBJS. objects s2 m =
        decode_obj (disk ?s1 (m div OBJ_PER_BLOCK + BLK_BMP_BLOCKS)) (m mod OBJ_PER_BLOCK)"
      "blk_bmp s2 = mark_reserved BLK_BMP_LN (bmp_of_buf (\<lambda>n. if n < BLK_BMP_BLOCKS then disk ?s1 n else zero_buf)) 0"
      "dirty s2 = {}" "cache_info s2 = (\<lambda>_. 0)" "disk s2 = disk ?s1"
    by blast
  have "objects s2 m = objects s m" if "m < MAX_OBJS" for m
    using s2(3) that objects_remount[OF _ _ dn(5) that] assms by (simp add: can_remount_def)
  moreover have "used s2 = used s"
    using used_remount[OF _ s2(4)] assms dn(3) by (simp add: can_remount_def)
  ultimately show ?thesis using dn(1,4) s2 by auto
qed

end
