(* ===== verification/Demo.thy ===== *)
theory Demo
  imports Reading Mount
begin

text \<open>
  A concrete mounted store, on which the hypotheses of the theorems about
  \<open>assignment-4/objstore.c\<close> hold: a zeroed image of 1 GB that never fails, with one object
  named \<open>a\<close> of one block, the first one behind the reserved area.
\<close>

definition demo_stat :: stat where
  "demo_stat = \<lparr>st_ino = 1, st_mode = 0, st_uid = 0, st_gid = 0, st_size = 0, st_blocks = 0\<rparr>"

definition demo_obj :: obj where
  "demo_obj = \<lparr>obj_size = 4096, obj_key = 97 # replicate 31 0, obj_direct = [20256, 0, 0, 0],
     obj_indirect = replicate 4 0\<rparr>"

definition demo_fs :: objfs_state where
  "demo_fs = \<lparr>disk = \<lambda>_. zero_buf, disk_len = 262144, pread_fails = \<lambda>_. False, pwrite_fails = \<lambda>_. False,
     mmap_page = \<lambda>_. Some 1, def_fstat = demo_stat, def_dirstat = demo_stat,
     cache_page = 2, cache = \<lambda>_. zero_buf, objects = (\<lambda>_. zero_obj)(0 := demo_obj),
     obj_bmp = (\<lambda>_. 0)(0 := 1), blk_bmp = \<lambda>i. if i < 316 then -1 else if i = 316 then mask 33 else 0,
     cache_info = \<lambda>_. 0, mounted = True\<rparr>"

lemma demo_used: "used demo_fs = {..<20257}"
proof -
  have key: "bit (blk_bmp demo_fs (b div 64)) (b mod 64) \<longleftrightarrow> b < 20257" for b
  proof -
    have eq: "b = 64 * (b div 64) + b mod 64" and m: "b mod 64 < 64" by simp_all
    consider "b div 64 < 316" | "b div 64 = 316" | "316 < b div 64" by linarith
    then show ?thesis
    proof cases
      case 1
      then have "b < 20257" by linarith
      with 1 show ?thesis by (simp add: demo_fs_def bit_simps)
    next
      case 2
      then have "b < 20257 \<longleftrightarrow> b mod 64 < 33" using eq by linarith
      with 2 show ?thesis by (simp add: demo_fs_def bit_mask_iff)
    next
      case 3
      then have "\<not> b < 20257" by linarith
      with 3 show ?thesis by (simp add: demo_fs_def)
    qed
  qed
  show ?thesis unfolding used_def key by auto
qed

lemma demo_objects [simp]: "objects demo_fs = (\<lambda>_. zero_obj)(0 := demo_obj)"
  by (simp add: demo_fs_def)

lemma demo_io: "io_ok demo_fs" "blk_inv c demo_fs" "mmap_page demo_fs n = Some 1" "disk_len demo_fs = 262144"
  by (simp_all add: demo_fs_def io_ok_def blk_inv_def)

lemma demo_names: "names demo_fs = (\<lambda>i. if i = 0 then Some [97] else None)"
  by (auto simp: names_def demo_obj_def zero_obj_def cstr_def fun_eq_iff)

lemma demo_name: "names demo_fs 0 = Some [97]" "\<forall>i. names demo_fs i \<noteq> Some [98]"
  by (simp_all add: demo_names)

lemma demo_ptr: "slot_ok sl \<Longrightarrow> ptr c demo_fs ob sl = (if ob = 0 \<and> sl = Dir 0 then 20256 else 0)"
proof (cases sl)
  case (Dir i)
  assume "slot_ok sl"
  then have "i = 0 \<or> i = 1 \<or> i = 2 \<or> i = 3" using Dir by auto
  then show ?thesis using Dir by (auto simp: demo_obj_def zero_obj_def)
qed (auto simp: demo_obj_def zero_obj_def)

lemma demo_owned: "owned c demo_fs = {(0, Dir 0)}"
proof -
  have "ob < MAX_OBJS \<and> slot_ok sl \<and> ptr c demo_fs ob sl \<noteq> 0 \<longleftrightarrow> ob = 0 \<and> sl = Dir 0" for ob sl
    using demo_ptr[of sl c ob] by (cases "slot_ok sl") auto
  then show ?thesis by (auto simp: owned_def)
qed

lemma demo_dir: "dir_inv demo_fs"
proof -
  have "wf_obj (objects demo_fs i) \<and> (obj_size (objects demo_fs i) = 0 \<longleftrightarrow> cstr (obj_key (objects demo_fs i)) = [])" for i
    by (cases "i = 0") (simp_all add: wf_obj_def demo_obj_def zero_obj_def cstr_def)
  moreover have "inj_on (names demo_fs) (dom (names demo_fs))"
    by (auto simp: demo_names inj_on_def split: if_splits)
  ultimately show ?thesis by (simp add: dir_inv_def)
qed

lemma demo_inv: "store_inv c demo_fs"
proof -
  have "ptr_ok c demo_fs 20256" by (simp add: ptr_ok_def demo_used blk_readable_def demo_io)
  then show ?thesis
    by (auto simp: store_inv_def demo_io demo_dir demo_used demo_owned demo_names demo_obj_def)
qed

lemma demo_nfree: "nfree demo_fs = 8368351"
proof -
  have "alloc_range - used demo_fs = {20257 ..< 8388608}" by (auto simp: alloc_range_def demo_used)
  then show ?thesis by (simp add: nfree_def)
qed

lemma demo_free_slot: "free_slot demo_fs = Some 1"
proof -
  have a: "[0 ..< MAX_OBJS] = 0 # [Suc 0 ..< MAX_OBJS]" by (rule upt_conv_Cons) simp
  have b: "[Suc 0 ..< MAX_OBJS] = Suc 0 # [Suc (Suc 0) ..< MAX_OBJS]" by (rule upt_conv_Cons) simp
  show ?thesis unfolding free_slot_def a b by (simp add: demo_obj_def zero_obj_def del: upt_conv_Cons)
qed

lemma demo_remount: "can_remount demo_fs"
proof -
  have z: "decode_obj zero_buf m = zero_obj" for m
    by (simp add: decode_obj_def zero_obj_def u64_at_def zero_buf_def u32_at_def map_replicate_const)
  have "0 \<in> dirty demo_fs" by (simp add: dirty_def demo_fs_def)
  then have "clean_on_disk demo_fs" by (auto simp: clean_on_disk_def z) (simp add: demo_fs_def z)
  moreover have "wf_obj (objects demo_fs m)" if "m < MAX_OBJS" for m using demo_dir that by (simp add: dir_inv_def)
  ultimately show ?thesis by (simp add: can_remount_def demo_io demo_used)
qed

lemma demo_keys: "valid_key [97, 0]" "valid_key [98, 0]" "cstr [97, 0 :: byte] = [97]" "cstr [98, 0 :: byte] = [98]"
  "valid_key (98 # replicate 31 0)" "cstr (98 # replicate 31 (0 :: byte)) = [98]"
  by (simp_all add: valid_key_def cstr_def)

end
