(* ===== verification/Objstore.thy ===== *)
theory Objstore
  imports Demo
begin

text \<open>
  What \<open>assignment-4/objstore.c\<close> promises to its caller, over the operations as a whole: round
  trips of contents and of the table, the frame of each operation, and the inputs on which the
  code does not do what it means to.
\<close>

section \<open>Contents\<close>

text \<open>
  C2: what \<open>objstore_write\<close> puts into an object, \<open>objstore_read\<close> delivers: for a live object, a
  transfer of \<open>n > 0\<close> bytes that either starts on a block boundary or stays inside one block and
  ends inside the maximal size, and enough free blocks, the write reports \<open>n\<close> bytes, and a read of
  the same range fills the caller's buffer with exactly the written bytes and leaves the rest of
  it alone. In both builds the invariant of the store holds in between and after.
\<close>

theorem write_read_roundtrip:
  assumes "store_inv c s" "names s ob \<noteq> None" "0 < n" "fits off n" "off + n \<le> 16793600"
    "n div BLOCK_SIZE + 5 \<le> nfree s"
  shows "\<exists>s1 s2. objstore_write c (int ob + 2) buf (int n) s (int off) = Some (int n, s1) \<and>
    objstore_read c (int ob + 2) old (int n) s1 (int off) =
      Some (int n, s2, \<lambda>x. if x < n then buf x else old x) \<and>
    store_inv c s1 \<and> store_inv c s2"
proof -
  obtain s1 where w: "objstore_write c (int ob + 2) buf (int n) s (int off) = Some (int n, s1)" "store_inv c s1"
      "\<forall>x<n. ptr c s1 ob (slot_of ((off + x) div BLOCK_SIZE)) \<noteq> 0 \<and> content c s1 ob (off + x) = buf x"
      "\<forall>i<4. BLOCK_SIZE * base i < off + n \<longrightarrow> ptr c s1 ob (Ind i) \<noteq> 0"
    using objstore_write_result[OF assms, of buf] by blast
  have ob: "ob < MAX_OBJS" using assms(2) names_bound by blast
  have "dense c s1 ob off n" using w(3,4) unfolding dense_def by blast
  then obtain s2 where r: "objstore_read c (int ob + 2) old (int n) s1 (int off) =
      Some (int n, s2, \<lambda>x. if x < n then content c s1 ob (off + x) else old x)" "only_read c s1 s2"
    using objstore_read_result[OF w(2) ob assms(3-5)] by blast
  have "(\<lambda>x. if x < n then content c s1 ob (off + x) else old x) = (\<lambda>x. if x < n then buf x else old x)"
    using w(3) by (simp add: fun_eq_iff)
  then have "objstore_read c (int ob + 2) old (int n) s1 (int off) = Some (int n, s2, \<lambda>x. if x < n then buf x else old x)"
    using r(1) by (simp only:)
  then show ?thesis using w(1,2) store_inv_only_read[OF w(2) r(2)] by blast
qed

theorem write_read_roundtrip_witness:
  "\<exists>s1 s2. objstore_write True 2 (\<lambda>_. 7) 100 demo_fs 4096 = Some (100, s1) \<and>
    objstore_read True 2 zero_buf 100 s1 4096 = Some (100, s2, \<lambda>x. if x < 100 then 7 else zero_buf x) \<and>
    store_inv True s1 \<and> store_inv True s2"
  using write_read_roundtrip[of True demo_fs 0 100 4096 "\<lambda>_. 7" zero_buf]
  by (simp add: demo_inv demo_names fits_def demo_nfree)

text \<open>
  C3: a write changes nothing but the object it writes to: every other object keeps its entry, its
  pointers and the contents of its blocks; no name changes; the bytes of the object in front of
  the write and in blocks it does not touch stay; blocks are only taken from the free ones, and
  each newly marked block is reached from the object (none is leaked).
\<close>

theorem write_frame:
  assumes "store_inv c s" "names s ob \<noteq> None" "0 < n" "fits off n" "off + n \<le> 16793600"
    "n div BLOCK_SIZE + 5 \<le> nfree s"
  shows "\<exists>s'. objstore_write c (int ob + 2) buf (int n) s (int off) = Some (int n, s') \<and> store_inv c s' \<and>
    names s' = names s \<and> obj_size (objects s' ob) = of_nat (off + n) \<and> dirty s' = insert ob (dirty s) \<and>
    (\<forall>x<16793600. x < off \<or> \<not> touched off n (x div BLOCK_SIZE) \<longrightarrow> ptr c s ob (slot_of (x div BLOCK_SIZE)) \<noteq> 0 \<longrightarrow>
       content c s' ob x = content c s ob x) \<and>
    (\<forall>m<MAX_OBJS. m \<noteq> ob \<longrightarrow> objects s' m = objects s m \<and>
       (\<forall>sl. slot_ok sl \<longrightarrow> ptr c s' m sl = ptr c s m sl \<and>
          (ptr c s m sl \<noteq> 0 \<longrightarrow> blk_view c s' (ptr c s m sl) = blk_view c s (ptr c s m sl)))) \<and>
    used s \<subseteq> used s' \<and> used s' \<subseteq> used s \<union> blocks_of c s' ob"
proof -
  obtain s' where w: "objstore_write c (int ob + 2) buf (int n) s (int off) = Some (int n, s')" "store_inv c s'"
      "names s' = names s" "obj_size (objects s' ob) = of_nat (off + n)" "dirty s' = insert ob (dirty s)"
      "\<forall>x<16793600. x < off \<or> \<not> touched off n (x div BLOCK_SIZE) \<longrightarrow> ptr c s ob (slot_of (x div BLOCK_SIZE)) \<noteq> 0 \<longrightarrow>
         ptr c s' ob (slot_of (x div BLOCK_SIZE)) \<noteq> 0 \<and> content c s' ob x = content c s ob x"
      "\<forall>m<MAX_OBJS. m \<noteq> ob \<longrightarrow> objects s' m = objects s m \<and>
         (\<forall>sl. slot_ok sl \<longrightarrow> ptr c s' m sl = ptr c s m sl \<and>
            (ptr c s m sl \<noteq> 0 \<longrightarrow> blk_view c s' (ptr c s m sl) = blk_view c s (ptr c s m sl)))"
      "used s \<subseteq> used s'" "used s' \<subseteq> used s \<union> blocks_of c s' ob"
    using objstore_write_result[OF assms, of buf] by (elim exE conjE) (rule that)
  show ?thesis by (intro exI[of _ s'] conjI w(1-5,7-9)) (use w(6) in blast)
qed

theorem write_frame_witness:
  "\<exists>s'. objstore_write False 2 (\<lambda>_. 7) 100 demo_fs 10 = Some (100, s') \<and> store_inv False s' \<and> names s' = names demo_fs \<and>
     content False s' 0 5 = content False demo_fs 0 5"
proof -
  obtain s' where s': "objstore_write False 2 (\<lambda>_. 7) 100 demo_fs 10 = Some (100, s')" "store_inv False s'" "names s' = names demo_fs"
      "\<forall>x<16793600. x < 10 \<or> \<not> touched 10 100 (x div BLOCK_SIZE) \<longrightarrow> ptr False demo_fs 0 (slot_of (x div BLOCK_SIZE)) \<noteq> 0 \<longrightarrow>
       content False s' 0 x = content False demo_fs 0 x"
    using write_frame[of False demo_fs 0 100 10 "\<lambda>_. 7"] by (auto simp: demo_inv demo_names fits_def demo_nfree)
  have "ptr False demo_fs 0 (slot_of (5 div BLOCK_SIZE)) \<noteq> 0" by (simp add: slot_of.simps demo_ptr demo_obj_def)
  then have "content False s' 0 5 = content False demo_fs 0 5" using s'(4)[rule_format, of 5] by simp
  with s' show ?thesis by blast
qed

text \<open>
  C15: a write that starts inside one of the first four blocks and runs over the end of that block
  copies over the end of the 4096-byte buffer \<open>temp\<close>: \<open>cur_size\<close> does not take \<open>shift\<close> into account.
  The model reports this as undefined behaviour, for every store in a good state.
\<close>

theorem write_overflow:
  assumes "store_inv c s" "ob < MAX_OBJS" "\<not> fits off n" "n \<le> 16793600" "off < 16384"
  shows "objstore_write c (int ob + 2) buf (int n) s (int off) = None"
proof -
  have bi: "blk_inv c s" and mem: "mmap_page s BLOCK_SIZE \<noteq> None" using assms(1) by (simp_all add: store_inv_def)
  obtain p where p: "mmap_page s BLOCK_SIZE = Some p" using mem by auto
  let ?b = "off div BLOCK_SIZE"
  define l where "l = \<lparr>remaining = int n, shift = off mod BLOCK_SIZE, blocks_done = (0 :: u32), temp = zero_buf\<rparr>"
  have sh: "0 < off mod BLOCK_SIZE" "BLOCK_SIZE < off mod BLOCK_SIZE + n" using assms(3) by (auto simp: fits_def)
  then have n: "0 < n" using mod_less_divisor[of BLOCK_SIZE off] by linarith
  have ub: "update_block c (Some (page_addr p)) buf (int n) s l' bp = None"
    if l': "remaining l' = int n" "shift l' = off mod BLOCK_SIZE" for l' bp
  proof -
    obtain bp' s1 where a: "(if bp = 0 then alloc_block s else (bp, s)) = (bp', s1)" "bp' \<noteq> 0" "blk_inv c s1"
    proof (cases s rule: alloc_block_cases)
      case full
      then show ?thesis using that[of "if bp = 0 then -1 else bp" s] bi by auto
    next
      case (got b)
      have nz: "(of_nat b :: u32) \<noteq> 0" using unat_range[OF got(2)] got(2) by (metis alloc_range_def atLeastLessThan_iff not_numeral_le_zero unat_0)
      have "blk_inv c (s\<lparr>blk_bmp := x\<rparr>)" for x using bi by (simp add: blk_inv_def io_ok_def)
      then show ?thesis using that got(1) nz bi by (cases "bp = 0") auto
    qed
    obtain s2 t2 where r: "read_ch_blk c s1 bp' (page_addr p) (temp l') = (0, s2, t2)"
      using read_step[OF a(3,2)] by blast
    have "shift l' + nat (if remaining l' > int BLOCK_SIZE then int BLOCK_SIZE else remaining l') > BLOCK_SIZE"
      using sh l' by simp
    then show ?thesis unfolding update_block_def Let_def using a(1) r l' n sh(1) by simp
  qed
  have b4: "?b < 4" using assms(5) by (simp add: div_less_iff_less_mult)
  have wd: "write_direct c (Some (page_addr p)) buf (int n) (of_nat ?b) ob [i ..< i + m] s l' = None"
    if "i \<le> ?b" "?b < i + m" "remaining l' = int n" "shift l' = off mod BLOCK_SIZE" "blocks_done l' = of_nat i" for i m l'
    using that
  proof (induction m arbitrary: i l')
    case (Suc m)
    have upt: "[i ..< i + Suc m] = i # [Suc i ..< Suc i + m]" by (rule upt_Suc_Cons)
    show ?case
    proof (cases "i = ?b")
      case True
      then show ?thesis using ub Suc.prems unfolding upt by simp
    next
      case False
      then have lt: "i < ?b" using Suc.prems(1) by simp
      then have "unat (of_nat i :: u32) < unat (of_nat ?b :: u32)" using b4 by simp
      then have "blocks_done l' < of_nat ?b" using Suc.prems(5) by (simp add: word_less_nat_alt)
      then show ?thesis using Suc.IH[of "Suc i" "l'\<lparr>blocks_done := blocks_done l' + 1\<rparr>"] Suc.prems lt unfolding upt
        by (simp del: upt_Suc add: add.commute)
    qed
  qed simp
  have "write_direct c (Some (page_addr p)) buf (int n) (of_nat ?b) ob [0 ..< 4] s l = None"
    using wd[of 0 4 l] b4 by (simp add: l_def del: upt_conv_Cons)
  then show ?thesis using assms(2,4) unfolding l_def by (simp add: objstore_write_def Let_def cmalloc_def p)
qed

theorem write_overflow_witness: "objstore_write True 2 zero_buf 4096 demo_fs 1 = None"
  using write_overflow[of True demo_fs 0 1 4096 zero_buf] by (simp add: demo_inv fits_def)

text \<open>
  C16: a write of no bytes at offset 0 sets the size of the object to 0, which the table takes for
  a free entry: the object loses its name, but its key stays, so that \<open>find_object_id\<close> still
  finds it and its blocks stay marked.
\<close>

theorem write_nothing_frees:
  assumes "store_inv c s" "names s ob = Some (cstr key)" "valid_key key"
  shows "\<exists>s'. objstore_write c (int ob + 2) buf 0 s 0 = Some (0, s') \<and> names s' = (names s)(ob := None) \<and>
    find_object_id key s' = int ob + 2 \<and> used s' = used s"
proof -
  have ob: "ob < MAX_OBJS" using names_bound[OF assms(2)] .
  have d: "dir_inv s" and mem: "mmap_page s BLOCK_SIZE \<noteq> None" using assms(1) by (simp_all add: store_inv_def)
  obtain p where p: "mmap_page s BLOCK_SIZE = Some p" using mem by auto
  have len: "length (obj_direct (objects s ob)) = 4" using d ob by (simp add: dir_inv_def wf_obj_def)
  have idle: "update_block c a b 0 t l bp = Some (0, t, l, bp)" if "remaining l = 0" for a b t l bp
    using that by (simp add: update_block_def)
  have same: "set_obj s ob (objects s ob) = s" by (simp add: set_obj_def)
  have wd: "write_direct c a b 0 0 ob is s l = Some (s, l)" if "remaining l = 0" for a b l "is"
    using that by (induction "is") (simp_all add: idle same)
  have wi: "write_indirect c a b 0 0 ob is s l = Some (Inr (s, l))" if "remaining l = 0" for a b l "is"
    using that by (induction "is") simp_all
  define t where "t = set_obj s ob ((objects s ob)\<lparr>obj_size := 0\<rparr>)"
  define s' where "s' = t\<lparr>obj_bmp := (obj_bmp t)(ob div 64 := set_bit (ob mod 64) (obj_bmp t (ob div 64)))\<rparr>"
  have run: "objstore_write c (int ob + 2) buf 0 s 0 = Some (0, s')"
    using mark_obj_dirty_ok[OF ob, of t] ob wd wi
    by (simp add: objstore_write_def Let_def cmalloc_def p t_def s'_def add.commute)
  have n: "names s' = (names s)(ob := None)"
    by (auto simp: s'_def t_def names_def set_obj_def fun_eq_iff)
  have "key_mem (objects s' m) = key_mem (objects s m)" for m
    by (simp add: s'_def t_def set_obj_def key_mem_def)
  then have "find_from k (objects s') key i = find_from k (objects s) key i" for k i
    by (induction k arbitrary: i) simp_all
  moreover have "find_object s key = Some ob"
    using find_object_iff[OF d, of key ob] assms(2,3) by (simp add: valid_key_def)
  ultimately have "find_object_id key s' = int ob + 2" by (simp add: find_object_id_def find_object_def)
  moreover have "used s' = used s" by (simp add: s'_def t_def)
  ultimately show ?thesis using run n by blast
qed

theorem write_nothing_frees_witness:
  "\<exists>s'. objstore_write False 2 zero_buf 0 demo_fs 0 = Some (0, s') \<and> names s' = (names demo_fs)(0 := None) \<and>
    find_object_id [97, 0] s' = 2 \<and> used s' = used demo_fs"
  using write_nothing_frees[of False demo_fs 0 "[97, 0]" zero_buf] by (simp add: demo_inv demo_names demo_keys)

section \<open>The table\<close>

lemma find_object_id_iff:
  assumes "dir_inv s" "cstr key \<noteq> []"
  shows "(find_object_id key s = int i + 2 \<longleftrightarrow> names s i = Some (cstr key)) \<and>
    (find_object_id key s = -1 \<longleftrightarrow> (\<forall>j. names s j \<noteq> Some (cstr key)))"
proof -
  show ?thesis
  proof (cases "find_object s key")
    case None
    then show ?thesis using find_object_None[OF assms] by (simp add: find_object_id_def)
  next
    case (Some j)
    then have "names s i = Some (cstr key) \<longleftrightarrow> i = j" for i
      using find_object_iff[OF assms, of i] by auto
    then show ?thesis using Some by (auto simp: find_object_id_def)
  qed
qed

text \<open>
  C4: \<open>destroy_object\<close> on the key of a live object frees exactly the blocks its direct and indirect
  pointers lead to, the pointer blocks included, takes the name away, and leaves every other object
  and the contents of every block as they were; the invariant of the store holds again.
\<close>

theorem destroy_object_exact:
  assumes "store_inv c s" "valid_key key" "names s ob = Some (cstr key)"
  shows "\<exists>s'. destroy_object c key s = Some (0, s') \<and> store_inv c s' \<and>
    names s' = (names s)(ob := None) \<and> used s' = used s - blocks_of c s ob \<and>
    (\<forall>m. m \<noteq> ob \<longrightarrow> objects s' m = objects s m) \<and>
    (\<forall>b. b \<noteq> 0 \<longrightarrow> blk_view c s' b = blk_view c s b) \<and> dirty s' = insert ob (dirty s)"
  using destroy_object_ok[OF assms] .

lemma demo_blocks_of: "blocks_of c demo_fs 0 = {20256}"
proof -
  have "slot_ok sl \<and> ptr c demo_fs 0 sl \<noteq> 0 \<longleftrightarrow> sl = Dir 0" for sl
    using demo_ptr[of sl c 0] by (cases "slot_ok sl") auto
  then show ?thesis by (auto simp: blocks_of_def demo_obj_def)
qed

theorem destroy_object_exact_witness:
  "\<exists>s'. destroy_object True [97, 0] demo_fs = Some (0, s') \<and> store_inv True s' \<and> used s' = {..<20257} - {20256}"
  using destroy_object_exact[of True demo_fs "[97, 0]" 0]
  by (auto simp: demo_inv demo_names demo_keys demo_blocks_of demo_used)

text \<open>
  C7: \<open>create_object\<close> with a key of 1 to 31 bytes: a key that is taken, or a full table, is refused
  with -1 and nothing changes; otherwise the first free entry gets the name, with size 1 and no
  blocks, its identifier is the index plus 2, and the invariant of the store holds again.
\<close>

theorem create_object_correct:
  assumes "store_inv c s" "valid_key key"
  shows "case (if \<exists>i. names s i = Some (cstr key) then None else free_slot s) of
      None \<Rightarrow> create_object key s = Some (-1, s)
    | Some i \<Rightarrow> (\<exists>s'. create_object key s = Some (int i + 2, s') \<and> store_inv c s' \<and>
        names s' = (names s)(i \<mapsto> cstr key) \<and> obj_size (objects s' i) = 1 \<and> blocks_of c s' i = {} \<and>
        (\<forall>j. j \<noteq> i \<longrightarrow> objects s' j = objects s j) \<and> used s' = used s)"
proof (cases "\<exists>i. names s i = Some (cstr key)")
  case True
  then show ?thesis using create_object_refused[OF _ assms(2), of s] assms(1) by (simp add: store_inv_def)
next
  case False
  show ?thesis
  proof (cases "free_slot s")
    case None
    then show ?thesis using False create_object_refused[OF _ assms(2), of s] assms(1) by (simp add: store_inv_def)
  next
    case (Some i)
    obtain s' where s': "create_object key s = Some (int i + 2, s')" "store_inv c s'" "names s' = (names s)(i \<mapsto> cstr key)"
        "obj_size (objects s' i) = 1" "blocks_of c s' i = {}" "\<forall>j. j \<noteq> i \<longrightarrow> objects s' j = objects s j"
        "s' = s\<lparr>objects := objects s', obj_bmp := obj_bmp s'\<rparr>"
      using create_object_store[OF assms _ Some] False by blast
    have "used s' = used s" by (subst s'(7)) (simp add: used_def)
    then show ?thesis using s'(1-6) False Some by auto
  qed
qed

theorem create_object_correct_witness:
  "\<exists>s'. create_object [98, 0] demo_fs = Some (3, s') \<and> store_inv True s' \<and> names s' 1 = Some [98] \<and>
     create_object [97, 0] demo_fs = Some (-1, demo_fs)"
  using create_object_correct[of True demo_fs "[98, 0]"] create_object_correct[of True demo_fs "[97, 0]"]
  by (auto simp: demo_inv demo_names demo_keys demo_free_slot split: if_splits)

text \<open>
  C8: \<open>rename_object\<close>: for two proper keys, the object gets the new name and keeps its
  identifier, contents and blocks when the old name exists and the new one does not; in every
  other case -1 is returned and nothing changes. The new name has to be readable for 32 bytes.
\<close>

theorem rename_object_correct:
  assumes "store_inv c s" "valid_key key" "valid_key newname" "KEY_SIZE \<le> length newname"
  shows "if (\<exists>j. names s j = Some (cstr newname)) \<or> (\<forall>j. names s j \<noteq> Some (cstr key))
    then rename_object key newname s = Some (-1, s)
    else \<exists>i s'. rename_object key newname s = Some (int i + 2, s') \<and> names s i = Some (cstr key) \<and> store_inv c s' \<and>
      names s' = (names s)(i \<mapsto> cstr newname) \<and> (\<forall>j. j \<noteq> i \<longrightarrow> objects s' j = objects s j) \<and>
      objects s' i = (objects s i)\<lparr>obj_key := take KEY_SIZE newname\<rparr>"
proof (cases "(\<exists>j. names s j = Some (cstr newname)) \<or> (\<forall>j. names s j \<noteq> Some (cstr key))")
  case True
  have "dir_inv s" using assms(1) by (simp add: store_inv_def)
  from rename_object_refused[OF this assms(2,3) True] True show ?thesis by simp
next
  case False
  then obtain i where i: "names s i = Some (cstr key)" and new: "\<forall>j. names s j \<noteq> Some (cstr newname)" by blast
  show ?thesis unfolding if_not_P[OF False] using rename_object_store[OF assms i new] i by blast
qed

theorem rename_object_correct_witness:
  "\<exists>i s'. rename_object [97, 0] (98 # replicate 31 0) demo_fs = Some (int i + 2, s') \<and> names s' = (names demo_fs)(i \<mapsto> [98])"
proof -
  have "\<not> ((\<exists>j. names demo_fs j = Some [98]) \<or> (\<forall>j. names demo_fs j \<noteq> Some [97]))"
    by (auto simp: demo_names)
  then show ?thesis
    using rename_object_correct[of True demo_fs "[97, 0]" "98 # replicate 31 0"]
    unfolding demo_keys(3,6) by (simp only: if_False) (auto simp: demo_inv demo_keys)
qed

text \<open>
  \<open>find_object_id\<close> of a non-empty key is the index plus 2 of the one live object with that name,
  and -1 when there is none.
\<close>

theorem find_object_id_correct:
  assumes "store_inv c s" "cstr key \<noteq> []"
  shows "(find_object_id key s = int i + 2 \<longleftrightarrow> names s i = Some (cstr key)) \<and>
    (find_object_id key s = -1 \<longleftrightarrow> (\<forall>j. names s j \<noteq> Some (cstr key)))"
  using find_object_id_iff[of s key i] assms by (simp add: store_inv_def)

theorem find_object_id_correct_witness: "find_object_id [97, 0] demo_fs = 2 \<and> find_object_id [98, 0] demo_fs = -1"
  using find_object_id_correct[of False demo_fs "[97, 0]" 0] find_object_id_correct[of False demo_fs "[98, 0]" 0]
  by (simp add: demo_inv demo_names demo_keys)

lemma create_scan_names:
  assumes "\<And>j. j < MAX_OBJS \<Longrightarrow> \<not> strcmp_eq (key_mem (start j)) key" "i + n \<le> MAX_OBJS"
  shows "create_scan n start key i free = Some (if free < 0 then
    (case find (\<lambda>j. obj_size (start j) = 0) [i ..< i + n] of Some j \<Rightarrow> int j | None \<Rightarrow> free) else free)"
  using assms(2)
proof (induction n arbitrary: i free)
  case (Suc n)
  have upt: "[i ..< i + Suc n] = i # [Suc i ..< Suc i + n]" by (rule upt_Suc_Cons)
  have nm: "\<not> strcmp_eq (key_mem (start i)) key" using assms(1) Suc.prems by simp
  show ?case unfolding upt using Suc.IH[of "Suc i"] Suc.prems nm by (auto simp del: upt_Suc)
qed simp

text \<open>
  C17: \<open>create_object\<close> has no bound on the length of the key: for a new key of 32 bytes or more and a
  table with a free entry, \<open>strcpy\<close> runs over the end of the key array, which the model reports as
  undefined behaviour.
\<close>

theorem create_object_overflow:
  assumes "store_inv c s" "KEY_SIZE \<le> length (cstr key)" "free_slot s = Some i"
  shows "create_object key s = None"
proof -
  have d: "dir_inv s" using assms(1) by (simp add: store_inv_def)
  have "\<not> strcmp_eq (key_mem (objects s j)) key" if j: "j < MAX_OBJS" for j
  proof -
    have wf: "wf_obj (objects s j)" using d j by (simp add: dir_inv_def)
    have "length (cstr (obj_key (objects s j))) < KEY_SIZE"
    proof -
      obtain x xs ys where "obj_key (objects s j) = xs @ 0 # ys" "0 \<notin> set xs"
        using wf by (metis wf_obj_def split_list_first)
      then have "cstr (obj_key (objects s j)) = xs" "length (obj_key (objects s j)) = length xs + Suc (length ys)"
        by (simp_all add: cstr_no_nul)
      then show ?thesis using wf by (simp add: wf_obj_def)
    qed
    then show ?thesis using cstr_key_mem[OF wf] assms(2) by (auto simp: strcmp_eq_def)
  qed
  from create_scan_names[where n = MAX_OBJS and i = 0 and free = "-1", OF this]
  have "create_scan MAX_OBJS (objects s) key 0 (-1) = Some (int i)"
    using assms(3) by (simp add: free_slot_def)
  then show ?thesis using assms(2) by (simp add: create_object_def strcpy_key_def Let_def)
qed

theorem create_object_overflow_witness: "create_object (replicate 32 99 @ [0]) demo_fs = None"
proof -
  have "cstr (replicate 32 99 @ [0 :: byte]) = replicate 32 99" by (rule cstr_no_nul) simp
  then show ?thesis using create_object_overflow[of False demo_fs "replicate 32 99 @ [0]" 1] by (simp add: demo_inv demo_free_slot)
qed

section \<open>Blocks\<close>

text \<open>
  C9: \<open>alloc_block\<close> hands out the lowest free block, which lies behind the reserved area, and
  marks it and nothing else; it returns -1 and changes nothing only when every block of the
  bitmap is in use.
\<close>

theorem alloc_block_lowest:
  assumes "{..<RES_BLOCKS} \<subseteq> used s"
  shows "alloc_block s = (-1, s) \<and> used s = {..<64 * BLK_BMP_LN} \<or>
    (\<exists>b s'. alloc_block s = (of_nat b, s') \<and> RES_BLOCKS \<le> b \<and> b < 64 * BLK_BMP_LN \<and> b \<notin> used s \<and> {..<b} \<subseteq> used s \<and>
       used s' = insert b (used s) \<and> s' = s\<lparr>blk_bmp := blk_bmp s'\<rparr>)"
proof (cases s rule: alloc_block_cases)
  case full
  have "b \<in> used s" if "b < 64 * BLK_BMP_LN" for b
    using full(2) assms that by (cases "b < RES_BLOCKS") (auto simp: alloc_range_def)
  then have "used s = {..<64 * BLK_BMP_LN}" using used_bound by blast
  then show ?thesis using full(1) by simp
next
  case (got b)
  let ?s' = "s\<lparr>blk_bmp := (blk_bmp s)(b div 64 := set_bit (b mod 64) (blk_bmp s (b div 64)))\<rparr>"
  have "RES_BLOCKS \<le> b" using got(3) assms by (meson lessThan_iff not_le subsetD)
  moreover have "m \<in> used s" if "m < b" for m
    using got(2,4) assms that by (cases "m < RES_BLOCKS") (auto simp: alloc_range_def subset_eq)
  moreover have "b < 64 * BLK_BMP_LN" using got(2) by (simp add: alloc_range_def)
  ultimately show ?thesis using got(1,3) used_alloc[OF got(2), of s] by (intro disjI2 exI[of _ b] exI[of _ ?s']) auto
qed

theorem alloc_block_lowest_witness: "\<exists>b s'. alloc_block demo_fs = (of_nat b, s') \<and> b = 20257 \<and> used s' = {..<20258}"
proof -
  have full: "{..<20257 :: nat} \<noteq> {..<64 * BLK_BMP_LN}" by simp
  obtain b s' where b: "alloc_block demo_fs = (of_nat b, s')" "b \<notin> used demo_fs" "{..<b} \<subseteq> used demo_fs" "used s' = insert b (used demo_fs)"
    using alloc_block_lowest[of demo_fs] full by (auto simp: demo_used)
  have "b = 20257" using b(2,3) unfolding demo_used lessThan_subset_iff lessThan_iff by linarith
  moreover have "insert 20257 {..<20257 :: nat} = {..<20258}" using lessThan_Suc[of 20257] by simp
  ultimately show ?thesis using b(1,4) unfolding demo_used by blast
qed

text \<open>
  Blocks allocated one after the other are pairwise different, were free before, and are
  marked after, for any number of allocations; and as long as \<open>n\<close> blocks are free, \<open>n\<close> allocations
  succeed.
\<close>

theorem alloc_blocks_distinct:
  assumes "bmp.alloc_n n s = (bs, s')"
  shows "distinct bs \<and> set bs \<inter> used s = {} \<and> used s' = used s \<union> set bs \<and> (n \<le> nfree s \<longrightarrow> length bs = n)"
  using bmp.alloc_n_distinct[OF assms] bmp.alloc_n_enough[of n s] assms by (simp add: nfree_def)

theorem alloc_blocks_distinct_witness:
  "\<exists>bs s'. bmp.alloc_n 3 demo_fs = (bs, s') \<and> distinct bs \<and> length bs = 3"
proof -
  obtain bs s' where e: "bmp.alloc_n 3 demo_fs = (bs, s')" by (cases "bmp.alloc_n 3 demo_fs")
  then show ?thesis using alloc_blocks_distinct[OF e] by (simp add: demo_nfree)
qed

text \<open>
  \<open>same_view s t\<close>: the store \<open>s\<close> of the cached build and the store \<open>t\<close> of the plain build hold the
  same blocks, wherever the cached build keeps them.
\<close>

definition same_view :: "objfs_state \<Rightarrow> objfs_state \<Rightarrow> bool" where
  "same_view s t \<longleftrightarrow> blk_inv True s \<and> blk_inv False t \<and>
     (\<forall>b. b \<noteq> 0 \<longrightarrow> blk_readable False t b \<longrightarrow> blk_readable True s b \<and> blk_view True s b = blk_view False t b)"

text \<open>
  C6: the cached build refines the plain one. From stores with the same blocks, and for every
  block of the image but block 0, a write through the cache and a write to the disk both succeed
  and lead to stores with the same blocks, and a read delivers the same bytes in both builds,
  leaving the blocks the same, whatever the slots of the cache hold.
\<close>

theorem cache_refines_disk:
  assumes sim: "same_view s t" and b: "b \<noteq> 0" "blk_readable False t b"
  shows "(\<exists>s' t'. write_ch_blk True s b (page_addr p) buf = (0, s') \<and> write_ch_blk False t b (page_addr q) buf = (0, t') \<and>
       same_view s' t') \<and>
     (\<exists>s' t' x. read_ch_blk True s b (page_addr p) old = (0, s', x) \<and>
       read_ch_blk False t b (page_addr q) old' = (0, t', x) \<and> same_view s' t')"
proof -
  have inv: "blk_inv True s" "blk_inv False t" using sim by (simp_all add: same_view_def)
  have rd: "blk_readable True s b" "blk_view True s b = blk_view False t b" using sim b by (simp_all add: same_view_def)
  obtain s' where s': "write_ch_blk True s b (page_addr p) buf = (0, s')" "blk_inv True s'" "blk_view True s' b = buf" "blk_readable True s' b"
      "\<forall>d. d \<noteq> 0 \<longrightarrow> d \<noteq> b \<longrightarrow> blk_view True s' d = blk_view True s d \<and> (blk_readable True s d \<longrightarrow> blk_readable True s' d)"
    using blk.wr_result[OF inv(1) b(1)] by blast
  obtain t' where t': "write_ch_blk False t b (page_addr q) buf = (0, t')" "blk_inv False t'" "blk_view False t' b = buf"
      "\<forall>d. d \<noteq> 0 \<longrightarrow> d \<noteq> b \<longrightarrow> blk_view False t' d = blk_view False t d"
    using blk.wr_result[OF inv(2) b(1)] by blast
  have "disk_len t' = disk_len t"
    using t'(1) b(2) write_block_u32[of t b q buf] inv(2) by (auto simp: write_ch_blk_def blk_inv_def blk_readable_def)
  then have "blk_readable False t' d \<longleftrightarrow> blk_readable False t d" for d by (simp add: blk_readable_def)
  then have "same_view s' t'" using sim s'(2-5) t'(2-4) unfolding same_view_def by metis
  moreover obtain s2 where s2: "read_ch_blk True s b (page_addr p) old = (0, s2, blk_view True s b)" "blk_inv True s2"
      "\<forall>d. d \<noteq> 0 \<longrightarrow> blk_view True s2 d = blk_view True s d \<and> (blk_readable True s d \<longrightarrow> blk_readable True s2 d)"
    using blk.rd_result[OF inv(1) b(1) rd(1)] by blast
  moreover have "read_ch_blk False t b (page_addr q) old' = (0, t, blk_view True s b)"
    using read_ch_blk_plain[OF inv(2) b(2)] rd(2) by simp
  moreover have "same_view s2 t" using sim s2(2,3) unfolding same_view_def by metis
  ultimately show ?thesis using s'(1) t'(1) by blast
qed

theorem cache_refines_disk_witness:
  "\<exists>s' t'. write_ch_blk True demo_fs 20256 (page_addr 1) (\<lambda>_. 5) = (0, s') \<and>
     write_ch_blk False demo_fs 20256 (page_addr 1) (\<lambda>_. 5) = (0, t') \<and> same_view s' t'"
proof -
  have "same_view demo_fs demo_fs" by (simp add: same_view_def demo_io blk_readable_def blk_view_def) (simp add: demo_fs_def)
  then show ?thesis using cache_refines_disk[of demo_fs demo_fs 20256 1 "\<lambda>_. 5" 1 zero_buf zero_buf] by (simp add: blk_readable_def demo_io)
qed

section \<open>Mounting\<close>

text \<open>
  C5: unmounting and mounting again brings back the table: every object with its size, key and
  pointers, and the set of used blocks; no object is marked as changed. In the plain build the
  contents of every block of every object come back as well.
\<close>

theorem remount_roundtrip:
  assumes "can_remount s" "store_inv False s"
  shows "\<exists>s1 s2. objstore_destroy c s = (0, s1) \<and> objstore_init c s1 = Some (0, s2) \<and> mounted s2 \<and>
    (\<forall>m<MAX_OBJS. objects s2 m = objects s m) \<and> names s2 = names s \<and> used s2 = used s \<and> dirty s2 = {} \<and>
    (\<not> c \<longrightarrow> (\<forall>m<MAX_OBJS. \<forall>x<16793600. ptr c s m (slot_of (x div BLOCK_SIZE)) \<noteq> 0 \<longrightarrow> content c s2 m x = content c s m x))"
proof -
  obtain s1 s2 where r: "objstore_destroy c s = (0, s1)" "objstore_init c s1 = Some (0, s2)" "mounted s2"
      "\<forall>m<MAX_OBJS. objects s2 m = objects s m" "used s2 = used s" "dirty s2 = {}" "\<forall>b\<ge>RES_BLOCKS. disk s2 b = disk s b"
    using remount_general[OF assms(1), of c] by blast
  have n: "names s2 = names s" by (rule names_same) (use r(4) in simp)
  have v: "blk_view False s2 b = blk_view False s b" if "ptr_ok False s b" for b
    using r(7) that by (simp add: blk_view_def ptr_ok_def)
  have "content False s2 m x = content False s m x"
    if m: "m < MAX_OBJS" and x: "x < 16793600" and p: "ptr False s m (slot_of (x div BLOCK_SIZE)) \<noteq> 0" for m x
  proof -
    have ok: "slot_ok (slot_of (x div BLOCK_SIZE))" using x by (intro slot_of_ok) simp
    have pe: "ptr False s2 m sl = ptr False s m sl" if "slot_ok sl" for sl
    proof (cases sl)
      case (Sub i j)
      have "ptr_ok False s (ptr False s m (Ind i))" if "ptr False s m (Ind i) \<noteq> 0"
        using ptr_bounded[OF assms(2) m, of "Ind i"] that \<open>slot_ok sl\<close> Sub by auto
      then show ?thesis using Sub v r(4) m by simp
    qed (use r(4) m in simp_all)
    have "ptr_ok False s (ptr False s m (slot_of (x div BLOCK_SIZE)))" using ptr_bounded[OF assms(2) m ok] p by simp
    then show ?thesis using v pe[OF ok] by (simp add: content_def)
  qed
  then show ?thesis using r(1-6) n by (cases c) auto
qed

theorem remount_roundtrip_witness:
  "\<exists>s1 s2. objstore_destroy False demo_fs = (0, s1) \<and> objstore_init False s1 = Some (0, s2) \<and> names s2 = names demo_fs"
  using remount_roundtrip[of demo_fs False] by (auto simp: demo_remount demo_inv)

text \<open>
  C18: the unmount of the cached build writes no block of an object back. Its loop flushes the
  slots of the cache that are empty instead of those in use, so that after mounting again every
  byte of an object that is reached through its direct pointers is what the disk held before,
  whatever the cache held.
\<close>

theorem cached_unmount_loses_cache:
  assumes "can_remount s" "store_inv True s" "m < MAX_OBJS" "x < 16384" "ptr True s m (slot_of (x div BLOCK_SIZE)) \<noteq> 0"
  shows "\<exists>s1 s2. objstore_destroy True s = (0, s1) \<and> objstore_init True s1 = Some (0, s2) \<and>
    content True s2 m x = disk s (unat (ptr True s m (slot_of (x div BLOCK_SIZE)))) (x mod BLOCK_SIZE)"
proof -
  obtain s1 s2 where r: "objstore_destroy True s = (0, s1)" "objstore_init True s1 = Some (0, s2)"
      "\<forall>m<MAX_OBJS. objects s2 m = objects s m" "cache_info s2 = (\<lambda>_. 0)" "\<forall>b\<ge>RES_BLOCKS. disk s2 b = disk s b"
    using remount_general[OF assms(1), of True] by blast
  let ?k = "x div BLOCK_SIZE"
  have k: "?k < 4" using assms(4) by (simp add: div_less_iff_less_mult)
  then have sl: "slot_of ?k = Dir ?k" "slot_ok (slot_of ?k)" by (simp_all add: slot_of.simps)
  have p2: "ptr True s2 m (slot_of ?k) = ptr True s m (slot_of ?k)" using r(3) assms(3) sl(1) by simp
  have "ptr_ok True s (ptr True s m (slot_of ?k))" using ptr_bounded[OF assms(2,3) sl(2)] assms(5) by blast
  then have "disk s2 (unat (ptr True s m (slot_of ?k))) = disk s (unat (ptr True s m (slot_of ?k)))"
    using r(5) by (simp add: ptr_ok_def)
  then have "content True s2 m x = disk s (unat (ptr True s m (slot_of ?k))) (x mod BLOCK_SIZE)"
    using r(4) assms(5) unfolding content_def p2 blk_view_def by simp
  then show ?thesis using r(1,2) by blast
qed

theorem cached_unmount_loses_cache_witness:
  "\<exists>s s1 s2. s = demo_fs\<lparr>cache := (\<lambda>_. \<lambda>_. 7), cache_info := (\<lambda>_. 0)(20256 := 20256)\<rparr> \<and> content True s 0 3 = 7 \<and>
     objstore_destroy True s = (0, s1) \<and> objstore_init True s1 = Some (0, s2) \<and> content True s2 0 3 = 0"
proof -
  let ?s = "demo_fs\<lparr>cache := (\<lambda>_. \<lambda>_. 7), cache_info := (\<lambda>_. 0)(20256 := 20256)\<rparr>"
  have p: "ptr True ?s m sl = ptr True demo_fs m sl" if "slot_ok sl" for m sl
    using that by (cases sl) (auto simp: demo_obj_def zero_obj_def)
  have own: "owned True ?s = owned True demo_fs" using p by (auto simp: owned_def)
  have u: "used ?s = used demo_fs" "names ?s = names demo_fs" by (simp_all add: used_def names_def fun_eq_iff)
  have "blk_inv True ?s" by (auto simp: blk_inv_def io_ok_def) (simp_all add: demo_fs_def)
  moreover have "dir_inv ?s" using demo_dir by (simp add: dir_inv_def u)
  ultimately have inv: "store_inv True ?s"
    by (auto simp: store_inv_def own demo_owned u demo_used demo_names ptr_ok_def blk_readable_def demo_obj_def demo_io)
  have cr: "can_remount ?s"
    using demo_remount by (simp add: can_remount_def u clean_on_disk_def dirty_def io_ok_def)
  have "content True ?s 0 3 = 7" by (simp add: content_def slot_of.simps blk_view_def demo_obj_def)
  then show ?thesis
    using cached_unmount_loses_cache[OF cr inv, of 0 3]
    by (auto simp: slot_of.simps demo_obj_def demo_fs_def zero_buf_def)
qed

lemma round_up_512: "((z :: int) + 511) div 512 = z div 512 + (if z mod 512 = 0 then 0 else 1)"
proof -
  have "z + 511 = (z mod 512 + 511) + z div 512 * 512" by simp
  then have "(z + 511) div 512 = z div 512 + (z mod 512 + 511) div 512" by (simp only: div_mult_self1)
  moreover have "(z mod 512 + 511) div 512 = 1" if "z mod 512 \<noteq> 0"
  proof (rule int_div_pos_eq[of _ _ _ "z mod 512 - 1"])
    have "0 \<le> z mod 512" by simp
    with that show "0 \<le> z mod 512 - 1" by linarith
    have "z mod 512 < 512" by simp
    then show "z mod 512 - 1 < 512" by linarith
  qed simp
  ultimately show ?thesis by simp
qed

text \<open>
  The metadata of an object: \<open>fillup_size_details\<close> reports its size, and the number of 512-byte
  units it takes, rounded up; an inode number below 2 is an error.
\<close>

theorem fillup_size_details_correct:
  assumes "i < MAX_OBJS" "st_ino buf = of_nat (i + 2)" "uint (obj_size (objects s i)) < 2 ^ 63"
  shows "fillup_size_details buf s = Some (0, buf\<lparr>st_size := uint (obj_size (objects s i)),
    st_blocks := (uint (obj_size (objects s i)) + 511) div 512\<rparr>)"
proof -
  let ?z = "obj_size (objects s i)"
  have un: "unat (of_nat (i + 2) :: u64) = i + 2" using assms(1) unfolding unat_of_nat by (intro mod_less) simp
  then have ge: "\<not> st_ino buf < 2" using assms(2) by (simp add: word_less_nat_alt)
  have idx: "unat (st_ino buf - 2) = i"
  proof -
    have "st_ino buf - 2 = of_nat i" using assms(2) by simp
    then show ?thesis using assms(1) by (simp add: unat_of_nat)
  qed
  have u: "uint (drop_bit 9 ?z) = uint ?z div 512" by (simp add: drop_bit_eq_div uint_div)
  have "push_bit 9 (drop_bit 9 ?z) = ?z \<longleftrightarrow> uint ?z mod 512 = 0"
  proof -
    have "push_bit 9 (drop_bit 9 ?z) + take_bit 9 ?z = ?z" by (rule bits_ident)
    then have "push_bit 9 (drop_bit 9 ?z) = ?z \<longleftrightarrow> take_bit 9 ?z = 0" by (metis add.right_neutral add_left_cancel)
    also have "\<dots> \<longleftrightarrow> uint (take_bit 9 ?z) = 0" by (simp add: uint_0_iff)
    also have "\<dots> \<longleftrightarrow> uint ?z mod 512 = 0" by (simp add: take_bit_eq_mod uint_mod)
    finally show ?thesis .
  qed
  then have blocks: "(if push_bit 9 (drop_bit 9 ?z) \<noteq> ?z then uint (drop_bit 9 ?z) + 1 else uint (drop_bit 9 ?z)) = (uint ?z + 511) div 512"
    unfolding u round_up_512 by auto
  have "signed_take_bit 63 (uint ?z) = uint ?z"
    by (intro signed_take_bit_int_eq_self) (use assms(3) uint_ge_0[of ?z] in linarith)+
  then have "sint ?z = uint ?z" by (simp add: sint_uint)
  then show ?thesis using ge idx assms(1) blocks by (simp add: fillup_size_details_def Let_def)
qed

theorem fillup_size_details_correct_witness:
  "fillup_size_details (demo_stat\<lparr>st_ino := 2\<rparr>) demo_fs = Some (0, demo_stat\<lparr>st_ino := 2, st_size := 4096, st_blocks := 8\<rparr>)"
  using fillup_size_details_correct[of 0 "demo_stat\<lparr>st_ino := 2\<rparr>" demo_fs] by (simp add: demo_obj_def)

end
