(* ===== verification/Objfs.thy ===== *)
theory Objfs
  imports Objstore
begin

text \<open>
  The FUSE front end \<open>assignment-4/objfs.c\<close>: the handlers that the FUSE library calls, on top of
  the object interface that \<open>assignment-4/lib.h\<close> declares. The interface is a record of
  functions, \<open>lib_ops\<close>, one per declaration; \<open>objfs.c\<close> is linked against one implementation of
  it, here \<open>assignment-4/objstore.c\<close> in one of its two builds (\<open>objstore_ops\<close>). A path is the byte area
  its pointer leads to, so that \<open>key + 1\<close> is its tail. \<open>getuid\<close> and \<open>getgid\<close> are arguments. The
  debug output is left out. A handler that runs into undefined behaviour below gives \<open>None\<close>.
\<close>

section \<open>The object interface\<close>

record 's lib_ops =
  op_init :: "'s \<Rightarrow> (int \<times> 's) option"
  op_destroy :: "'s \<Rightarrow> (int \<times> 's) option"
  op_find_object_id :: "byte list \<Rightarrow> 's \<Rightarrow> int"
  op_create_object :: "byte list \<Rightarrow> 's \<Rightarrow> (int \<times> 's) option"
  op_release_object :: "int \<Rightarrow> 's \<Rightarrow> int \<times> 's"
  op_destroy_object :: "byte list \<Rightarrow> 's \<Rightarrow> (int \<times> 's) option"
  op_rename_object :: "byte list \<Rightarrow> byte list \<Rightarrow> 's \<Rightarrow> (int \<times> 's) option"
  op_objstore_write :: "int \<Rightarrow> buffer \<Rightarrow> int \<Rightarrow> 's \<Rightarrow> int \<Rightarrow> (int \<times> 's) option"
  op_objstore_read :: "int \<Rightarrow> buffer \<Rightarrow> int \<Rightarrow> 's \<Rightarrow> int \<Rightarrow> (int \<times> 's \<times> buffer) option"
  op_fillup_size_details :: "stat \<Rightarrow> 's \<Rightarrow> (int \<times> stat) option"
  op_def_fstat :: "'s \<Rightarrow> stat"
  op_def_dirstat :: "'s \<Rightarrow> stat"

definition objstore_ops :: "bool \<Rightarrow> objfs_state lib_ops" where
  "objstore_ops cached =
     \<lparr>op_init = objstore_init cached, op_destroy = \<lambda>s. Some (objstore_destroy cached s),
      op_find_object_id = find_object_id, op_create_object = create_object,
      op_release_object = release_object, op_destroy_object = destroy_object cached,
      op_rename_object = rename_object, op_objstore_write = objstore_write cached,
      op_objstore_read = objstore_read cached, op_fillup_size_details = fillup_size_details,
      op_def_fstat = def_fstat, op_def_dirstat = def_dirstat\<rparr>"

section \<open>The handlers\<close>

text \<open>Conversion to the 32-bit type \<open>int\<close>, as GCC does it.\<close>

definition c_int :: "int \<Rightarrow> int" where
  "c_int x = sint (word_of_int x :: u32)"

abbreviation (input) ENOENT :: int where "ENOENT \<equiv> 2"
abbreviation (input) EBADF :: int where "EBADF \<equiv> 9"
abbreviation (input) EEXIST :: int where "EEXIST \<equiv> 17"
abbreviation (input) EINVAL :: int where "EINVAL \<equiv> 22"
abbreviation (input) ROOT_OBJID :: u64 where "ROOT_OBJID \<equiv> 1"

record fuse_file_info =
  fh :: u64

definition objfs_getattr :: "'s lib_ops \<Rightarrow> u32 \<Rightarrow> u32 \<Rightarrow> byte list \<Rightarrow> 's \<Rightarrow> (int \<times> stat) option" where
  "objfs_getattr ops uid gid key s =
     (if strcmp_eq key [47, 0] then
        Some (0, (op_def_dirstat ops s)\<lparr>st_ino := ROOT_OBJID, st_uid := uid, st_gid := gid\<rparr>)
      else
        let retval = c_int (op_find_object_id ops (tl key) s) in
        if retval < 0 then Some (-ENOENT, op_def_fstat ops s)
        else
          (case op_fillup_size_details ops ((op_def_fstat ops s)\<lparr>st_ino := word_of_int retval\<rparr>) s of
             None \<Rightarrow> None
           | Some (r, statbuf) \<Rightarrow>
               if r < 0 then Some (-EBADF, statbuf)
               else Some (0, statbuf\<lparr>st_uid := uid, st_gid := gid\<rparr>)))"

definition objfs_unlink :: "'s lib_ops \<Rightarrow> byte list \<Rightarrow> 's \<Rightarrow> (int \<times> 's) option" where
  "objfs_unlink ops key s =
     (case op_destroy_object ops (tl key) s of None \<Rightarrow> None | Some (r, s') \<Rightarrow> Some (0, s'))"

definition objfs_rename_key :: "'s lib_ops \<Rightarrow> byte list \<Rightarrow> byte list \<Rightarrow> 's \<Rightarrow> (int \<times> 's) option" where
  "objfs_rename_key ops oldkey newkey s =
     (case op_rename_object ops (tl oldkey) (tl newkey) s of
        None \<Rightarrow> None
      | Some (r, s') \<Rightarrow> if r < 0 then Some (-EINVAL, s') else Some (0, s'))"

definition objfs_create ::
    "'s lib_ops \<Rightarrow> byte list \<Rightarrow> fuse_file_info \<Rightarrow> 's \<Rightarrow> (int \<times> fuse_file_info \<times> 's) option" where
  "objfs_create ops key fi s =
     (case op_create_object ops (tl key) s of
        None \<Rightarrow> None
      | Some (retval, s') \<Rightarrow>
          if retval < 0 then Some (-EEXIST, fi, s') else Some (0, fi\<lparr>fh := word_of_int retval\<rparr>, s'))"

definition objfs_open :: "'s lib_ops \<Rightarrow> byte list \<Rightarrow> fuse_file_info \<Rightarrow> 's \<Rightarrow> int \<times> fuse_file_info" where
  "objfs_open ops key fi s =
     (let retval = c_int (op_find_object_id ops (tl key) s) in
      if retval < 0 then (-ENOENT, fi) else (0, fi\<lparr>fh := word_of_int retval\<rparr>))"

definition objfs_read ::
    "'s lib_ops \<Rightarrow> buffer \<Rightarrow> u64 \<Rightarrow> int \<Rightarrow> fuse_file_info \<Rightarrow> 's \<Rightarrow> (int \<times> 's \<times> buffer) option" where
  "objfs_read ops buf sz offset fi s =
     (case op_objstore_read ops (c_int (uint (fh fi))) buf (c_int (uint sz)) s offset of
        None \<Rightarrow> None
      | Some (r, s', buf') \<Rightarrow>
          let retval = c_int r in if retval < 0 then Some (-EINVAL, s', buf') else Some (retval, s', buf'))"

definition objfs_write ::
    "'s lib_ops \<Rightarrow> buffer \<Rightarrow> u64 \<Rightarrow> int \<Rightarrow> fuse_file_info \<Rightarrow> 's \<Rightarrow> (int \<times> 's) option" where
  "objfs_write ops buf sz offset fi s =
     (case op_objstore_write ops (c_int (uint (fh fi))) buf (c_int (uint sz)) s offset of
        None \<Rightarrow> None
      | Some (r, s') \<Rightarrow>
          let retval = c_int r in if retval < 0 then Some (-EINVAL, s') else Some (retval, s'))"

definition objfs_release :: "'s lib_ops \<Rightarrow> fuse_file_info \<Rightarrow> 's \<Rightarrow> int \<times> 's" where
  "objfs_release ops fi s =
     (case op_release_object ops (c_int (uint (fh fi))) s of (r, s') \<Rightarrow> (-EINVAL, s'))"

definition objfs_init :: "'s lib_ops \<Rightarrow> 's \<Rightarrow> 's option" where
  "objfs_init ops s = (case op_init ops s of None \<Rightarrow> None | Some (r, s') \<Rightarrow> Some s')"

definition objfs_destroy :: "'s lib_ops \<Rightarrow> 's \<Rightarrow> 's option" where
  "objfs_destroy ops s = (case op_destroy ops s of None \<Rightarrow> None | Some (r, s') \<Rightarrow> Some s')"

text \<open>
  The table of handlers and \<open>main\<close>. \<open>fuse_main\<close> is library code: an argument that gets the table
  and the state and returns the exit status. \<open>main\<close> gives the exit status of the process.
\<close>

record 's fuse_operations =
  fo_getattr :: "byte list \<Rightarrow> 's \<Rightarrow> (int \<times> stat) option"
  fo_create :: "byte list \<Rightarrow> fuse_file_info \<Rightarrow> 's \<Rightarrow> (int \<times> fuse_file_info \<times> 's) option"
  fo_unlink :: "byte list \<Rightarrow> 's \<Rightarrow> (int \<times> 's) option"
  fo_open :: "byte list \<Rightarrow> fuse_file_info \<Rightarrow> 's \<Rightarrow> int \<times> fuse_file_info"
  fo_read :: "buffer \<Rightarrow> u64 \<Rightarrow> int \<Rightarrow> fuse_file_info \<Rightarrow> 's \<Rightarrow> (int \<times> 's \<times> buffer) option"
  fo_write :: "buffer \<Rightarrow> u64 \<Rightarrow> int \<Rightarrow> fuse_file_info \<Rightarrow> 's \<Rightarrow> (int \<times> 's) option"
  fo_release :: "fuse_file_info \<Rightarrow> 's \<Rightarrow> int \<times> 's"
  fo_init :: "'s \<Rightarrow> 's option"
  fo_destroy :: "'s \<Rightarrow> 's option"
  fo_rename :: "byte list \<Rightarrow> byte list \<Rightarrow> 's \<Rightarrow> (int \<times> 's) option"

definition objfs_operations :: "'s lib_ops \<Rightarrow> u32 \<Rightarrow> u32 \<Rightarrow> 's fuse_operations" where
  "objfs_operations ops uid gid =
     \<lparr>fo_getattr = objfs_getattr ops uid gid, fo_create = objfs_create ops, fo_unlink = objfs_unlink ops,
      fo_open = objfs_open ops, fo_read = objfs_read ops, fo_write = objfs_write ops,
      fo_release = objfs_release ops, fo_init = objfs_init ops, fo_destroy = objfs_destroy ops,
      fo_rename = objfs_rename_key ops\<rparr>"

definition objfs_main ::
    "(objfs_state fuse_operations \<Rightarrow> objfs_state \<Rightarrow> int) \<Rightarrow> os_startup \<Rightarrow> bool \<Rightarrow> u32 \<Rightarrow> u32 \<Rightarrow> int \<Rightarrow>
     objfs_state option \<Rightarrow> int" where
  "objfs_main fuse_main os cached uid gid argc mem =
     (if argc < 2 then -1
      else case mem of
        None \<Rightarrow> -1
      | Some objfs \<Rightarrow>
          (case do_init os objfs of (r, objfs') \<Rightarrow>
             if r < 0 then -1
             else fuse_main (objfs_operations (objstore_ops cached) uid gid) objfs'))"

section \<open>What the handlers rely on\<close>

lemma c_int_small:
  assumes "0 \<le> x" "x < 2 ^ 31"
  shows "c_int x = x"
proof -
  have "take_bit 32 x = x" using assms by (intro take_bit_int_eq_self) simp_all
  then have "uint (word_of_int x :: u32) = x" by (simp add: uint_word_of_int_eq)
  moreover have "signed_take_bit 31 x = x" using assms by (intro signed_take_bit_int_eq_self) linarith+
  ultimately show ?thesis by (simp add: c_int_def sint_uint)
qed

lemma handle_c_int:
  assumes "i < 1000000" shows "c_int (uint (of_nat (i + 2) :: u64)) = int i + 2"
proof -
  have "take_bit LENGTH(64) (i + 2) = i + 2" using assms by (intro take_bit_nat_eq_self) simp
  then have "uint (of_nat (i + 2) :: u64) = int (i + 2)" unfolding unsigned_of_nat by (simp only:)
  then show ?thesis using assms by (simp add: c_int_small)
qed

lemma size_c_int: "n \<le> 16793600 \<Longrightarrow> c_int (uint (of_nat n :: u64)) = int n \<and> c_int (int n) = int n"
  by (simp add: unsigned_of_nat take_bit_nat_eq_self c_int_small)

lemma c_int_minus_1: "c_int (-1) = -1"
  by (simp add: c_int_def)

text \<open>
  The contract of an implementation of the object interface on names: \<open>inv\<close> is its invariant, \<open>dir s i\<close> the
  name of the object with identifier \<open>i + 2\<close>, \<open>good_key\<close> the keys it takes, \<open>good_new\<close> the keys an
  object can be renamed to, and \<open>room\<close> says that the table is not full.
\<close>

locale object_directory =
  fixes ops :: "'s lib_ops"
    and inv :: "'s \<Rightarrow> bool"
    and dir :: "'s \<Rightarrow> nat \<Rightarrow> byte list option"
    and good_key :: "byte list \<Rightarrow> bool"
    and good_new :: "byte list \<Rightarrow> bool"
    and room :: "'s \<Rightarrow> bool"
  assumes bound: "dir s i = Some k \<Longrightarrow> i < 1000000"
    and unique: "inv s \<Longrightarrow> dir s i = Some k \<Longrightarrow> dir s j = Some k \<Longrightarrow> i = j"
    and find_law: "inv s \<Longrightarrow> good_key key \<Longrightarrow>
      op_find_object_id ops key s = int i + 2 \<longleftrightarrow> dir s i = Some (cstr key)"
    and find_none: "inv s \<Longrightarrow> good_key key \<Longrightarrow>
      op_find_object_id ops key s = -1 \<longleftrightarrow> (\<forall>i. dir s i \<noteq> Some (cstr key))"
    and create_law: "inv s \<Longrightarrow> good_key key \<Longrightarrow> (\<forall>i. dir s i \<noteq> Some (cstr key)) \<Longrightarrow> room s \<Longrightarrow>
      \<exists>i s'. op_create_object ops key s = Some (int i + 2, s') \<and> inv s' \<and> dir s i = None \<and>
        dir s' = (dir s)(i \<mapsto> cstr key)"
    and destroy_law: "inv s \<Longrightarrow> good_key key \<Longrightarrow> dir s i = Some (cstr key) \<Longrightarrow>
      \<exists>s'. op_destroy_object ops key s = Some (0, s') \<and> inv s' \<and> dir s' = (dir s)(i := None)"
    and rename_law: "inv s \<Longrightarrow> good_key key \<Longrightarrow> good_key new \<Longrightarrow> good_new new \<Longrightarrow> dir s i = Some (cstr key) \<Longrightarrow>
      (\<forall>j. dir s j \<noteq> Some (cstr new)) \<Longrightarrow>
      \<exists>r s'. op_rename_object ops key new s = Some (r, s') \<and> 0 \<le> r \<and> inv s' \<and> dir s' = (dir s)(i \<mapsto> cstr new)"
    and fillup_law: "inv s \<Longrightarrow> dir s i = Some k \<Longrightarrow> st_ino st = of_nat (i + 2) \<Longrightarrow>
      \<exists>st'. op_fillup_size_details ops st s = Some (0, st') \<and> st_ino st' = st_ino st"
begin

lemma find_c_int:
  assumes "inv s" "good_key key"
  shows "dir s i = Some (cstr key) \<Longrightarrow> c_int (op_find_object_id ops key s) = int i + 2"
    and "\<forall>i. dir s i \<noteq> Some (cstr key) \<Longrightarrow> c_int (op_find_object_id ops key s) = -1"
proof -
  assume d: "dir s i = Some (cstr key)"
  then have "op_find_object_id ops key s = int i + 2" using find_law[OF assms] by blast
  then show "c_int (op_find_object_id ops key s) = int i + 2" using bound[OF d] by (simp add: c_int_small)
next
  assume "\<forall>i. dir s i \<noteq> Some (cstr key)"
  then show "c_int (op_find_object_id ops key s) = -1" using find_none[OF assms] by (simp add: c_int_minus_1)
qed

lemma handle: "dir s i = Some k \<Longrightarrow> (word_of_int (int i + 2) :: u64) = of_nat (i + 2)"
  by simp

lemma open_found:
  assumes "inv s" "good_key key" "dir s i = Some (cstr key)"
  shows "objfs_open ops (47 # key) fi s = (0, fi\<lparr>fh := of_nat (i + 2)\<rparr>)"
  using find_c_int(1)[OF assms] by (simp add: objfs_open_def)

lemma open_missing:
  assumes "inv s" "good_key key" "\<forall>i. dir s i \<noteq> Some (cstr key)"
  shows "objfs_open ops (47 # key) fi s = (-ENOENT, fi)"
  using find_c_int(2)[OF assms] by (simp add: objfs_open_def)

lemma create_opens:
  assumes "inv s" "good_key key" "\<forall>i. dir s i \<noteq> Some (cstr key)" "room s"
  shows "\<exists>i s'. objfs_create ops (47 # key) fi s = Some (0, fi\<lparr>fh := of_nat (i + 2)\<rparr>, s') \<and> inv s'
    \<and> dir s i = None \<and> dir s' = (dir s)(i \<mapsto> cstr key)
    \<and> objfs_open ops (47 # key) fi s' = (0, fi\<lparr>fh := of_nat (i + 2)\<rparr>)"
proof -
  obtain i s' where c: "op_create_object ops key s = Some (int i + 2, s')" "inv s'" "dir s i = None"
      "dir s' = (dir s)(i \<mapsto> cstr key)"
    using create_law[OF assms] by blast
  then have "dir s' i = Some (cstr key)" by simp
  moreover have "objfs_create ops (47 # key) fi s = Some (0, fi\<lparr>fh := of_nat (i + 2)\<rparr>, s')"
    using c(1) by (simp add: objfs_create_def)
  ultimately show ?thesis using open_found[OF c(2) assms(2)] c(2-4) by blast
qed

lemma unlink_gone:
  assumes "inv s" "good_key key" "dir s i = Some (cstr key)" "cstr key \<noteq> []"
  shows "\<exists>s'. objfs_unlink ops (47 # key) s = Some (0, s') \<and> inv s' \<and> dir s' = (dir s)(i := None) \<and>
    objfs_open ops (47 # key) fi s' = (-ENOENT, fi) \<and>
    objfs_getattr ops uid gid (47 # key) s' = Some (-ENOENT, op_def_fstat ops s')"
proof -
  obtain s' where s': "op_destroy_object ops key s = Some (0, s')" "inv s'" "dir s' = (dir s)(i := None)"
    using destroy_law[OF assms(1-3)] by blast
  have none: "\<forall>j. dir s' j \<noteq> Some (cstr key)" using unique[OF assms(1) _ assms(3)] s'(3) by auto
  have "\<not> strcmp_eq (47 # key) [47, 0]" using assms(4) by (simp add: strcmp_eq_def cstr_def)
  then have "objfs_getattr ops uid gid (47 # key) s' = Some (-ENOENT, op_def_fstat ops s')"
    using find_c_int(2)[OF s'(2) assms(2) none] by (simp add: objfs_getattr_def)
  then show ?thesis using s' open_missing[OF s'(2) assms(2) none] by (auto simp: objfs_unlink_def)
qed

lemma rename_handle:
  assumes "inv s" "good_key key" "good_key new" "good_new new" "dir s i = Some (cstr key)" "\<forall>j. dir s j \<noteq> Some (cstr new)"
  shows "\<exists>s'. objfs_rename_key ops (47 # key) (47 # new) s = Some (0, s') \<and> inv s' \<and>
    objfs_open ops (47 # new) fi s' = objfs_open ops (47 # key) fi s \<and> objfs_open ops (47 # key) fi s' = (-ENOENT, fi)"
proof -
  obtain r s' where s': "op_rename_object ops key new s = Some (r, s')" "0 \<le> r" "inv s'" "dir s' = (dir s)(i \<mapsto> cstr new)"
    using rename_law[OF assms] by blast
  have "cstr key \<noteq> cstr new" using assms(5,6) by metis
  then have none: "\<forall>j. dir s' j \<noteq> Some (cstr key)" using unique[OF assms(1) _ assms(5)] s'(4) by auto
  have "dir s' i = Some (cstr new)" using s'(4) by simp
  then show ?thesis
    using s'(1-3) open_found[OF s'(3) assms(3)] open_found[OF assms(1,2,5)] open_missing[OF s'(3) assms(2) none]
    by (auto simp: objfs_rename_key_def)
qed

lemma getattr_found:
  assumes "inv s" "good_key key" "dir s i = Some (cstr key)" "cstr key \<noteq> []"
  shows "\<exists>st. objfs_getattr ops uid gid (47 # key) s = Some (0, st) \<and> st_ino st = of_nat (i + 2) \<and> st_uid st = uid \<and> st_gid st = gid"
proof -
  have "\<not> strcmp_eq (47 # key) [47, 0]" using assms(4) by (simp add: strcmp_eq_def cstr_def)
  moreover obtain st' where "op_fillup_size_details ops ((op_def_fstat ops s)\<lparr>st_ino := of_nat (i + 2)\<rparr>) s = Some (0, st')" "st_ino st' = of_nat (i + 2)"
    using fillup_law[OF assms(1,3), of "(op_def_fstat ops s)\<lparr>st_ino := of_nat (i + 2)\<rparr>"] by auto
  ultimately show ?thesis using find_c_int(1)[OF assms(1-3)] by (auto simp: objfs_getattr_def Let_def add.commute)
qed

end

text \<open>A store that refuses a name that is in use and changes nothing then.\<close>

locale object_store = object_directory +
  assumes create_dup: "inv s \<Longrightarrow> good_key key \<Longrightarrow> dir s i = Some (cstr key) \<Longrightarrow>
      op_create_object ops key s = Some (-1, s)"
begin

lemma create_open:
  assumes "inv s" "good_key key" "\<forall>i. dir s i \<noteq> Some (cstr key)" "room s"
  shows "\<exists>fi' s'. objfs_create ops (47 # key) fi s = Some (0, fi', s') \<and> inv s' \<and>
    objfs_open ops (47 # key) fi s' = (0, fi') \<and> objfs_create ops (47 # key) fi s' = Some (-EEXIST, fi, s')"
proof -
  obtain i s' where c: "objfs_create ops (47 # key) fi s = Some (0, fi\<lparr>fh := of_nat (i + 2)\<rparr>, s')" "inv s'"
      "dir s' = (dir s)(i \<mapsto> cstr key)" "objfs_open ops (47 # key) fi s' = (0, fi\<lparr>fh := of_nat (i + 2)\<rparr>)"
    using create_opens[OF assms] by blast
  have "objfs_create ops (47 # key) fi s' = Some (-EEXIST, fi, s')"
    using create_dup[OF c(2) assms(2), of i] c(3) by (simp add: objfs_create_def)
  then show ?thesis using c by blast
qed

end

section \<open>The store of this assignment provides it\<close>

lemma fillup_ino:
  assumes "i < MAX_OBJS" "st_ino st = of_nat (i + 2)"
  shows "\<exists>st'. fillup_size_details st s = Some (0, st') \<and> st_ino st' = st_ino st"
proof -
  have un: "unat (of_nat (i + 2) :: u64) = i + 2" using assms(1) unfolding unat_of_nat by (intro mod_less) simp
  then have "\<not> st_ino st < 2" using assms(2) by (simp add: word_less_nat_alt)
  moreover have "unat (st_ino st - 2) = i" using assms by (simp add: unat_of_nat)
  ultimately show ?thesis using assms(1) by (auto simp: fillup_size_details_def Let_def)
qed

interpretation store: object_store "objstore_ops c" "store_inv c" names valid_key "\<lambda>k. KEY_SIZE \<le> length k"
    "\<lambda>s. free_slot s \<noteq> None" for c
proof
  fix s :: objfs_state and i j k and key new :: "byte list" and st :: stat
  show "i < 1000000" if "names s i = Some k" using names_bound[OF that] .
  show "i = j" if "store_inv c s" "names s i = Some k" "names s j = Some k"
    using names_unique[of s i k j] that by (simp add: store_inv_def)
  show "op_find_object_id (objstore_ops c) key s = int i + 2 \<longleftrightarrow> names s i = Some (cstr key)"
    if "store_inv c s" "valid_key key"
  proof -
    have d: "dir_inv s" and ne: "cstr key \<noteq> []" using that by (simp_all add: store_inv_def valid_key_def)
    show ?thesis using find_object_id_iff[OF d ne, of i] by (simp add: objstore_ops_def)
  qed
  show "op_find_object_id (objstore_ops c) key s = -1 \<longleftrightarrow> (\<forall>i. names s i \<noteq> Some (cstr key))"
    if "store_inv c s" "valid_key key"
  proof -
    have d: "dir_inv s" and ne: "cstr key \<noteq> []" using that by (simp_all add: store_inv_def valid_key_def)
    show ?thesis using find_object_id_iff[OF d ne] by (simp add: objstore_ops_def)
  qed
  show "\<exists>i s'. op_create_object (objstore_ops c) key s = Some (int i + 2, s') \<and> store_inv c s' \<and> names s i = None \<and>
      names s' = (names s)(i \<mapsto> cstr key)"
    if "store_inv c s" "valid_key key" "\<forall>i. names s i \<noteq> Some (cstr key)" "free_slot s \<noteq> None"
  proof -
    from that(4) obtain i where i: "free_slot s = Some i" by auto
    then have "names s i = None" using free_slot_Some[OF i] by (simp add: names_def)
    then show ?thesis using create_object_store[OF that(1-3) i] by (auto simp: objstore_ops_def)
  qed
  show "op_create_object (objstore_ops c) key s = Some (-1, s)"
    if "store_inv c s" "valid_key key" "names s i = Some (cstr key)"
    using create_object_refused[of s key] that by (auto simp: objstore_ops_def store_inv_def)
  show "\<exists>s'. op_destroy_object (objstore_ops c) key s = Some (0, s') \<and> store_inv c s' \<and> names s' = (names s)(i := None)"
    if "store_inv c s" "valid_key key" "names s i = Some (cstr key)"
    using destroy_object_ok[OF that] by (auto simp: objstore_ops_def)
  show "\<exists>r s'. op_rename_object (objstore_ops c) key new s = Some (r, s') \<and> 0 \<le> r \<and> store_inv c s' \<and> names s' = (names s)(i \<mapsto> cstr new)"
    if "store_inv c s" "valid_key key" "valid_key new" "KEY_SIZE \<le> length new" "names s i = Some (cstr key)"
      "\<forall>j. names s j \<noteq> Some (cstr new)"
    using rename_object_store[OF that] by (auto simp: objstore_ops_def)
  show "\<exists>st'. op_fillup_size_details (objstore_ops c) st s = Some (0, st') \<and> st_ino st' = st_ino st"
    if "store_inv c s" "names s i = Some k" "st_ino st = of_nat (i + 2)"
    using fillup_ino[OF names_bound[OF that(2)] that(3)] by (auto simp: objstore_ops_def)
qed

section \<open>The file system\<close>

text \<open>
  Creating a file that does not exist, while the table has room, succeeds and gives a handle;
  opening it then gives the same handle, and creating it again is refused with \<open>EEXIST\<close> and
  changes nothing.
\<close>

theorem objfs_create_open:
  assumes "store_inv c s" "valid_key key" "\<forall>i. names s i \<noteq> Some (cstr key)" "free_slot s \<noteq> None"
  shows "\<exists>fi' s'. objfs_create (objstore_ops c) (47 # key) fi s = Some (0, fi', s') \<and> store_inv c s' \<and>
    objfs_open (objstore_ops c) (47 # key) fi s' = (0, fi') \<and>
    objfs_create (objstore_ops c) (47 # key) fi s' = Some (-EEXIST, fi, s')"
  using store.create_open[OF assms] .

theorem objfs_create_open_witness:
  "\<exists>fi' s'. objfs_create (objstore_ops True) [47, 98, 0] \<lparr>fh = 0\<rparr> demo_fs = Some (0, fi', s') \<and>
     objfs_open (objstore_ops True) [47, 98, 0] \<lparr>fh = 0\<rparr> s' = (0, fi')"
  using objfs_create_open[of True demo_fs "[98, 0]" "\<lparr>fh = 0\<rparr>"]
  by (auto simp: demo_inv demo_name demo_keys demo_free_slot)

text \<open>
  Unlinking a file makes it disappear: \<open>open\<close> and \<open>getattr\<close> answer \<open>ENOENT\<close>, every other name
  stays, and the invariant of the store holds.
\<close>

theorem objfs_unlink_removes:
  assumes "store_inv c s" "valid_key key" "names s i = Some (cstr key)"
  shows "\<exists>s'. objfs_unlink (objstore_ops c) (47 # key) s = Some (0, s') \<and> store_inv c s' \<and>
    names s' = (names s)(i := None) \<and> objfs_open (objstore_ops c) (47 # key) fi s' = (-ENOENT, fi) \<and>
    objfs_getattr (objstore_ops c) uid gid (47 # key) s' = Some (-ENOENT, def_fstat s')"
proof -
  have "cstr key \<noteq> []" using assms(2) by (simp add: valid_key_def)
  from store.unlink_gone[OF assms this, of fi uid gid] show ?thesis by (simp add: objstore_ops_def)
qed

theorem objfs_unlink_removes_witness:
  "\<exists>s'. objfs_unlink (objstore_ops False) [47, 97, 0] demo_fs = Some (0, s') \<and>
     objfs_open (objstore_ops False) [47, 97, 0] \<lparr>fh = 0\<rparr> s' = (-2, \<lparr>fh = 0\<rparr>)"
  using objfs_unlink_removes[of False demo_fs "[97, 0]" 0 "\<lparr>fh = 0\<rparr>" 0 0] by (auto simp: demo_inv demo_name demo_keys)

text \<open>
  After a rename the new path opens with the handle the old path had, so that open files go on
  working, and the old path is gone.
\<close>

theorem objfs_rename_keeps_handle:
  assumes "store_inv c s" "valid_key key" "valid_key new" "KEY_SIZE \<le> length new" "names s i = Some (cstr key)"
    "\<forall>j. names s j \<noteq> Some (cstr new)"
  shows "\<exists>s'. objfs_rename_key (objstore_ops c) (47 # key) (47 # new) s = Some (0, s') \<and> store_inv c s' \<and>
    objfs_open (objstore_ops c) (47 # new) fi s' = objfs_open (objstore_ops c) (47 # key) fi s \<and>
    objfs_open (objstore_ops c) (47 # key) fi s' = (-ENOENT, fi)"
  using store.rename_handle[OF assms] .

theorem objfs_rename_keeps_handle_witness:
  "\<exists>s'. objfs_rename_key (objstore_ops False) [47, 97, 0] (47 # 98 # replicate 31 0) demo_fs = Some (0, s') \<and>
     objfs_open (objstore_ops False) [47, 97, 0] \<lparr>fh = 9\<rparr> s' = (-2, \<lparr>fh = 9\<rparr>)"
  using objfs_rename_keeps_handle[of False demo_fs "[97, 0]" "98 # replicate 31 0" 0 "\<lparr>fh = 9\<rparr>"]
  by (auto simp: demo_inv demo_name demo_keys)

text \<open>
  \<open>getattr\<close> of an existing file reports its identifier as inode number, its size and the number of
  512-byte units, and the caller's user and group; of the root directory, inode 1.
\<close>

theorem objfs_getattr_correct:
  assumes "store_inv c s" "valid_key key" "names s i = Some (cstr key)"
  shows "(\<exists>st. objfs_getattr (objstore_ops c) uid gid (47 # key) s = Some (0, st) \<and> st_ino st = of_nat (i + 2) \<and>
      st_uid st = uid \<and> st_gid st = gid) \<and>
    objfs_getattr (objstore_ops c) uid gid [47, 0] s = Some (0, (def_dirstat s)\<lparr>st_ino := 1, st_uid := uid, st_gid := gid\<rparr>)"
proof
  have "cstr key \<noteq> []" using assms(2) by (simp add: valid_key_def)
  from store.getattr_found[OF assms this]
  show "\<exists>st. objfs_getattr (objstore_ops c) uid gid (47 # key) s = Some (0, st) \<and> st_ino st = of_nat (i + 2) \<and>
      st_uid st = uid \<and> st_gid st = gid" .
qed (simp add: objfs_getattr_def strcmp_eq_def objstore_ops_def)

theorem objfs_getattr_correct_witness:
  "\<exists>st. objfs_getattr (objstore_ops True) 5 6 [47, 97, 0] demo_fs = Some (0, st) \<and> st_ino st = 2"
  using objfs_getattr_correct[of True demo_fs "[97, 0]" 0 5 6] by (auto simp: demo_inv demo_name demo_keys)

text \<open>
  Through the handlers, with the handle of an open file: a write reports the number of bytes, and
  a read of the same range delivers them. The conversions between \<open>size_t\<close>, \<open>int\<close> and \<open>long\<close> lose
  nothing in this range.
\<close>

theorem objfs_write_read:
  assumes "store_inv c s" "names s ob \<noteq> None" "0 < n" "fits off n" "off + n \<le> 16793600"
    "n div BLOCK_SIZE + 5 \<le> nfree s" "fh fi = of_nat (ob + 2)"
  shows "\<exists>s1 s2. objfs_write (objstore_ops c) buf (of_nat n) (int off) fi s = Some (int n, s1) \<and>
    objfs_read (objstore_ops c) old (of_nat n) (int off) fi s1 = Some (int n, s2, \<lambda>x. if x < n then buf x else old x)"
proof -
  have ob: "ob < MAX_OBJS" using assms(2) names_bound by blast
  have h: "c_int (uint (fh fi)) = int ob + 2" unfolding assms(7) by (rule handle_c_int[OF ob])
  have z: "c_int (uint (of_nat n :: u64)) = int n" "c_int (int n) = int n" using size_c_int[of n] assms(5) by simp_all
  obtain s1 where w: "objstore_write c (int ob + 2) buf (int n) s (int off) = Some (int n, s1)" "store_inv c s1"
      "\<forall>x<n. ptr c s1 ob (slot_of ((off + x) div BLOCK_SIZE)) \<noteq> 0 \<and> content c s1 ob (off + x) = buf x"
      "\<forall>i<4. BLOCK_SIZE * base i < off + n \<longrightarrow> ptr c s1 ob (Ind i) \<noteq> 0"
    using objstore_write_result[OF assms(1-6), of buf] by blast
  have "dense c s1 ob off n" using w(3,4) unfolding dense_def by blast
  then obtain s2 where r: "objstore_read c (int ob + 2) old (int n) s1 (int off) =
      Some (int n, s2, \<lambda>x. if x < n then content c s1 ob (off + x) else old x)"
    using objstore_read_result[OF w(2) ob assms(3-5)] by blast
  have e: "(\<lambda>x. if x < n then content c s1 ob (off + x) else old x) = (\<lambda>x. if x < n then buf x else old x)"
    using w(3) by (simp add: fun_eq_iff)
  show ?thesis
    using w(1) r unfolding e by (simp add: objfs_write_def objfs_read_def objstore_ops_def h z)
qed

theorem objfs_write_read_witness:
  "\<exists>s1 s2. objfs_write (objstore_ops False) (\<lambda>_. 7) 100 8192 \<lparr>fh = 2\<rparr> demo_fs = Some (100, s1) \<and>
    objfs_read (objstore_ops False) zero_buf 100 8192 \<lparr>fh = 2\<rparr> s1 = Some (100, s2, \<lambda>x. if x < 100 then 7 else zero_buf x)"
  using objfs_write_read[of False demo_fs 0 100 8192 "\<lparr>fh = 2\<rparr>" "\<lambda>_. 7" zero_buf]
  by (simp add: demo_inv demo_names fits_def demo_nfree)

text \<open>
  \<open>unlink\<close> reports success even when there is no such file, leaving the store as it was, although
  \<open>destroy_object\<close> below reports the failure.
\<close>

theorem objfs_unlink_missing:
  assumes "store_inv c s" "valid_key key" "\<forall>i. names s i \<noteq> Some (cstr key)"
  shows "objfs_unlink (objstore_ops c) (47 # key) s = Some (0, s) \<and> destroy_object c key s = Some (-1, s)"
proof -
  have "dir_inv s" "cstr key \<noteq> []" using assms(1,2) by (simp_all add: store_inv_def valid_key_def)
  then have "find_object s key = None" using find_object_None assms(3) by blast
  then show ?thesis by (simp add: objfs_unlink_def objstore_ops_def destroy_object_def)
qed

theorem objfs_unlink_missing_witness: "objfs_unlink (objstore_ops True) [47, 98, 0] demo_fs = Some (0, demo_fs)"
  using objfs_unlink_missing[of True demo_fs "[98, 0]"] by (simp add: demo_inv demo_name demo_keys)

end
