(* ===== verification/AbstractFs.thy ===== *)
theory AbstractFs
  imports Objfs
begin

text \<open>
  The abstract specification of the file system: a partial map from names to files, where a file is
  the partial map of the bytes that have been written. The handlers of \<open>Objfs\<close> on the store of
  \<open>assignment-4/objstore.c\<close> refine it, in both builds and over sequences of operations.
\<close>

section \<open>The specification\<close>

type_synonym afile = "nat \<rightharpoonup> byte"
type_synonym afs = "byte list \<rightharpoonup> afile"

datatype fs_op =
    Create "byte list"
  | Unlink "byte list"
  | Rename "byte list" "byte list"
  | Write "byte list" nat "byte list"
  | Read "byte list" nat nat

datatype fs_result = Status int | Bytes "byte list"

text \<open>
  A write defines the bytes it writes. What lies behind them in the last block it touches is not
  specified any more: a write that starts a block does not read the block first.
\<close>

definition awrite :: "nat \<Rightarrow> byte list \<Rightarrow> afile \<Rightarrow> afile" where
  "awrite off d f x = (if off \<le> x \<and> x < off + length d then Some (d ! (x - off))
     else if off + length d \<le> x \<and> touched off (length d) (x div BLOCK_SIZE) then None
     else f x)"

definition aresult :: "fs_op \<Rightarrow> afs \<Rightarrow> fs_result" where
  "aresult oper A = (case oper of
     Create k \<Rightarrow> Status (if A (cstr k) = None then 0 else -EEXIST)
   | Unlink k \<Rightarrow> Status 0
   | Rename k k' \<Rightarrow> Status (if A (cstr k) = None \<or> A (cstr k') \<noteq> None then -EINVAL else 0)
   | Write k off d \<Rightarrow> Status (if A (cstr k) = None then -ENOENT else int (length d))
   | Read k off n \<Rightarrow> (case A (cstr k) of None \<Rightarrow> Status (-ENOENT)
       | Some f \<Rightarrow> Bytes (map (\<lambda>x. the (f (off + x))) [0 ..< n])))"

definition anext :: "fs_op \<Rightarrow> afs \<Rightarrow> afs" where
  "anext oper A = (case oper of
     Create k \<Rightarrow> if A (cstr k) = None then A(cstr k \<mapsto> Map.empty) else A
   | Unlink k \<Rightarrow> A(cstr k := None)
   | Rename k k' \<Rightarrow> (case A (cstr k) of None \<Rightarrow> A
       | Some f \<Rightarrow> if A (cstr k') = None then A(cstr k := None, cstr k' \<mapsto> f) else A)
   | Write k off d \<Rightarrow> (case A (cstr k) of None \<Rightarrow> A | Some f \<Rightarrow> A(cstr k \<mapsto> awrite off d f))
   | Read k off n \<Rightarrow> A)"

section \<open>The implementation\<close>

text \<open>An operation as a client sees it: reading and writing open the file first. A path is \<open>/\<close> and the name.\<close>

definition run_op :: "bool \<Rightarrow> fs_op \<Rightarrow> objfs_state \<Rightarrow> (fs_result \<times> objfs_state) option" where
  "run_op c oper s = (let ops = objstore_ops c; fi0 = \<lparr>fh = 0\<rparr> in case oper of
     Create k \<Rightarrow> map_option (\<lambda>(r, _, s'). (Status r, s')) (objfs_create ops (47 # k) fi0 s)
   | Unlink k \<Rightarrow> map_option (\<lambda>(r, s'). (Status r, s')) (objfs_unlink ops (47 # k) s)
   | Rename k k' \<Rightarrow> map_option (\<lambda>(r, s'). (Status r, s')) (objfs_rename_key ops (47 # k) (47 # k') s)
   | Write k off d \<Rightarrow> (case objfs_open ops (47 # k) fi0 s of (r, fi) \<Rightarrow>
       if r < 0 then Some (Status r, s)
       else map_option (\<lambda>(r, s'). (Status r, s'))
              (objfs_write ops (\<lambda>x. d ! x) (of_nat (length d)) (int off) fi s))
   | Read k off n \<Rightarrow> (case objfs_open ops (47 # k) fi0 s of (r, fi) \<Rightarrow>
       if r < 0 then Some (Status r, s)
       else map_option (\<lambda>(r, s', buf). (if r < 0 then Status r else Bytes (map buf [0 ..< nat r]), s'))
              (objfs_read ops zero_buf (of_nat n) (int off) fi s)))"

text \<open>
  What the client has to respect: keys that fit, transfers that do not run over the block buffer and
  stay below the maximal size, reads of bytes that are defined; and the resources that are needed.
\<close>

definition admissible :: "fs_op \<Rightarrow> objfs_state \<Rightarrow> afs \<Rightarrow> bool" where
  "admissible oper s A \<longleftrightarrow> (case oper of
     Create k \<Rightarrow> valid_key k \<and> (A (cstr k) = None \<longrightarrow> free_slot s \<noteq> None)
   | Unlink k \<Rightarrow> valid_key k
   | Rename k k' \<Rightarrow> valid_key k \<and> valid_key k' \<and> KEY_SIZE \<le> length k'
   | Write k off d \<Rightarrow> valid_key k \<and> d \<noteq> [] \<and> fits off (length d) \<and> off + length d \<le> 16793600
       \<and> length d div BLOCK_SIZE + 5 \<le> nfree s
   | Read k off n \<Rightarrow> valid_key k \<and> 0 < n \<and> fits off n \<and> off + n \<le> 16793600
       \<and> (\<forall>f. A (cstr k) = Some f \<longrightarrow> (\<forall>x<n. f (off + x) \<noteq> None)))"

section \<open>The simulation relation\<close>

definition file_ok :: "bool \<Rightarrow> objfs_state \<Rightarrow> nat \<Rightarrow> afile \<Rightarrow> bool" where
  "file_ok c s i f \<longleftrightarrow> (\<forall>x b. f x = Some b \<longrightarrow> x < 16793600 \<and> ptr c s i (slot_of (x div BLOCK_SIZE)) \<noteq> 0
     \<and> content c s i x = b \<and> (\<forall>j<4. BLOCK_SIZE * base j \<le> x \<longrightarrow> ptr c s i (Ind j) \<noteq> 0))"

definition represents :: "bool \<Rightarrow> objfs_state \<Rightarrow> afs \<Rightarrow> bool" where
  "represents c s A \<longleftrightarrow> store_inv c s \<and> ran (names s) = dom A
     \<and> (\<forall>i k f. names s i = Some k \<and> A k = Some f \<longrightarrow> file_ok c s i f)"

lemma representsD:
  assumes "represents c s A"
  shows "store_inv c s" "A k = None \<longleftrightarrow> (\<forall>i. names s i \<noteq> Some k)"
    and "names s i = Some k \<Longrightarrow> A k = Some f \<Longrightarrow> file_ok c s i f"
    and "A k = Some f \<Longrightarrow> \<exists>i. names s i = Some k"
proof -
  have r: "(\<exists>i. names s i = Some k) \<longleftrightarrow> A k \<noteq> None" for k
    using assms by (auto simp: represents_def ran_def dom_def set_eq_iff)
  show "A k = None \<longleftrightarrow> (\<forall>i. names s i \<noteq> Some k)" "A k = Some f \<Longrightarrow> \<exists>i. names s i = Some k"
    using r[of k] by auto
qed (use assms in \<open>auto simp: represents_def\<close>)

lemma representsI:
  assumes "store_inv c s" "ran (names s) = dom A" "\<And>i k f. names s i = Some k \<Longrightarrow> A k = Some f \<Longrightarrow> file_ok c s i f"
  shows "represents c s A"
  unfolding represents_def using assms by blast

lemma ran_del:
  assumes "N i = Some k" "\<And>j. N j = Some k \<Longrightarrow> j = i"
  shows "ran (N(i := None)) = ran N - {k}"
proof -
  have "q \<in> ran (N(i := None)) \<longleftrightarrow> q \<in> ran N \<and> q \<noteq> k" for q
  proof
    assume "q \<in> ran (N(i := None))"
    then obtain j where "j \<noteq> i" "N j = Some q" by (auto simp: ran_def split: if_splits)
    then show "q \<in> ran N \<and> q \<noteq> k" using assms(2) by (auto simp: ran_def)
  next
    assume q: "q \<in> ran N \<and> q \<noteq> k"
    then obtain j where j: "N j = Some q" by (auto simp: ran_def)
    then have "j \<noteq> i" using assms(1) q by auto
    then show "q \<in> ran (N(i := None))" using j by (auto simp: ran_def)
  qed
  then show ?thesis by blast
qed

lemma file_ok_same:
  assumes "file_ok c s i f" "obj_direct (objects s' i) = obj_direct (objects s i)"
    "obj_indirect (objects s' i) = obj_indirect (objects s i)" "\<And>b. b \<noteq> 0 \<Longrightarrow> blk_view c s' b = blk_view c s b"
  shows "file_ok c s' i f"
proof -
  have p: "ptr c s' i sl = ptr c s i sl" for sl using assms(2-4) by (cases sl) auto
  then show ?thesis using assms(1,4) unfolding file_ok_def content_def by (simp del: ptr.simps)
qed

lemma slot_of_block: "x < 16793600 \<Longrightarrow> slot_ok (slot_of (x div BLOCK_SIZE))"
  by (rule slot_of_ok) (simp add: div_less_iff_less_mult)

lemma file_ok_empty: "file_ok c s i Map.empty"
  by (simp add: file_ok_def)

lemma open_represented:
  assumes "represents c s A" "valid_key k"
  shows "A (cstr k) = None \<Longrightarrow> objfs_open (objstore_ops c) (47 # k) fi s = (-ENOENT, fi)"
    and "names s i = Some (cstr k) \<Longrightarrow> objfs_open (objstore_ops c) (47 # k) fi s = (0, fi\<lparr>fh := of_nat (i + 2)\<rparr>)"
  using store.open_missing[of c s k] store.open_found[of c s k] representsD(1,2)[OF assms(1)] assms(2) by blast+

text \<open>Two names of one object are equal.\<close>

lemma names_one: "store_inv c s \<Longrightarrow> names s i = Some k \<Longrightarrow> names s j = Some k \<Longrightarrow> i = j"
  using names_unique[of s i k j] by (simp add: store_inv_def)

section \<open>Every operation refines its specification\<close>

lemma create_refines:
  assumes r: "represents c s A" and a: "admissible (Create k) s A"
  shows "\<exists>s'. run_op c (Create k) s = Some (aresult (Create k) A, s') \<and> represents c s' (anext (Create k) A)"
proof (cases "A (cstr k)")
  case (Some f)
  then obtain i where "names s i = Some (cstr k)" using representsD(4)[OF r] by blast
  then have "create_object k s = Some (-1, s)"
    using create_object_refused[of s k] a representsD(1)[OF r] by (auto simp: admissible_def store_inv_def)
  then show ?thesis using Some r
    by (intro exI[of _ s]) (simp add: run_op_def aresult_def anext_def objfs_create_def objstore_ops_def)
next
  case None
  have key: "valid_key k" and new: "\<forall>i. names s i \<noteq> Some (cstr k)"
    using a None representsD(2)[OF r] by (auto simp: admissible_def)
  obtain i where slot: "free_slot s = Some i" using a None by (auto simp: admissible_def)
  obtain s' where s': "create_object k s = Some (int i + 2, s')" "store_inv c s'" "names s' = (names s)(i \<mapsto> cstr k)"
    "\<forall>j. j \<noteq> i \<longrightarrow> objects s' j = objects s j" "s' = s\<lparr>objects := objects s', obj_bmp := obj_bmp s'\<rparr>"
    using create_object_store[OF representsD(1)[OF r] key new slot] by blast
  have ni: "names s i = None" using free_slot_Some[OF slot] by (simp add: names_def)
  have v: "blk_view c s' b = blk_view c s b" for b by (subst s'(5)) (simp add: blk_view_def)
  have "represents c s' (A(cstr k \<mapsto> Map.empty))"
  proof (rule representsI[OF s'(2)])
    show "ran (names s') = dom (A(cstr k \<mapsto> Map.empty))"
      using r ni by (simp add: s'(3) represents_def)
  next
    fix j k' f assume j: "names s' j = Some k'" "(A(cstr k \<mapsto> Map.empty)) k' = Some f"
    show "file_ok c s' j f"
    proof (cases "j = i")
      case True then show ?thesis using j file_ok_empty by (auto simp: s'(3))
    next
      case False
      then have "names s j = Some k'" "k' \<noteq> cstr k" using j(1) new by (auto simp: s'(3))
      then have "file_ok c s j f" using j(2) representsD(3)[OF r] by simp
      then show ?thesis by (rule file_ok_same) (use s'(4) v False in auto)
    qed
  qed
  then show ?thesis using None s'(1)
    by (intro exI[of _ s']) (simp add: run_op_def aresult_def anext_def objfs_create_def objstore_ops_def)
qed

lemma unlink_refines:
  assumes r: "represents c s A" and a: "admissible (Unlink k) s A"
  shows "\<exists>s'. run_op c (Unlink k) s = Some (aresult (Unlink k) A, s') \<and> represents c s' (anext (Unlink k) A)"
proof (cases "A (cstr k)")
  case None
  then have "find_object s k = None"
    using find_object_None[of s k] representsD(1,2)[OF r] a by (auto simp: admissible_def store_inv_def valid_key_def)
  moreover have "A(cstr k := None) = A" using None by auto
  ultimately show ?thesis using r
    by (intro exI[of _ s]) (simp add: run_op_def aresult_def anext_def objfs_unlink_def objstore_ops_def destroy_object_def)
next
  case (Some f)
  note inv = representsD(1)[OF r]
  obtain i where i: "names s i = Some (cstr k)" using Some representsD(4)[OF r] by blast
  obtain s' where s': "destroy_object c k s = Some (0, s')" "store_inv c s'" "names s' = (names s)(i := None)"
    "\<forall>m. m \<noteq> i \<longrightarrow> objects s' m = objects s m" "\<forall>b. b \<noteq> 0 \<longrightarrow> blk_view c s' b = blk_view c s b"
    using destroy_object_ok[OF inv _ i] a by (auto simp: admissible_def)
  have "represents c s' (A(cstr k := None))"
  proof (rule representsI[OF s'(2)])
    show "ran (names s') = dom (A(cstr k := None))"
      using r ran_del[of "names s" i, OF i] names_one[OF inv i] by (simp add: s'(3) represents_def)
  next
    fix j k' g assume j: "names s' j = Some k'" "(A(cstr k := None)) k' = Some g"
    then have "j \<noteq> i" "names s j = Some k'" "A k' = Some g" by (simp_all add: s'(3) split: if_splits)
    then have "file_ok c s j g" using representsD(3)[OF r] by blast
    then show "file_ok c s' j g" by (rule file_ok_same) (use s'(4,5) \<open>j \<noteq> i\<close> in auto)
  qed
  then show ?thesis using s'(1)
    by (intro exI[of _ s']) (simp add: run_op_def aresult_def anext_def objfs_unlink_def objstore_ops_def)
qed

lemma rename_refines:
  assumes r: "represents c s A" and a: "admissible (Rename k k') s A"
  shows "\<exists>s'. run_op c (Rename k k') s = Some (aresult (Rename k k') A, s') \<and> represents c s' (anext (Rename k k') A)"
proof -
  note inv = representsD(1)[OF r]
  have key: "valid_key k" "valid_key k'" "KEY_SIZE \<le> length k'" using a by (auto simp: admissible_def)
  show ?thesis
  proof (cases "A (cstr k) = None \<or> A (cstr k') \<noteq> None")
    case True
    then have "(\<exists>j. names s j = Some (cstr k')) \<or> (\<forall>j. names s j \<noteq> Some (cstr k))"
      using representsD(2)[OF r, of "cstr k"] representsD(2)[OF r, of "cstr k'"] by metis
    then have "rename_object k k' s = Some (-1, s)"
      using rename_object_refused[of s k k'] inv key by (simp add: store_inv_def)
    then show ?thesis using True r
      by (intro exI[of _ s]) (auto simp: run_op_def aresult_def anext_def objfs_rename_key_def objstore_ops_def split: option.split)
  next
    case False
    then obtain f where "A (cstr k) = Some f" "A (cstr k') = None" by auto
    moreover from this obtain i where "names s i = Some (cstr k)" using representsD(4)[OF r] by blast
    ultimately have f: "A (cstr k) = Some f" "A (cstr k') = None" "names s i = Some (cstr k)" by blast+
    obtain s' where s': "rename_object k k' s = Some (int i + 2, s')" "store_inv c s'" "names s' = (names s)(i \<mapsto> cstr k')"
      "\<forall>j. j \<noteq> i \<longrightarrow> objects s' j = objects s j" "objects s' i = (objects s i)\<lparr>obj_key := take KEY_SIZE k'\<rparr>"
      "s' = s\<lparr>objects := objects s', obj_bmp := obj_bmp s'\<rparr>"
      using rename_object_store[OF inv key f(3)] f(2) representsD(2)[OF r, of "cstr k'"] by blast
    have v: "blk_view c s' b = blk_view c s b" for b by (subst s'(6)) (simp add: blk_view_def)
    have o: "obj_direct (objects s' j) = obj_direct (objects s j)" "obj_indirect (objects s' j) = obj_indirect (objects s j)" for j
      using s'(4,5) by (cases "j = i"; simp)+
    have kk: "cstr k \<noteq> cstr k'" using f by auto
    have "represents c s' (A(cstr k := None, cstr k' \<mapsto> f))"
    proof (rule representsI[OF s'(2)])
      have "ran ((names s)(i := None)) = ran (names s) - {cstr k}"
        using ran_del[of "names s" i, OF f(3)] names_one[OF inv f(3)] by blast
      moreover have "ran (((names s)(i := None))(i \<mapsto> cstr k')) = insert (cstr k') (ran ((names s)(i := None)))"
        by (rule ran_map_upd) simp
      ultimately show "ran (names s') = dom (A(cstr k := None, cstr k' \<mapsto> f))"
        using r by (simp add: s'(3) represents_def)
    next
      fix j q g assume j: "names s' j = Some q" "(A(cstr k := None, cstr k' \<mapsto> f)) q = Some g"
      have "file_ok c s j g"
      proof (cases "j = i")
        case True then show ?thesis using j representsD(3)[OF r f(3,1)] by (simp add: s'(3))
      next
        case False
        then have "names s j = Some q" using j(1) by (simp add: s'(3))
        moreover from this have "q \<noteq> cstr k'" using f(2) representsD(2)[OF r, of "cstr k'"] by blast
        ultimately show ?thesis using j(2) representsD(3)[OF r] by (auto split: if_splits)
      qed
      then show "file_ok c s' j g" by (rule file_ok_same) (use o v in auto)
    qed
    then show ?thesis using s'(1) f
      by (intro exI[of _ s']) (simp add: run_op_def aresult_def anext_def objfs_rename_key_def objstore_ops_def)
  qed
qed

text \<open>After a write, by the result of \<open>objstore_write\<close>.\<close>

lemma file_ok_written:
  assumes ok: "file_ok c s i f" and d: "d \<noteq> []" "off + length d \<le> 16793600"
    and new: "\<And>x. x < length d \<Longrightarrow> ptr c s' i (slot_of ((off + x) div BLOCK_SIZE)) \<noteq> 0 \<and> content c s' i (off + x) = d ! x"
    and old: "\<And>x. x < 16793600 \<Longrightarrow> x < off \<or> \<not> touched off (length d) (x div BLOCK_SIZE) \<Longrightarrow>
      ptr c s i (slot_of (x div BLOCK_SIZE)) \<noteq> 0 \<Longrightarrow>
      ptr c s' i (slot_of (x div BLOCK_SIZE)) \<noteq> 0 \<and> content c s' i x = content c s i x"
    and ind: "\<And>j. j < 4 \<Longrightarrow> BLOCK_SIZE * base j < off + length d \<Longrightarrow> ptr c s' i (Ind j) \<noteq> 0"
    and keep: "\<And>sl. slot_ok sl \<Longrightarrow> ptr c s i sl \<noteq> 0 \<Longrightarrow> ptr c s' i sl = ptr c s i sl"
  shows "file_ok c s' i (awrite off d f)"
  unfolding file_ok_def
proof (intro allI impI)
  fix x b assume b: "awrite off d f x = Some b"
  consider (new) "off \<le> x" "x < off + length d" | (old) "x < off \<or> \<not> touched off (length d) (x div BLOCK_SIZE)" "f x = Some b"
    using b by (auto simp: awrite_def split: if_splits)
  then show "x < 16793600 \<and> ptr c s' i (slot_of (x div BLOCK_SIZE)) \<noteq> 0 \<and> content c s' i x = b
      \<and> (\<forall>j<4. BLOCK_SIZE * base j \<le> x \<longrightarrow> ptr c s' i (Ind j) \<noteq> 0)"
  proof cases
    case new
    have "ptr c s' i (Ind j) \<noteq> 0" if "j < 4" "BLOCK_SIZE * base j \<le> x" for j
      using ind[OF that(1)] that(2) new by linarith
    then show ?thesis using assms(4)[of "x - off"] b new d(2) by (simp add: awrite_def)
  next
    case old
    have f: "x < 16793600" "ptr c s i (slot_of (x div BLOCK_SIZE)) \<noteq> 0" "content c s i x = b"
      "\<And>j. j < 4 \<Longrightarrow> BLOCK_SIZE * base j \<le> x \<Longrightarrow> ptr c s i (Ind j) \<noteq> 0"
      using ok old(2) unfolding file_ok_def by blast+
    have "ptr c s' i (Ind j) \<noteq> 0" if "j < 4" "BLOCK_SIZE * base j \<le> x" for j
      using keep[of "Ind j"] f(4)[OF that] that(1) by simp
    then show ?thesis using assms(5)[OF f(1) old(1) f(2)] f(1,3) by blast
  qed
qed

lemma file_ok_other:
  assumes "file_ok c s i f" "\<And>sl. slot_ok sl \<Longrightarrow> ptr c s' i sl = ptr c s i sl"
    "\<And>sl. slot_ok sl \<Longrightarrow> ptr c s i sl \<noteq> 0 \<Longrightarrow> blk_view c s' (ptr c s i sl) = blk_view c s (ptr c s i sl)"
  shows "file_ok c s' i f"
  unfolding file_ok_def
proof (intro allI impI)
  fix x b assume "f x = Some b"
  then have f: "x < 16793600" "ptr c s i (slot_of (x div BLOCK_SIZE)) \<noteq> 0" "content c s i x = b"
    "\<And>j. j < 4 \<Longrightarrow> BLOCK_SIZE * base j \<le> x \<Longrightarrow> ptr c s i (Ind j) \<noteq> 0"
    using assms(1) unfolding file_ok_def by blast+
  note sl = slot_of_block[OF f(1)]
  have "content c s' i x = b" using f(2,3) assms(2,3)[OF sl] by (simp add: content_def)
  moreover have "ptr c s' i (Ind j) = ptr c s i (Ind j)" if "j < 4" for j using assms(2)[of "Ind j"] that by simp
  ultimately show "x < 16793600 \<and> ptr c s' i (slot_of (x div BLOCK_SIZE)) \<noteq> 0 \<and> content c s' i x = b
      \<and> (\<forall>j<4. BLOCK_SIZE * base j \<le> x \<longrightarrow> ptr c s' i (Ind j) \<noteq> 0)"
    using f assms(2)[OF sl] by (simp del: ptr.simps)
qed

lemma write_refines:
  assumes r: "represents c s A" and a: "admissible (Write k off d) s A"
  shows "\<exists>s'. run_op c (Write k off d) s = Some (aresult (Write k off d) A, s') \<and> represents c s' (anext (Write k off d) A)"
proof (cases "A (cstr k)")
  case None
  then have "objfs_open (objstore_ops c) (47 # k) \<lparr>fh = 0\<rparr> s = (-ENOENT, \<lparr>fh = 0\<rparr>)"
    using open_represented(1)[OF r] a by (simp add: admissible_def)
  then show ?thesis using None r by (intro exI[of _ s]) (simp add: run_op_def aresult_def anext_def)
next
  case (Some f)
  obtain i where i: "names s i = Some (cstr k)" using Some representsD(4)[OF r] by blast
  have adm: "valid_key k" "0 < length d" "d \<noteq> []" "fits off (length d)" "off + length d \<le> 16793600"
    "length d div BLOCK_SIZE + 5 \<le> nfree s" using a by (auto simp: admissible_def)
  have "names s i \<noteq> None" using i by simp
  from objstore_write_result[OF representsD(1)[OF r] this adm(2,4,5,6), of "\<lambda>x. d ! x"]
  obtain s' where w: "objstore_write c (int i + 2) (\<lambda>x. d ! x) (int (length d)) s (int off) = Some (int (length d), s')"
      "store_inv c s'" "names s' = names s"
      "\<forall>x<length d. ptr c s' i (slot_of ((off + x) div BLOCK_SIZE)) \<noteq> 0 \<and> content c s' i (off + x) = d ! x"
      "\<forall>x<16793600. x < off \<or> \<not> touched off (length d) (x div BLOCK_SIZE) \<longrightarrow> ptr c s i (slot_of (x div BLOCK_SIZE)) \<noteq> 0 \<longrightarrow>
         ptr c s' i (slot_of (x div BLOCK_SIZE)) \<noteq> 0 \<and> content c s' i x = content c s i x"
      "\<forall>j<4. BLOCK_SIZE * base j < off + length d \<longrightarrow> ptr c s' i (Ind j) \<noteq> 0"
      "\<forall>m<MAX_OBJS. m \<noteq> i \<longrightarrow> objects s' m = objects s m \<and>
         (\<forall>sl. slot_ok sl \<longrightarrow> ptr c s' m sl = ptr c s m sl \<and>
            (ptr c s m sl \<noteq> 0 \<longrightarrow> blk_view c s' (ptr c s m sl) = blk_view c s (ptr c s m sl)))"
      "\<forall>sl. slot_ok sl \<longrightarrow> ptr c s i sl \<noteq> 0 \<longrightarrow> ptr c s' i sl = ptr c s i sl"
    by (elim exE conjE) (rule that)
  have self: "file_ok c s' i (awrite off d f)"
    by (rule file_ok_written[OF representsD(3)[OF r i Some] adm(3,5)]) (use w(4-6,8) in blast)+
  have "represents c s' (A(cstr k \<mapsto> awrite off d f))"
  proof (rule representsI[OF w(2)])
    show "ran (names s') = dom (A(cstr k \<mapsto> awrite off d f))"
      using r Some by (auto simp: w(3) represents_def)
  next
    fix j q g assume j: "names s' j = Some q" "(A(cstr k \<mapsto> awrite off d f)) q = Some g"
    show "file_ok c s' j g"
    proof (cases "j = i")
      case True then show ?thesis using j i self by (simp add: w(3))
    next
      case False
      then have q: "q \<noteq> cstr k" using names_one[OF representsD(1)[OF r] i] j(1) by (auto simp: w(3))
      then have "file_ok c s j g" using j representsD(3)[OF r] by (simp add: w(3))
      moreover have "j < MAX_OBJS" using j(1) names_bound by (simp add: w(3))
      ultimately show ?thesis using w(7) False by (blast intro: file_ok_other)
    qed
  qed
  moreover have "i < 1000000" using names_bound[OF i] .
  ultimately show ?thesis
    using Some w(1) open_represented(2)[OF r adm(1) i] handle_c_int[of i] size_c_int[of "length d"] adm(5)
    by (intro exI[of _ s']) (simp add: run_op_def aresult_def anext_def objfs_write_def objstore_ops_def)
qed

lemma file_ok_dense:
  assumes ok: "file_ok c s i f" and n: "0 < n" and all: "\<And>x. x < n \<Longrightarrow> f (off + x) \<noteq> None"
  shows "dense c s i off n" "x < n \<Longrightarrow> content c s i (off + x) = the (f (off + x))"
proof -
  have f: "ptr c s i (slot_of ((off + x) div BLOCK_SIZE)) \<noteq> 0" "content c s i (off + x) = the (f (off + x))"
    "\<And>j. j < 4 \<Longrightarrow> BLOCK_SIZE * base j \<le> off + x \<Longrightarrow> ptr c s i (Ind j) \<noteq> 0" if "x < n" for x
    using ok all[OF that] unfolding file_ok_def by (metis option.exhaust_sel)+
  have "ptr c s i (Ind j) \<noteq> 0" if "j < 4" "BLOCK_SIZE * base j < off + n" for j
    using f(3)[of "n - 1" j] that n by (simp add: less_Suc_eq_le[symmetric])
  then show "dense c s i off n" using f(1) unfolding dense_def by blast
  show "x < n \<Longrightarrow> content c s i (off + x) = the (f (off + x))" using f(2) .
qed

lemma read_refines:
  assumes r: "represents c s A" and a: "admissible (Read k off n) s A"
  shows "\<exists>s'. run_op c (Read k off n) s = Some (aresult (Read k off n) A, s') \<and> represents c s' (anext (Read k off n) A)"
proof (cases "A (cstr k)")
  case None
  then have "objfs_open (objstore_ops c) (47 # k) \<lparr>fh = 0\<rparr> s = (-ENOENT, \<lparr>fh = 0\<rparr>)"
    using open_represented(1)[OF r] a by (simp add: admissible_def)
  then show ?thesis using None r by (intro exI[of _ s]) (simp add: run_op_def aresult_def anext_def)
next
  case (Some f)
  note inv = representsD(1)[OF r]
  obtain i where i: "names s i = Some (cstr k)" using Some representsD(4)[OF r] by blast
  have ob: "i < 1000000" using names_bound[OF i] .
  have adm: "valid_key k" "0 < n" "fits off n" "off + n \<le> 16793600" "\<And>x. x < n \<Longrightarrow> f (off + x) \<noteq> None"
    using a Some by (auto simp: admissible_def)
  note fd = file_ok_dense[OF representsD(3)[OF r i Some] adm(2,5)]
  from objstore_read_result[OF inv ob adm(2-4) fd(1)] obtain s' where
    rd: "objstore_read c (int i + 2) zero_buf (int n) s (int off) =
      Some (int n, s', \<lambda>x. if x < n then content c s i (off + x) else zero_buf x)" "only_read c s s'" by blast
  have "represents c s' A"
  proof (rule representsI)
    show "store_inv c s'" "ran (names s') = dom A"
      using store_inv_only_read[OF inv rd(2)] r by (auto simp: represents_def)
    fix j q g assume "names s' j = Some q" "A q = Some g"
    then have "file_ok c s j g" using store_inv_only_read[OF inv rd(2)] representsD(3)[OF r] by simp
    then show "file_ok c s' j g"
      by (rule file_ok_same) (use rd(2) in \<open>auto simp: only_read_def same_blocks_def\<close>)
  qed
  moreover have "map (\<lambda>x. if x < n then content c s i (off + x) else zero_buf x) [0 ..< n] = map (\<lambda>x. the (f (off + x))) [0 ..< n]"
    using fd(2) by simp
  ultimately show ?thesis
    using Some rd(1) open_represented(2)[OF r adm(1) i] handle_c_int[OF ob] size_c_int[of n] adm(4)
    by (intro exI[of _ s']) (simp add: run_op_def aresult_def anext_def objfs_read_def objstore_ops_def)
qed

lemmas op_refines = create_refines unlink_refines rename_refines write_refines read_refines

lemma step_refines:
  assumes "represents c s A" "admissible oper s A"
  shows "\<exists>s'. run_op c oper s = Some (aresult oper A, s') \<and> represents c s' (anext oper A)"
  using assms op_refines[of c s A] by (cases oper) blast+

section \<open>Sequences of operations\<close>

primrec run_ops :: "bool \<Rightarrow> fs_op list \<Rightarrow> objfs_state \<Rightarrow> (fs_result list \<times> objfs_state) option" where
  "run_ops c [] s = Some ([], s)"
| "run_ops c (oper # opers) s = (case run_op c oper s of None \<Rightarrow> None
     | Some (r, s1) \<Rightarrow> map_option (\<lambda>(rs, s2). (r # rs, s2)) (run_ops c opers s1))"

primrec aresults :: "fs_op list \<Rightarrow> afs \<Rightarrow> fs_result list" where
  "aresults [] A = []"
| "aresults (oper # opers) A = aresult oper A # aresults opers (anext oper A)"

primrec all_admissible :: "bool \<Rightarrow> fs_op list \<Rightarrow> objfs_state \<Rightarrow> afs \<Rightarrow> bool" where
  "all_admissible c [] s A = True"
| "all_admissible c (oper # opers) s A = (admissible oper s A
     \<and> (case run_op c oper s of None \<Rightarrow> True | Some (_, s1) \<Rightarrow> all_admissible c opers s1 (anext oper A)))"

text \<open>
  C1: The file system refines its specification: whatever sequence of creations, removals, renamings,
  writes and reads a client issues, as long as it respects the limits of the code and there is room,
  every operation returns what the abstract file system returns, in both builds, and the store
  represents the abstract file system again.
\<close>

theorem fs_refines:
  assumes "represents c s A" "all_admissible c opers s A"
  shows "\<exists>s'. run_ops c opers s = Some (aresults opers A, s') \<and> represents c s' (fold anext opers A)"
  using assms
proof (induction opers arbitrary: s A)
  case (Cons oper opers)
  obtain s1 where s1: "run_op c oper s = Some (aresult oper A, s1)" "represents c s1 (anext oper A)"
    using step_refines[OF Cons.prems(1)] Cons.prems(2) by auto
  then show ?case using Cons.IH[OF s1(2)] Cons.prems(2) by auto
qed simp

lemma demo_represents: "represents c demo_fs [[97] \<mapsto> Map.empty]"
proof (rule representsI[OF demo_inv])
  show "ran (names demo_fs) = dom [[97] \<mapsto> Map.empty]" by (auto simp: ran_def demo_names split: if_splits)
  fix i k and f :: afile assume "[[97] \<mapsto> Map.empty] k = Some f"
  then have "f = Map.empty" by (auto split: if_splits)
  then show "file_ok c demo_fs i f" using file_ok_empty by simp
qed

theorem fs_refines_witness:
  "\<exists>s'. run_ops True [Write [97, 0] 4096 [7, 8], Read [97, 0] 4096 2, Rename [97, 0] (98 # replicate 31 0),
       Read [97, 0] 4096 2, Read [98, 0] 4097 1, Unlink [98, 0], Read [98, 0] 0 1] demo_fs
     = Some ([Status 2, Bytes [7, 8], Status 0, Status (-2), Bytes [8], Status 0, Status (-2)], s')"
proof -
  let ?ops = "[Write [97, 0] 4096 [7, 8], Read [97, 0] 4096 2, Rename [97, 0] (98 # replicate 31 0),
    Read [97, 0] 4096 2, Read [98, 0] 4097 1, Unlink [98, 0], Read [98, 0] 0 1]"
  let ?A = "[[97] \<mapsto> Map.empty] :: afs"
  have w: "awrite 4096 [7, 8] Map.empty (4096 + x) = Some ([7, 8] ! x)" if "x < 2" for x
    using that by (simp add: awrite_def)
  have w0: "awrite 4096 [7, 8] Map.empty 4096 = Some 7" "awrite 4096 [7, 8] Map.empty 4097 = Some 8"
    using w[of 0] w[of 1] by simp_all
  have "all_admissible True ?ops demo_fs ?A"
    by (simp add: admissible_def anext_def demo_keys fits_def demo_nfree w w0 split: option.split)
  moreover have "aresults ?ops ?A = [Status 2, Bytes [7, 8], Status 0, Status (-2), Bytes [8], Status 0, Status (-2)]"
    by (simp add: aresult_def anext_def demo_keys w0 upt_rec)
  ultimately show ?thesis using fs_refines[OF demo_represents, of True ?ops] by auto
qed

end
