(* ===== verification/Concurrent.thy ===== *)
theory Concurrent
  imports Demo
begin

text \<open>
  \<open>alloc_block\<close> and \<open>free_block\<close> of \<open>assignment-4/objstore.c\<close> as several threads run them: the
  bitmap \<open>blk_bmp\<close> and the mutex \<open>blk_bmp_lk\<close> are shared, every thread has a program counter with
  its locals, and an execution is a sequence of events that names the thread that moves. One event
  makes at most one access to shared data. \<open>Bitmap\<close> has the same two functions as sequential code;
  a call that nobody interrupts computes that result. The lock does its work of keeping marks, but
  the word of the bitmap is read before the lock is taken.
\<close>

section \<open>Threads, the lock and the shared bitmap\<close>

text \<open>
  \<open>Load_word i\<close> is about to execute \<open>temp = bitmap[i]\<close>; the next four are the body of the inner loop
  with its locals \<open>i\<close>, \<open>j\<close> and \<open>tmp\<close> (\<open>temp\<close> in the source); the three after them are the body of \<open>free_block\<close>.
  \<open>Finished\<close> carries the value that the last call returned.
\<close>

datatype bmp_pc =
    Idle
  | Load_word nat
  | Lock_bit nat nat u64
  | Test_bit nat nat u64
  | Unlock_found nat nat
  | Unlock_next nat nat u64
  | Lock_free u32
  | Clear_bit u32
  | Unlock_free u32
  | Finished u32

record bmp_threads =
  sh_bmp :: "nat \<Rightarrow> u64"
  sh_lk :: "nat option"
  sh_pc :: "nat \<Rightarrow> bmp_pc"

datatype bmp_event = Call_alloc nat | Call_free nat u32 | Run nat

abbreviation first_word :: nat where "first_word \<equiv> RES_BLOCKS div 64 - 1"

definition goto :: "nat \<Rightarrow> bmp_pc \<Rightarrow> bmp_threads \<Rightarrow> bmp_threads" where
  "goto t p st = st\<lparr>sh_pc := (sh_pc st)(t := p)\<rparr>"

text \<open>\<open>pthread_mutex_lock\<close> cannot be executed while another call holds the mutex.\<close>

definition lock_to :: "nat \<Rightarrow> bmp_pc \<Rightarrow> bmp_threads \<Rightarrow> bmp_threads option" where
  "lock_to t p st = (if sh_lk st = None then Some (goto t p (st\<lparr>sh_lk := Some t\<rparr>)) else None)"

definition unlock_to :: "nat \<Rightarrow> bmp_pc \<Rightarrow> bmp_threads \<Rightarrow> bmp_threads" where
  "unlock_to t p st = goto t p (st\<lparr>sh_lk := None\<rparr>)"

text \<open>The control flow after the bit at \<open>j\<close> turned out to be set: next bit, next word or \<open>-1\<close>.\<close>

definition next_bit :: "nat \<Rightarrow> nat \<Rightarrow> u64 \<Rightarrow> bmp_pc" where
  "next_bit i j tmp =
     (if Suc j < 64 then Lock_bit i (Suc j) (drop_bit 1 tmp)
      else if Suc i < BLK_BMP_LN then Load_word (Suc i)
      else Finished (-1))"

definition thread_step :: "nat \<Rightarrow> bmp_threads \<Rightarrow> bmp_threads option" where
  "thread_step t st =
     (case sh_pc st t of
        Idle \<Rightarrow> None
      | Load_word i \<Rightarrow> Some (goto t (Lock_bit i 0 (sh_bmp st i)) st)
      | Lock_bit i j tmp \<Rightarrow> lock_to t (Test_bit i j tmp) st
      | Test_bit i j tmp \<Rightarrow>
          Some (if tmp AND 1 = 0
                then goto t (Unlock_found i j)
                       (st\<lparr>sh_bmp := (sh_bmp st)(i := set_bit j (sh_bmp st i))\<rparr>)
                else goto t (Unlock_next i j tmp) st)
      | Unlock_found i j \<Rightarrow> Some (unlock_to t (Finished (of_nat (64 * i + j))) st)
      | Unlock_next i j tmp \<Rightarrow> Some (unlock_to t (next_bit i j tmp) st)
      | Lock_free b \<Rightarrow> lock_to t (Clear_bit b) st
      | Clear_bit b \<Rightarrow>
          Some (goto t (Unlock_free b)
            (st\<lparr>sh_bmp := (sh_bmp st)
               (unat b div 64 := unset_bit (unat b mod 64) (sh_bmp st (unat b div 64)))\<rparr>))
      | Unlock_free b \<Rightarrow> Some (unlock_to t (Finished 0) st)
      | Finished r \<Rightarrow> None)"

text \<open>
  A thread that is not in a call may start one. A call of \<open>free_block\<close> for a block outside the
  bitmap is undefined behaviour and not an event.
\<close>

fun may_call :: "bmp_pc \<Rightarrow> bool" where
  "may_call Idle = True"
| "may_call (Finished r) = True"
| "may_call p = False"

fun bmp_step :: "bmp_event \<Rightarrow> bmp_threads \<Rightarrow> bmp_threads option" where
  "bmp_step (Call_alloc t) st =
     (if may_call (sh_pc st t) then Some (goto t (Load_word first_word) st) else None)"
| "bmp_step (Call_free t b) st =
     (if may_call (sh_pc st t) \<and> unat b div 64 < BLK_BMP_LN then Some (goto t (Lock_free b) st) else None)"
| "bmp_step (Run t) st = thread_step t st"

definition bmp_start :: "(nat \<Rightarrow> u64) \<Rightarrow> bmp_threads" where
  "bmp_start bm = \<lparr>sh_bmp = bm, sh_lk = None, sh_pc = (\<lambda>_. Idle)\<rparr>"

section \<open>Executions\<close>

fun exec_events :: "('e \<Rightarrow> 's \<Rightarrow> 's option) \<Rightarrow> 's \<Rightarrow> 'e list \<Rightarrow> 's option" where
  "exec_events step s [] = Some s"
| "exec_events step s (e # es) =
     (case step e s of None \<Rightarrow> None | Some s' \<Rightarrow> exec_events step s' es)"

lemma exec_events_append:
  "exec_events step s (es @ fs) =
     (case exec_events step s es of None \<Rightarrow> None | Some s' \<Rightarrow> exec_events step s' fs)"
  by (induction es arbitrary: s) (auto split: option.splits)

text \<open>
  What a property of the states needs to hold along every execution whose events are admitted.
\<close>

locale kept_by =
  fixes step :: "'e \<Rightarrow> 's \<Rightarrow> 's option"
    and admitted :: "'e \<Rightarrow> bool"
    and keeps :: "'s \<Rightarrow> bool"
  assumes step_keeps: "step e s = Some s' \<Longrightarrow> admitted e \<Longrightarrow> keeps s \<Longrightarrow> keeps s'"
begin

lemma exec_keeps:
  "exec_events step s es = Some s' \<Longrightarrow> \<forall>e \<in> set es. admitted e \<Longrightarrow> keeps s \<Longrightarrow> keeps s'"
proof (induction es arbitrary: s)
  case (Cons e es)
  then obtain s1 where "step e s = Some s1" "exec_events step s1 es = Some s'"
    by (auto split: option.splits)
  with Cons show ?case using step_keeps[of e s s1] by simp
qed simp

end

lemmas bmp_step_defs = thread_step_def goto_def lock_to_def unlock_to_def next_bit_def

fun event_thread :: "bmp_event \<Rightarrow> nat" where
  "event_thread (Call_alloc t) = t"
| "event_thread (Call_free t b) = t"
| "event_thread (Run t) = t"

lemma thread_step_other: "thread_step u st = Some st' \<Longrightarrow> u \<noteq> t \<Longrightarrow> sh_pc st' t = sh_pc st t"
  by (cases "sh_pc st u") (auto simp: bmp_step_defs split: if_splits)

lemma bmp_step_other: "bmp_step e st = Some st' \<Longrightarrow> event_thread e \<noteq> t \<Longrightarrow> sh_pc st' t = sh_pc st t"
  by (cases e) (auto simp: thread_step_other goto_def split: if_splits)

section \<open>The lock\<close>

fun in_critical :: "bmp_pc \<Rightarrow> bool" where
  "in_critical (Test_bit i j tmp) = True"
| "in_critical (Unlock_found i j) = True"
| "in_critical (Unlock_next i j tmp) = True"
| "in_critical (Clear_bit b) = True"
| "in_critical (Unlock_free b) = True"
| "in_critical p = False"

definition lock_inv :: "bmp_threads \<Rightarrow> bool" where
  "lock_inv st \<longleftrightarrow> (\<forall>t. in_critical (sh_pc st t) \<longleftrightarrow> sh_lk st = Some t)"

lemma in_critical_next_bit [simp]: "\<not> in_critical (next_bit i j tmp)"
  by (simp add: next_bit_def)

lemma may_call_critical: "may_call p \<Longrightarrow> \<not> in_critical p"
  by (cases p) auto

lemma lock_inv_start [simp]: "lock_inv (bmp_start bm)"
  by (simp add: lock_inv_def bmp_start_def)

lemma lock_inv_bmp [simp]: "lock_inv (st\<lparr>sh_bmp := bm\<rparr>) = lock_inv st"
  by (simp add: lock_inv_def)

lemma lock_inv_goto:
  "lock_inv st \<Longrightarrow> in_critical p = in_critical (sh_pc st t) \<Longrightarrow> lock_inv (goto t p st)"
  by (simp add: lock_inv_def goto_def)

lemma lock_inv_lock:
  "lock_to t p st = Some st' \<Longrightarrow> lock_inv st \<Longrightarrow> in_critical p \<Longrightarrow> lock_inv st'"
  by (auto simp: lock_inv_def lock_to_def goto_def split: if_splits)

lemma lock_inv_unlock:
  "lock_inv st \<Longrightarrow> in_critical (sh_pc st t) \<Longrightarrow> \<not> in_critical p \<Longrightarrow> lock_inv (unlock_to t p st)"
  by (simp add: lock_inv_def unlock_to_def goto_def)

lemma thread_step_lock_inv:
  "thread_step t st = Some st' \<Longrightarrow> lock_inv st \<Longrightarrow> lock_inv st'"
  by (cases "sh_pc st t")
    (auto simp: thread_step_def intro: lock_inv_goto lock_inv_unlock elim: lock_inv_lock split: if_splits)

interpretation locked: kept_by bmp_step "\<lambda>_. True" lock_inv
proof (unfold_locales)
  fix e s s'
  assume "bmp_step e s = Some s'" "lock_inv s"
  then show "lock_inv s'"
    by (cases e)
      (auto simp: may_call_critical intro: lock_inv_goto thread_step_lock_inv split: if_splits)
qed

text \<open>
  C13: In every state that threads calling \<open>alloc_block\<close> and \<open>free_block\<close> can reach, at most one of
  them is between \<open>pthread_mutex_lock\<close> and \<open>pthread_mutex_unlock\<close>; and as long as some call has not
  returned, some thread can take a step: the calls cannot deadlock.
\<close>

theorem bmp_lock_sound:
  assumes "exec_events bmp_step (bmp_start bm) es = Some st"
  shows "(in_critical (sh_pc st t) \<longrightarrow> in_critical (sh_pc st u) \<longrightarrow> t = u) \<and>
    (\<not> may_call (sh_pc st t) \<longrightarrow> (\<exists>v st'. bmp_step (Run v) st = Some st'))"
proof -
  have inv: "lock_inv st" using locked.exec_keeps[OF assms] by simp
  then have "in_critical (sh_pc st t) \<longrightarrow> in_critical (sh_pc st u) \<longrightarrow> t = u"
    by (simp add: lock_inv_def)
  moreover have "\<exists>st'. thread_step v st = Some st'" if "in_critical (sh_pc st v)" for v
    using that by (cases "sh_pc st v") (auto simp: thread_step_def)
  moreover have "\<exists>st'. thread_step t st = Some st'" if "sh_lk st = None" "\<not> may_call (sh_pc st t)"
    using that by (cases "sh_pc st t") (auto simp: thread_step_def lock_to_def)
  ultimately show ?thesis using inv by (cases "sh_lk st") (auto simp: lock_inv_def)
qed

theorem bmp_lock_sound_witness:
  "\<exists>st. exec_events bmp_step (bmp_start (\<lambda>_. 0)) [Call_alloc 0, Call_alloc 1, Run 0, Run 1, Run 0] = Some st \<and>
     in_critical (sh_pc st 0) \<and> \<not> in_critical (sh_pc st 1) \<and> (\<exists>v st'. bmp_step (Run v) st = Some st')"
proof -
  obtain st where st: "exec_events bmp_step (bmp_start (\<lambda>_. 0)) [Call_alloc 0, Call_alloc 1, Run 0, Run 1, Run 0] = Some st"
      "in_critical (sh_pc st 0)" "\<not> may_call (sh_pc st 1)"
    by (simp add: bmp_start_def bmp_step_defs)
  then show ?thesis using bmp_lock_sound[OF st(1), of 0 1] bmp_lock_sound[OF st(1), of 1 1] by auto
qed

section \<open>A call that nobody interrupts\<close>

lemma run_bit_set:
  assumes "sh_pc st t = Lock_bit i j tmp" "sh_lk st = None" "tmp AND 1 = 0"
  shows "exec_events bmp_step st (replicate 3 (Run t)) =
    Some (goto t (Finished (of_nat (64 * i + j)))
      (st\<lparr>sh_bmp := (sh_bmp st)(i := set_bit j (sh_bmp st i))\<rparr>))"
  using assms by (simp add: numeral_3_eq_3 thread_step_def goto_def lock_to_def unlock_to_def)

lemma run_bit_next:
  assumes "sh_pc st t = Lock_bit i j tmp" "sh_lk st = None" "tmp AND 1 \<noteq> 0"
  shows "exec_events bmp_step st (replicate 3 (Run t)) = Some (goto t (next_bit i j tmp) st)"
  using assms by (simp add: numeral_3_eq_3 thread_step_def goto_def lock_to_def unlock_to_def)

lemma goto_simps [simp]:
  "sh_pc (goto t p st) = (sh_pc st)(t := p)" "sh_lk (goto t p st) = sh_lk st"
  "sh_bmp (goto t p st) = sh_bmp st" "goto t p (goto t q st) = goto t p st"
  "(goto t p st)\<lparr>sh_bmp := bm\<rparr> = goto t p (st\<lparr>sh_bmp := bm\<rparr>)"
  by (simp_all add: goto_def)

lemma exec_replicate_add:
  assumes "exec_events step s (replicate m e) = Some s1"
  shows "exec_events step s (replicate (m + n) e) = exec_events step s1 (replicate n e)"
  by (simp add: replicate_add exec_events_append assms)

text \<open>What the shared state is after an uninterrupted scan from word \<open>i\<close>.\<close>

definition scanned :: "nat \<Rightarrow> bmp_threads \<Rightarrow> (nat \<times> nat) option \<Rightarrow> bmp_threads" where
  "scanned t st r =
     (case r of
        Some (a, k) \<Rightarrow> goto t (Finished (of_nat (64 * a + k)))
          (st\<lparr>sh_bmp := (sh_bmp st)(a := set_bit k (sh_bmp st a))\<rparr>)
      | None \<Rightarrow> goto t (Finished (-1)) st)"

lemma scanned_goto [simp]: "scanned t (goto t p st) r = scanned t st r"
  by (auto simp: scanned_def split: option.splits)

lemma run_word_found:
  assumes "scan_word n tmp j = Some k" "j + n = 64" "sh_pc st t = Lock_bit i j tmp" "sh_lk st = None"
  shows "exec_events bmp_step st (replicate (3 * (k - j) + 3) (Run t)) =
    Some (scanned t st (Some (i, k)))"
  using assms
proof (induction n arbitrary: tmp j st)
  case (Suc n)
  show ?case
  proof (cases "tmp AND 1 = 0")
    case True
    with Suc.prems have "k = j" by simp
    then show ?thesis using run_bit_set[OF Suc.prems(3,4) True] by (simp add: scanned_def)
  next
    case False
    with Suc.prems(1) have sc: "scan_word n (drop_bit 1 tmp) (Suc j) = Some k" by simp
    then have k: "Suc j \<le> k" "Suc j < 64"
      using scan_word_Some[OF sc] Suc.prems(2) by auto
    have "exec_events bmp_step (goto t (Lock_bit i (Suc j) (drop_bit 1 tmp)) st)
        (replicate (3 * (k - Suc j) + 3) (Run t)) =
      Some (scanned t st (Some (i, k)))"
      using Suc.IH[OF sc] Suc.prems(2,4) by simp
    moreover have len: "3 * (k - j) + 3 = 3 + (3 * (k - Suc j) + 3)" using k by simp
    ultimately show ?thesis
      unfolding len exec_replicate_add[OF run_bit_next[OF Suc.prems(3,4) False]] using k by (simp add: next_bit_def)
  qed
qed simp

lemma run_word_full:
  assumes "scan_word (Suc n) tmp j = None" "j + Suc n = 64" "sh_pc st t = Lock_bit i j tmp" "sh_lk st = None"
  shows "exec_events bmp_step st (replicate (3 * Suc n) (Run t)) =
    Some (goto t (if Suc i < BLK_BMP_LN then Load_word (Suc i) else Finished (-1)) st)"
  using assms
proof (induction n arbitrary: tmp j st)
  case 0
  then have "tmp AND 1 \<noteq> 0" by (auto split: if_splits)
  from run_bit_next[OF 0(3,4) this] 0(2) show ?case by (simp add: next_bit_def)
next
  case (Suc n)
  then have ne: "tmp AND 1 \<noteq> 0" and sc: "scan_word (Suc n) (drop_bit 1 tmp) (Suc j) = None"
    by (auto split: if_splits)
  have len: "3 * Suc (Suc n) = 3 + 3 * Suc n" by simp
  have "exec_events bmp_step (goto t (Lock_bit i (Suc j) (drop_bit 1 tmp)) st)
      (replicate (3 * Suc n) (Run t)) =
    Some (goto t (if Suc i < BLK_BMP_LN then Load_word (Suc i) else Finished (-1)) st)"
    using Suc.IH[OF sc] Suc.prems(2,4) by simp
  then show ?case
    unfolding len exec_replicate_add[OF run_bit_next[OF Suc.prems(3,4) ne]]
    using Suc.prems(2) by (simp add: next_bit_def)
qed

lemma run_load:
  "sh_pc st t = Load_word i \<Longrightarrow>
     exec_events bmp_step st (replicate 1 (Run t)) = Some (goto t (Lock_bit i 0 (sh_bmp st i)) st)"
  by (simp add: thread_step_def)

lemma run_scan_found:
  assumes "sh_pc st t = Load_word i" "sh_lk st = None" "scan_word 64 (sh_bmp st i) 0 = Some k"
  shows "exec_events bmp_step st (replicate (1 + (3 * k + 3)) (Run t)) = Some (scanned t st (Some (i, k)))"
  unfolding exec_replicate_add[OF run_load[OF assms(1)]]
  using run_word_found[OF assms(3), of "goto t (Lock_bit i 0 (sh_bmp st i)) st" t i] assms(2)
  by simp

lemma run_scan_full:
  assumes "sh_pc st t = Load_word i" "sh_lk st = None" "scan_word 64 (sh_bmp st i) 0 = None"
  shows "exec_events bmp_step st (replicate 193 (Run t)) =
    Some (goto t (if Suc i < BLK_BMP_LN then Load_word (Suc i) else Finished (-1)) st)"
proof -
  have len: "193 = 1 + 3 * Suc 63" by simp
  have "scan_word (Suc 63) (sh_bmp st i) 0 = None" using assms(3) by simp
  from run_word_full[OF this, of "goto t (Lock_bit i 0 (sh_bmp st i)) st" t i] assms(2)
  show ?thesis unfolding len exec_replicate_add[OF run_load[OF assms(1)]] by simp
qed

lemma run_scan:
  assumes "sh_pc st t = Load_word i" "sh_lk st = None" "i + Suc n = BLK_BMP_LN"
  shows "\<exists>m \<le> 193 * Suc n. exec_events bmp_step st (replicate m (Run t)) =
    Some (scanned t st (scan_bmp (Suc n) (sh_bmp st) i))"
  using assms
proof (induction n arbitrary: i st)
  case (0 i st)
  show ?case
  proof (cases "scan_word 64 (sh_bmp st i) 0")
    case None
    then show ?thesis using run_scan_full[OF 0(1,2) None] 0(3) by (auto simp: scanned_def)
  next
    case (Some k)
    then show ?thesis
      using run_scan_found[OF 0(1,2) Some] scan_word_Some[OF Some] by (intro exI[of _ "1 + (3 * k + 3)"]) simp
  qed
next
  case (Suc n i st)
  show ?case
  proof (cases "scan_word 64 (sh_bmp st i) 0")
    case None
    let ?st = "goto t (Load_word (Suc i)) st"
    have full: "exec_events bmp_step st (replicate 193 (Run t)) = Some ?st"
      using run_scan_full[OF Suc.prems(1,2) None] Suc.prems(3) by simp
    obtain m where "m \<le> 193 * Suc n"
      and m: "exec_events bmp_step ?st (replicate m (Run t)) = Some (scanned t ?st (scan_bmp (Suc n) (sh_bmp ?st) (Suc i)))"
      using Suc.IH[of ?st "Suc i"] Suc.prems by auto
    moreover have "scan_bmp (Suc (Suc n)) (sh_bmp st) i = scan_bmp (Suc n) (sh_bmp st) (Suc i)"
      using None by (simp del: scan_bmp.simps add: scan_bmp.simps(2)[of "Suc n"])
    ultimately show ?thesis
      using exec_replicate_add[OF full, of m] by (intro exI[of _ "193 + m"]) (simp del: scan_bmp.simps)
  next
    case (Some k)
    then show ?thesis
      using run_scan_found[OF Suc.prems(1,2) Some] scan_word_Some[OF Some]
      by (intro exI[of _ "1 + (3 * k + 3)"]) simp
  qed
qed

text \<open>
  C12: A call of \<open>alloc_block\<close> that runs while no other thread moves returns within 193 steps for
  each word of the bitmap, and its result and the bitmap are those of the sequential
  \<open>alloc_block\<close>; likewise \<open>free_block\<close>, in three steps.
\<close>

theorem bmp_alone_sequential:
  assumes "may_call (sh_pc st t)" "sh_lk st = None" "sh_bmp st = blk_bmp s"
  shows "(\<exists>m \<le> 193 * (BLK_BMP_LN - first_word).
      exec_events bmp_step st (Call_alloc t # replicate m (Run t)) =
        Some (goto t (Finished (fst (alloc_block s))) (st\<lparr>sh_bmp := blk_bmp (snd (alloc_block s))\<rparr>))) \<and>
    (\<forall>b. exec_events bmp_step st (Call_free t b # replicate 3 (Run t)) =
      (case free_block s b of
         None \<Rightarrow> None
       | Some (r, s') \<Rightarrow> Some (goto t (Finished (of_int r)) (st\<lparr>sh_bmp := blk_bmp s'\<rparr>))))"
proof (intro conjI allI)
  let ?st = "goto t (Load_word first_word) st"
  obtain m where "m \<le> 193 * Suc 130756"
    and m: "exec_events bmp_step ?st (replicate m (Run t)) = Some (scanned t st (scan_bmp (Suc 130756) (blk_bmp s) 315))"
    using run_scan[of ?st t first_word 130756] assms by auto
  moreover have "scanned t st (scan_bmp (Suc 130756) (blk_bmp s) 315) =
      goto t (Finished (fst (alloc_block s))) (st\<lparr>sh_bmp := blk_bmp (snd (alloc_block s))\<rparr>)"
    using assms(3) by (auto simp: scanned_def alloc_block_def Let_def simp del: scan_bmp.simps split: option.splits prod.splits)
  ultimately show "\<exists>m \<le> 193 * (BLK_BMP_LN - first_word).
      exec_events bmp_step st (Call_alloc t # replicate m (Run t)) =
        Some (goto t (Finished (fst (alloc_block s))) (st\<lparr>sh_bmp := blk_bmp (snd (alloc_block s))\<rparr>))"
    using assms(1) by auto
next
  fix b
  show "exec_events bmp_step st (Call_free t b # replicate 3 (Run t)) =
      (case free_block s b of
         None \<Rightarrow> None
       | Some (r, s') \<Rightarrow> Some (goto t (Finished (of_int r)) (st\<lparr>sh_bmp := blk_bmp s'\<rparr>)))"
    using assms by (simp add: free_block_def Let_def numeral_3_eq_3 thread_step_def goto_def lock_to_def unlock_to_def)
qed

theorem bmp_alone_sequential_witness:
  "\<exists>m st'. exec_events bmp_step (bmp_start (blk_bmp demo_fs)) (Call_alloc 0 # replicate m (Run 0)) = Some st' \<and>
     sh_pc st' 0 = Finished (fst (alloc_block demo_fs))"
proof -
  have "may_call (sh_pc (bmp_start (blk_bmp demo_fs)) 0)" "sh_lk (bmp_start (blk_bmp demo_fs)) = None"
      "sh_bmp (bmp_start (blk_bmp demo_fs)) = blk_bmp demo_fs"
    by (simp_all add: bmp_start_def)
  from bmp_alone_sequential[OF this] show ?thesis by (metis fun_upd_same goto_simps(1))
qed

section \<open>Every call ends\<close>

fun pc_ok :: "bmp_pc \<Rightarrow> bool" where
  "pc_ok (Load_word i) = (first_word \<le> i \<and> i < BLK_BMP_LN)"
| "pc_ok (Lock_bit i j tmp) = (first_word \<le> i \<and> i < BLK_BMP_LN \<and> j < 64)"
| "pc_ok (Test_bit i j tmp) = (first_word \<le> i \<and> i < BLK_BMP_LN \<and> j < 64)"
| "pc_ok (Unlock_found i j) = (first_word \<le> i \<and> i < BLK_BMP_LN \<and> j < 64)"
| "pc_ok (Unlock_next i j tmp) = (first_word \<le> i \<and> i < BLK_BMP_LN \<and> j < 64)"
| "pc_ok p = True"

definition pcs_ok :: "bmp_threads \<Rightarrow> bool" where
  "pcs_ok st \<longleftrightarrow> (\<forall>t. pc_ok (sh_pc st t))"

lemma pcs_ok_start [simp]: "pcs_ok (bmp_start bm)"
  by (simp add: pcs_ok_def bmp_start_def)

lemma thread_step_pc_ok:
  "thread_step t st = Some st' \<Longrightarrow> pc_ok (sh_pc st t) \<Longrightarrow> pc_ok (sh_pc st' t)"
  by (cases "sh_pc st t") (auto simp: bmp_step_defs split: if_splits)

lemma bmp_step_pcs_ok:
  assumes "bmp_step e st = Some st'" "pcs_ok st"
  shows "pcs_ok st'"
  unfolding pcs_ok_def
proof
  fix t
  have "pc_ok (sh_pc st t)" using assms(2) by (simp add: pcs_ok_def)
  then show "pc_ok (sh_pc st' t)"
    using assms(1) bmp_step_other[OF assms(1), of t]
    by (cases "event_thread e = t"; cases e) (auto simp: thread_step_pc_ok goto_def split: if_splits)
qed

interpretation counters: kept_by bmp_step "\<lambda>_. True" pcs_ok
  by unfold_locales (rule bmp_step_pcs_ok)

text \<open>A bound on the number of steps that a call still takes.\<close>

fun own_steps :: "bmp_pc \<Rightarrow> nat" where
  "own_steps (Load_word i) = 193 * (BLK_BMP_LN - i)"
| "own_steps (Lock_bit i j tmp) = 3 * (64 - j) + 193 * (BLK_BMP_LN - Suc i)"
| "own_steps (Test_bit i j tmp) = 3 * (64 - j) - 1 + 193 * (BLK_BMP_LN - Suc i)"
| "own_steps (Unlock_next i j tmp) = 3 * (64 - j) - 2 + 193 * (BLK_BMP_LN - Suc i)"
| "own_steps (Unlock_found i j) = 1"
| "own_steps (Lock_free b) = 3"
| "own_steps (Clear_bit b) = 2"
| "own_steps (Unlock_free b) = 1"
| "own_steps p = 0"

lemma own_steps_0: "pc_ok p \<Longrightarrow> own_steps p = 0 \<longleftrightarrow> may_call p"
  by (cases p) auto

lemma own_steps_le: "pc_ok p \<Longrightarrow> own_steps p \<le> 193 * (BLK_BMP_LN - first_word)"
  by (cases p) auto

lemma thread_step_decreases:
  "thread_step t st = Some st' \<Longrightarrow> pc_ok (sh_pc st t) \<Longrightarrow> own_steps (sh_pc st' t) < own_steps (sh_pc st t)"
  by (cases "sh_pc st t") (auto simp: bmp_step_defs split: if_splits)

lemma exec_own_steps:
  assumes "exec_events bmp_step st fs = Some st'" "pcs_ok st" "\<forall>e \<in> set fs. event_thread e = t \<longrightarrow> e = Run t"
  shows "length (filter (\<lambda>e. e = Run t) fs) + own_steps (sh_pc st' t) \<le> own_steps (sh_pc st t)"
  using assms
proof (induction fs arbitrary: st)
  case (Cons e fs)
  then obtain st1 where st1: "bmp_step e st = Some st1" "exec_events bmp_step st1 fs = Some st'"
    by (auto split: option.splits)
  have IH: "length (filter (\<lambda>e. e = Run t) fs) + own_steps (sh_pc st' t) \<le> own_steps (sh_pc st1 t)"
    using Cons.IH[OF st1(2)] bmp_step_pcs_ok[OF st1(1)] Cons.prems by simp
  show ?case
  proof (cases "e = Run t")
    case True
    then show ?thesis
      using IH st1(1) Cons.prems(2) thread_step_decreases[of t st st1] by (simp add: pcs_ok_def)
  next
    case False
    then show ?thesis using IH Cons.prems(3) bmp_step_other[OF st1(1), of t] by auto
  qed
qed simp

text \<open>
  C14: However the threads are scheduled, a call takes at most 193 steps of its own thread for each
  word of the bitmap: along any execution in which the thread starts no new call, the steps it
  made and the bound on those still to come do not exceed the bound before, and the call has
  returned exactly when none are left.
\<close>

theorem bmp_call_ends:
  assumes "exec_events bmp_step (bmp_start bm) es = Some st"
    and "exec_events bmp_step st fs = Some st'"
    and "\<forall>e \<in> set fs. event_thread e = t \<longrightarrow> e = Run t"
  shows "length (filter (\<lambda>e. e = Run t) fs) + own_steps (sh_pc st' t) \<le> own_steps (sh_pc st t) \<and>
    own_steps (sh_pc st t) \<le> 193 * (BLK_BMP_LN - first_word) \<and>
    (own_steps (sh_pc st' t) = 0 \<longleftrightarrow> may_call (sh_pc st' t))"
proof -
  have ok: "pcs_ok st" "pcs_ok st'"
    using counters.exec_keeps[OF assms(1)] counters.exec_keeps[OF assms(2)] by simp_all
  then show ?thesis
    using exec_own_steps[OF assms(2) ok(1) assms(3)] own_steps_le own_steps_0 by (simp add: pcs_ok_def)
qed

theorem bmp_call_ends_witness:
  "\<exists>st st'. exec_events bmp_step (bmp_start (\<lambda>_. 0)) [Call_free 0 20160, Call_alloc 1] = Some st \<and>
     exec_events bmp_step st [Run 0, Run 1, Run 0, Run 0] = Some st' \<and> may_call (sh_pc st' 0)"
proof -
  obtain st st' where st: "exec_events bmp_step (bmp_start (\<lambda>_. 0)) [Call_free 0 20160, Call_alloc 1] = Some st"
      "exec_events bmp_step st [Run 0, Run 1, Run 0, Run 0] = Some st'" "sh_pc st 0 = Lock_free 20160"
    by (simp add: bmp_start_def bmp_step_defs)
  then show ?thesis using bmp_call_ends[OF st(1,2), of 0] by auto
qed

section \<open>Calls one after the other\<close>

definition marked :: "nat \<Rightarrow> bmp_threads \<Rightarrow> bool" where
  "marked b st \<longleftrightarrow> bit (sh_bmp st (b div 64)) (b mod 64)"

fun frees :: "nat \<Rightarrow> bmp_pc \<Rightarrow> bool" where
  "frees b (Lock_free v) = (unat v = b)"
| "frees b (Clear_bit v) = (unat v = b)"
| "frees b p = False"

fun gives :: "nat \<Rightarrow> bmp_pc \<Rightarrow> bool" where
  "gives b (Unlock_found i j) = (64 * i + j = b)"
| "gives b (Finished v) = (v = of_nat b)"
| "gives b p = False"

text \<open>\<open>spares b e\<close>: the event does not ask for \<open>b\<close> to be freed.\<close>

fun spares :: "nat \<Rightarrow> bmp_event \<Rightarrow> bool" where
  "spares b (Call_free t v) = (unat v \<noteq> b)"
| "spares b e = True"

text \<open>Each of the two writes to the bitmap changes one bit.\<close>

lemma thread_step_marked:
  assumes "thread_step t st = Some st'" "pc_ok (sh_pc st t)" "\<not> frees b (sh_pc st t)"
  shows "marked b st' \<longleftrightarrow> marked b st \<or> (gives b (sh_pc st' t) \<and> \<not> may_call (sh_pc st' t))"
proof (cases "sh_pc st t")
  case (Test_bit i j tmp)
  have "b = 64 * i + j \<longleftrightarrow> b div 64 = i \<and> b mod 64 = j" using assms(2) Test_bit by auto
  with assms(1,2) Test_bit show ?thesis
    by (auto simp: marked_def thread_step_def goto_def bit_facts split: if_splits)
next
  case (Clear_bit v)
  then have "unat v \<noteq> b" using assms(3) by simp
  then have "\<not> (b div 64 = unat v div 64 \<and> b mod 64 = unat v mod 64)"
    by (metis div_mult_mod_eq)
  with assms(1) Clear_bit show ?thesis
    by (auto simp: marked_def thread_step_def goto_def bit_facts split: if_splits)
qed (use assms(1) in \<open>auto simp: marked_def bmp_step_defs split: if_splits\<close>)

lemma bmp_step_spares:
  assumes "bmp_step e st = Some st'" "spares b e" "\<forall>u. \<not> frees b (sh_pc st u)"
  shows "\<forall>u. \<not> frees b (sh_pc st' u)"
proof
  fix u
  have "\<not> frees b (sh_pc st u)" using assms(3) by simp
  then show "\<not> frees b (sh_pc st' u)"
    using assms(1,2) bmp_step_other[OF assms(1), of u]
    by (cases "event_thread e = u"; cases e; cases "sh_pc st u") (auto simp: bmp_step_defs split: if_splits)
qed

lemma bmp_step_marked:
  assumes "bmp_step e st = Some st'" "pcs_ok st" "\<forall>u. \<not> frees b (sh_pc st u)" "marked b st"
  shows "marked b st'"
proof (cases e)
  case (Run t)
  then show ?thesis
    using thread_step_marked[of t st st' b] assms by (simp add: pcs_ok_def)
qed (use assms in \<open>auto simp: marked_def goto_def split: if_splits\<close>)

lemma of_nat_range_inj:
  "a \<in> alloc_range \<Longrightarrow> b \<in> alloc_range \<Longrightarrow> (of_nat a :: u32) = of_nat b \<longleftrightarrow> a = b"
  by (metis unat_range)

lemma pc_range: "first_word \<le> i \<Longrightarrow> i < BLK_BMP_LN \<Longrightarrow> j < 64 \<Longrightarrow> 64 * i + j \<in> alloc_range"
  by (auto simp: alloc_range_def)

lemma of_nat_range_0: "b \<in> alloc_range \<Longrightarrow> (of_nat b :: u32) \<noteq> 0"
  by (metis alloc_range_def atLeastLessThan_iff not_numeral_le_zero unat_range unsigned_0)

text \<open>A block that some call is about to return, or has returned, is marked.\<close>

definition given_inv :: "nat \<Rightarrow> bmp_threads \<Rightarrow> bool" where
  "given_inv b st \<longleftrightarrow> pcs_ok st \<and> (\<forall>u. \<not> frees b (sh_pc st u)) \<and> (\<forall>u. gives b (sh_pc st u) \<longrightarrow> marked b st)"

lemma thread_step_gives:
  assumes "thread_step t st = Some st'" "pc_ok (sh_pc st t)" "b \<in> alloc_range" "gives b (sh_pc st' t)"
  shows "gives b (sh_pc st t) \<or> \<not> may_call (sh_pc st' t)"
  using assms of_nat_range_inj[of _ b] of_nat_range_0[of b] of_nat_range_neq[of b] pc_range
  by (cases "sh_pc st t") (auto simp: bmp_step_defs simp del: of_nat_add of_nat_mult split: if_splits)

lemma given_inv_step:
  assumes "b \<in> alloc_range" "bmp_step e st = Some st'" "spares b e" "given_inv b st"
  shows "given_inv b st'"
proof -
  have inv: "pcs_ok st" "\<forall>u. \<not> frees b (sh_pc st u)" "\<And>u. gives b (sh_pc st u) \<Longrightarrow> marked b st"
    using assms(4) by (auto simp: given_inv_def)
  have keep: "marked b st'" if "marked b st" using bmp_step_marked[OF assms(2) inv(1,2) that] .
  have "marked b st'" if g: "gives b (sh_pc st' u)" for u
  proof (cases "e = Run u")
    case True
    with assms(2) have s: "thread_step u st = Some st'" by simp
    have "pc_ok (sh_pc st u)" using inv(1) by (simp add: pcs_ok_def)
    with s g show ?thesis
      using thread_step_gives[OF s _ assms(1) g] thread_step_marked[OF s, of b] inv(2) keep inv(3) by blast
  next
    case False
    show ?thesis
    proof (cases "event_thread e = u")
      case True
      with False assms(2) g show ?thesis by (cases e) (auto simp: goto_def split: if_splits)
    next
      case False
      then show ?thesis using bmp_step_other[OF assms(2), of u] g inv(3) keep by simp
    qed
  qed
  then show ?thesis
    using bmp_step_pcs_ok[OF assms(2) inv(1)] bmp_step_spares[OF assms(2,3) inv(2)] by (simp add: given_inv_def)
qed

text \<open>
  A thread that started its call when \<open>b\<close> was marked: the part of \<open>b\<close>'s word that it has still to
  look at has the bit set.
\<close>

fun sees :: "nat \<Rightarrow> bmp_pc \<Rightarrow> bool" where
  "sees b (Lock_bit i j tmp) = (i = b div 64 \<longrightarrow> j \<le> b mod 64 \<longrightarrow> bit tmp (b mod 64 - j))"
| "sees b (Test_bit i j tmp) = (i = b div 64 \<longrightarrow> j \<le> b mod 64 \<longrightarrow> bit tmp (b mod 64 - j))"
| "sees b (Unlock_next i j tmp) = (i = b div 64 \<longrightarrow> j \<le> b mod 64 \<longrightarrow> bit tmp (b mod 64 - j))"
| "sees b p = (\<not> gives b p)"

definition seen_inv :: "nat \<Rightarrow> nat \<Rightarrow> bmp_threads \<Rightarrow> bool" where
  "seen_inv t b st \<longleftrightarrow> pcs_ok st \<and> (\<forall>u. \<not> frees b (sh_pc st u)) \<and> marked b st \<and> sees b (sh_pc st t)"

lemma sees_next_bit:
  assumes "sees b (Unlock_next i j tmp)" "b \<in> alloc_range"
  shows "sees b (next_bit i j tmp)"
  using assms of_nat_range_neq[OF assms(2)] by (auto simp: next_bit_def bit_drop_bit_eq Suc_diff_Suc)

lemma thread_step_sees:
  assumes s: "thread_step t st = Some st'" and b: "b \<in> alloc_range" and ok: "pc_ok (sh_pc st t)"
    and m: "marked b st" and v: "sees b (sh_pc st t)"
  shows "sees b (sh_pc st' t)"
proof (cases "sh_pc st t")
  case (Test_bit i j tmp)
  have "bit tmp 0" if "b = 64 * i + j" using v ok Test_bit that by simp
  with Test_bit s v ok show ?thesis
    by (auto simp: thread_step_def bit_0 even_iff_mod_2_eq_zero and_one_eq split: if_splits)
next
  case (Unlock_found i j)
  then have "64 * i + j \<in> alloc_range" "64 * i + j \<noteq> b" using v ok pc_range[of i j] by auto
  with Unlock_found s show ?thesis
    using of_nat_range_inj[of "64 * i + j" b] b by (auto simp: thread_step_def unlock_to_def simp del: of_nat_add of_nat_mult)
next
  case (Unlock_next i j tmp)
  with s v show ?thesis using sees_next_bit[OF _ b] by (auto simp: thread_step_def unlock_to_def)
next
  case (Load_word i)
  with s m show ?thesis by (auto simp: thread_step_def marked_def)
qed (use s v of_nat_range_0[OF b] in \<open>auto simp: bmp_step_defs split: if_splits\<close>)

lemma seen_inv_step:
  assumes "b \<in> alloc_range" "bmp_step e st = Some st'" "spares b e" "seen_inv t b st"
  shows "seen_inv t b st'"
proof -
  have inv: "pcs_ok st" "\<forall>u. \<not> frees b (sh_pc st u)" "marked b st" "sees b (sh_pc st t)"
    using assms(4) by (auto simp: seen_inv_def)
  have "sees b (sh_pc st' t)"
  proof (cases "event_thread e = t")
    case True
    then show ?thesis
      using assms(1,2) inv thread_step_sees[of t st st' b]
      by (cases e) (auto simp: pcs_ok_def goto_def split: if_splits)
  next
    case False
    then show ?thesis using bmp_step_other[OF assms(2), of t] inv(4) by simp
  qed
  then show ?thesis
    using bmp_step_pcs_ok[OF assms(2) inv(1)] bmp_step_spares[OF assms(2,3) inv(2)]
      bmp_step_marked[OF assms(2) inv(1-3)] by (simp add: seen_inv_def)
qed

interpretation given: kept_by bmp_step "\<lambda>e. b \<in> alloc_range \<and> spares b e" "given_inv b" for b
  by unfold_locales (use given_inv_step in blast)

interpretation seen: kept_by bmp_step "\<lambda>e. b \<in> alloc_range \<and> spares b e" "seen_inv t b" for t b
  by unfold_locales (use seen_inv_step in blast)

text \<open>
  C10: Once a call of \<open>alloc_block\<close> has returned a block, the block stays marked, and no call of any
  thread that starts afterwards is given it, whatever all threads do meanwhile, as long as nobody
  frees that block.
\<close>

theorem bmp_later_call_differs:
  assumes "b \<in> alloc_range"
    and "exec_events bmp_step (bmp_start bm) es = Some s1" "sh_pc s1 u = Finished (of_nat b)"
    and "exec_events bmp_step s1 (Call_alloc t # fs) = Some s2"
    and "\<forall>e \<in> set (es @ fs). spares b e"
  shows "sh_pc s2 t \<noteq> Finished (of_nat b) \<and> marked b s2"
proof -
  have "given_inv b (bmp_start bm)" by (simp add: given_inv_def bmp_start_def pcs_ok_def)
  then have "given_inv b s1" using given.exec_keeps[OF assms(2), of b] assms(1,5) by simp
  then have inv: "pcs_ok s1" "\<forall>u. \<not> frees b (sh_pc s1 u)" "marked b s1"
    using assms(3) by (auto simp: given_inv_def) (metis gives.simps(2))
  let ?s = "goto t (Load_word first_word) s1"
  have ex: "exec_events bmp_step ?s fs = Some s2" using assms(4) by (auto split: if_splits)
  have "seen_inv t b ?s"
    using inv by (auto simp: seen_inv_def marked_def pcs_ok_def)
  then have "seen_inv t b s2" using seen.exec_keeps[OF ex, of b t] assms(1,5) by simp
  then show ?thesis by (auto simp: seen_inv_def)
qed

lemma scan_word_two: "scan_word 64 w 0 = (if w AND 1 = 0 then Some 0 else if drop_bit 1 w AND 1 = 0 then Some 1
    else scan_word 62 (drop_bit 1 (drop_bit 1 w)) 2)"
proof -
  have "(64 :: nat) = Suc (Suc 62)" by simp
  then show ?thesis by (simp only: scan_word.simps One_nat_def numeral_2_eq_2)
qed

theorem bmp_later_call_differs_witness:
  "\<exists>s1 s2. exec_events bmp_step (bmp_start (\<lambda>_. 0)) (Call_alloc 0 # replicate 4 (Run 0)) = Some s1 \<and>
     sh_pc s1 0 = Finished (of_nat 20160) \<and>
     exec_events bmp_step s1 (Call_alloc 1 # replicate 7 (Run 1)) = Some s2 \<and>
     sh_pc s2 1 = Finished 20161 \<and> marked 20160 s2"
proof -
  let ?a = "goto 0 (Load_word 315) (bmp_start (\<lambda>_. 0))"
  define s1 where "s1 = scanned 0 ?a (Some (315, 0))"
  define s2 where "s2 = scanned 1 (goto 1 (Load_word 315) s1) (Some (315, 1))"
  have "scan_word 64 (sh_bmp ?a 315) 0 = Some 0" by (simp add: scan_word_two bmp_start_def)
  from run_scan_found[OF _ _ this, of 0]
  have 1: "exec_events bmp_step (bmp_start (\<lambda>_. 0)) (Call_alloc 0 # replicate 4 (Run 0)) = Some s1"
    by (simp add: s1_def bmp_start_def)
  have "scan_word 64 (sh_bmp (goto 1 (Load_word 315) s1) 315) 0 = Some 1"
    by (simp add: scan_word_two s1_def scanned_def bmp_start_def set_bit_eq_or)
  from run_scan_found[OF _ _ this, of 1]
  have 2: "exec_events bmp_step s1 (Call_alloc 1 # replicate 7 (Run 1)) = Some s2"
    by (simp add: s1_def s2_def scanned_def bmp_start_def)
  have pcs: "sh_pc s1 0 = Finished (of_nat 20160)" "sh_pc s2 1 = Finished 20161"
    by (simp_all add: s1_def s2_def scanned_def)
  have "(20160 :: nat) \<in> alloc_range" by (simp add: alloc_range_def)
  from bmp_later_call_differs[OF this 1 pcs(1) 2] 1 2 pcs show ?thesis by auto
qed

section \<open>Calls at the same time\<close>

text \<open>A thread gets as far as the copy of the word in which it will find a free bit.\<close>

lemma run_to_word:
  assumes "scan_bmp n (sh_bmp st) i = Some (a, k)" "sh_pc st t = Load_word i" "sh_lk st = None" "i + n = BLK_BMP_LN"
  shows "\<exists>m. exec_events bmp_step st (replicate m (Run t)) = Some (goto t (Lock_bit a 0 (sh_bmp st a)) st) \<and>
    scan_word 64 (sh_bmp st a) 0 = Some k"
  using assms
proof (induction n arbitrary: i st)
  case (Suc n i st)
  show ?case
  proof (cases "scan_word 64 (sh_bmp st i) 0")
    case None
    let ?st = "goto t (Load_word (Suc i)) st"
    have sc: "scan_bmp n (sh_bmp ?st) (Suc i) = Some (a, k)" using Suc.prems(1) None by simp
    then have "Suc i < BLK_BMP_LN" using scan_bmp_Some[OF sc] Suc.prems(4) by simp
    then have full: "exec_events bmp_step st (replicate 193 (Run t)) = Some ?st"
      using run_scan_full[OF Suc.prems(2,3) None] by simp
    obtain m where "exec_events bmp_step ?st (replicate m (Run t)) = Some (goto t (Lock_bit a 0 (sh_bmp st a)) st)"
        "scan_word 64 (sh_bmp st a) 0 = Some k"
      using Suc.IH[OF sc] Suc.prems(3,4) by auto
    then show ?thesis using exec_replicate_add[OF full, of m] by auto
  next
    case (Some j)
    then have "a = i" "k = j" using Suc.prems(1) by auto
    with Some show ?thesis using run_load[OF Suc.prems(2)] by (intro exI[of _ 1]) simp
  qed
qed simp

text \<open>
  C11: Two calls of \<open>alloc_block\<close> that overlap can be given the same block: whenever a call alone would
  return \<open>b\<close>, there is a schedule of two threads, each making one call, after which both calls have
  returned \<open>b\<close>. The copy \<open>temp\<close> of the bitmap word is taken before \<open>blk_bmp_lk\<close> and not read again
  under it.
\<close>

theorem bmp_alloc_race:
  assumes "t \<noteq> u" "may_call (sh_pc st t)" "may_call (sh_pc st u)" "sh_lk st = None"
    and "sh_bmp st = blk_bmp s" "fst (alloc_block s) = b" "b \<noteq> -1"
  shows "\<exists>es st'. exec_events bmp_step st es = Some st' \<and>
    filter (\<lambda>e. \<forall>v. e \<noteq> Run v) es = [Call_alloc t, Call_alloc u] \<and>
    sh_pc st' t = Finished b \<and> sh_pc st' u = Finished b"
proof -
  obtain a k where sc: "scan_bmp 130757 (sh_bmp st) first_word = Some (a, k)" and b: "b = of_nat (64 * a + k)"
    using assms(5-7) by (auto simp: alloc_block_def Let_def split: option.splits prod.splits)
  let ?L = "Lock_bit a 0 (sh_bmp st a)"
  let ?s1 = "goto t ?L st" and ?s2 = "goto u ?L (goto t ?L st)"
  obtain m where m: "exec_events bmp_step (goto t (Load_word first_word) st) (replicate m (Run t)) = Some ?s1"
    and k: "scan_word 64 (sh_bmp st a) 0 = Some k"
    using run_to_word[of 130757 "goto t (Load_word first_word) st" first_word a k t] sc assms(4) by auto
  obtain n where n: "exec_events bmp_step (goto u (Load_word first_word) ?s1) (replicate n (Run u)) = Some ?s2"
    using run_to_word[of 130757 "goto u (Load_word first_word) ?s1" first_word a k u] sc assms(4) by auto
  let ?s3 = "scanned t ?s2 (Some (a, k))"
  have 3: "exec_events bmp_step ?s2 (replicate (3 * k + 3) (Run t)) = Some ?s3"
    using run_word_found[OF k, of ?s2 t a] assms(1,4) by simp
  have 4: "exec_events bmp_step ?s3 (replicate (3 * k + 3) (Run u)) = Some (scanned u ?s3 (Some (a, k)))"
    using run_word_found[OF k, of ?s3 u a] assms(1,4) by (simp add: scanned_def)
  let ?es = "(Call_alloc t # replicate m (Run t)) @ (Call_alloc u # replicate n (Run u)) @
    replicate (3 * k + 3) (Run t) @ replicate (3 * k + 3) (Run u)"
  have "exec_events bmp_step st ?es = Some (scanned u ?s3 (Some (a, k)))"
    using m n 3 4 assms(1-3) by (simp add: exec_events_append)
  moreover have "filter (\<lambda>e. \<forall>v. e \<noteq> Run v) ?es = [Call_alloc t, Call_alloc u]" by simp
  moreover have "sh_pc (scanned u ?s3 (Some (a, k))) t = Finished b" "sh_pc (scanned u ?s3 (Some (a, k))) u = Finished b"
    using assms(1) b by (simp_all add: scanned_def)
  ultimately show ?thesis by blast
qed

lemma demo_alloc: "fst (alloc_block demo_fs) = 20257"
proof (cases demo_fs rule: alloc_block_cases)
  case full
  have "20257 \<in> alloc_range" by (simp add: alloc_range_def)
  with full show ?thesis by (auto simp: demo_used)
next
  case (got b)
  then have "\<not> b < 20257" by (simp add: demo_used)
  moreover have "20257 \<in> alloc_range \<inter> {..<b}" if "20257 < b" using that by (simp add: alloc_range_def)
  then have "\<not> 20257 < b" using got(4) unfolding demo_used by blast
  ultimately have "b = 20257" by linarith
  with got(1) show ?thesis by simp
qed

theorem bmp_alloc_race_witness:
  "\<exists>es st'. exec_events bmp_step (bmp_start (blk_bmp demo_fs)) es = Some st' \<and>
     sh_pc st' 0 = Finished 20257 \<and> sh_pc st' 1 = Finished 20257"
  using bmp_alloc_race[of 0 1 "bmp_start (blk_bmp demo_fs)" demo_fs 20257] demo_alloc
  by (auto simp: bmp_start_def)

end
