(* ===== verification/ExampleStore.thy ===== *)
theory ExampleStore
  imports Objfs
begin

text \<open>
  The example store, \<open>assignment-4/example/objstore.c\<close> on \<open>assignment-4/example/lib.c\<close>: at most 16
  objects of at most one block each, in both builds (\<open>c\<close> is true for \<open>-DCACHE\<close>). Its front end,
  \<open>assignment-4/example/objfs.c\<close>, is the same file as \<open>assignment-4/objfs.c\<close>, so the handlers of
  \<open>Objfs\<close> are used with the interface of this store (\<open>ex_ops\<close>).

  The table \<open>objs\<close> is a page: 46 structures of 88 bytes (\<open>id\<close> at 0, \<open>size\<close> at 8, \<open>cache_index\<close> at
  16, \<open>dirty\<close> at 20, \<open>key\<close> at 24) and 48 bytes at the end. An access behind the structures gives
  \<open>None\<close>, and so does a copy that leaves the page or the cache. The device is that of \<open>Blockdev\<close>,
  with \<open>lseek\<close>, which refuses negative offsets, before each transfer. All buffers come from \<open>mmap\<close>
  and are page aligned, so the alignment test of the transfers does not fail.
\<close>

section \<open>The state\<close>

record xobj =
  xid :: u64
  xsize :: u64
  cache_index :: u32
  dirty :: u32
  xkey :: "byte list"

record ex_state =
  ex_disk :: "nat \<Rightarrow> buffer"
  ex_disk_len :: nat
  read_fails :: "nat \<Rightarrow> bool"
  write_fails :: "nat \<Rightarrow> bool"
  mmap_ok :: bool
  ex_def_fstat :: stat
  ex_def_dirstat :: stat
  ex_cache :: buffer
  disksize :: int
  objs :: "xobj list"
  objs_tail :: buffer
  ex_mounted :: bool

abbreviation (input) EX_MAX_OBJS :: nat where "EX_MAX_OBJS \<equiv> 16"
abbreviation (input) EX_CACHE_SIZE :: nat where "EX_CACHE_SIZE \<equiv> 134217728"
abbreviation (input) XOBJS :: nat where "XOBJS \<equiv> 46"
abbreviation (input) XOBJ_SIZEOF :: nat where "XOBJ_SIZEOF \<equiv> 88"

definition set_xobj :: "nat \<Rightarrow> (xobj \<Rightarrow> xobj) \<Rightarrow> ex_state \<Rightarrow> ex_state" where
  "set_xobj i f s = s\<lparr>objs := (objs s)[i := f (objs s ! i)]\<rparr>"

section \<open>The device\<close>

definition ex_read_block :: "ex_state \<Rightarrow> u64 \<Rightarrow> buffer \<Rightarrow> int \<times> buffer" where
  "ex_read_block s block_offset buf = (
     let off = sint (push_bit 12 block_offset); b = nat off div BLOCK_SIZE in
     if off < 0 then (-1, buf)
     else if read_fails s b then (-1, buf)
     else if b < ex_disk_len s then (0, memcpy buf 0 (ex_disk s b) 0 BLOCK_SIZE) else (0, buf))"

definition ex_write_block :: "ex_state \<Rightarrow> u64 \<Rightarrow> buffer \<Rightarrow> int \<times> ex_state" where
  "ex_write_block s block_offset buf = (
     let off = sint (push_bit 12 block_offset); b = nat off div BLOCK_SIZE in
     if off < 0 then (-1, s)
     else if write_fails s b then (-1, s)
     else (0, s\<lparr>ex_disk := (ex_disk s)(b := buf), ex_disk_len := max (ex_disk_len s) (Suc b)\<rparr>))"

text \<open>\<open>do_init\<close> also asks for the size of the image: \<open>fstat_size\<close> is the answer of \<open>fstat\<close>.\<close>

definition ex_do_init :: "os_startup \<Rightarrow> int option \<Rightarrow> ex_state \<Rightarrow> int \<times> ex_state" where
  "ex_do_init os fstat_size s =
     (if \<not> os_getcwd os then (-1, s)
      else case os_dirstat os of None \<Rightarrow> (-1, s) | Some ds \<Rightarrow>
        let s = s\<lparr>ex_def_dirstat := ds\<rparr> in
        if \<not> os_open_disk os then (-1, s)
        else case fstat_size of None \<Rightarrow> (-1, s) | Some n \<Rightarrow>
          let s = s\<lparr>disksize := n div 4096\<rparr> in
          if \<not> os_fopen_log os then (-1, s)
          else case os_fstat os of None \<Rightarrow> (-1, s) | Some fs \<Rightarrow>
            let s = s\<lparr>ex_def_fstat := fs\<rparr> in
            case os_cache_page os of None \<Rightarrow> (-1, s) | Some _ \<Rightarrow> (0, s\<lparr>ex_cache := zero_buf\<rparr>))"

section \<open>The cache\<close>

definition init_object_cached :: "bool \<Rightarrow> nat \<Rightarrow> ex_state \<Rightarrow> ex_state" where
  "init_object_cached c i s = (if c then set_xobj i (\<lambda>ob. ob\<lparr>cache_index := -1, dirty := 0\<rparr>) s else s)"

definition remove_object_cached :: "bool \<Rightarrow> nat \<Rightarrow> ex_state \<Rightarrow> ex_state" where
  "remove_object_cached c i s = (if c then set_xobj i (\<lambda>ob. ob\<lparr>cache_index := -1, dirty := 0\<rparr>) s else s)"

text \<open>The offset of an object's page in the cache, and loading it; \<open>Inl\<close>: the read failed.\<close>

definition cache_ptr :: "xobj \<Rightarrow> nat" where
  "cache_ptr ob = unat (push_bit 12 (xid ob))"

definition load_cached :: "nat \<Rightarrow> ex_state \<Rightarrow> (ex_state + ex_state) option" where
  "load_cached i s = (let ob = objs s ! i; p = cache_ptr ob in
     if p + BLOCK_SIZE > EX_CACHE_SIZE then None
     else if sint (cache_index ob) < 0 then
       (case ex_read_block s (xid ob) (\<lambda>k. ex_cache s (p + k)) of (r, b) \<Rightarrow>
          if r < 0 then Some (Inl s)
          else Some (Inr (set_xobj i (\<lambda>ob. ob\<lparr>cache_index := ucast (xid ob)\<rparr>)
                 (s\<lparr>ex_cache := memcpy (ex_cache s) p b 0 BLOCK_SIZE\<rparr>))))
     else Some (Inr s))"

definition find_read_cached ::
    "bool \<Rightarrow> nat \<Rightarrow> buffer \<Rightarrow> int \<Rightarrow> ex_state \<Rightarrow> (int \<times> ex_state \<times> buffer) option" where
  "find_read_cached c i user_buf sz s = (
     if c then
       case load_cached i s of None \<Rightarrow> None | Some (Inl s) \<Rightarrow> Some (-1, s, user_buf)
       | Some (Inr s) \<Rightarrow> let p = cache_ptr (objs s ! i) in
           if sz < 0 \<or> p + nat sz > EX_CACHE_SIZE then None
           else Some (0, s, memcpy user_buf 0 (ex_cache s) p (nat sz))
     else if \<not> mmap_ok s then Some (-1, s, user_buf)
     else case ex_read_block s (xid (objs s ! i)) zero_buf of (r, b) \<Rightarrow>
       if r < 0 then Some (-1, s, user_buf)
       else if sz < 0 \<or> nat sz > BLOCK_SIZE then None
       else Some (0, s, memcpy user_buf 0 b 0 (nat sz)))"

definition find_write_cached :: "bool \<Rightarrow> nat \<Rightarrow> buffer \<Rightarrow> int \<Rightarrow> ex_state \<Rightarrow> (int \<times> ex_state) option" where
  "find_write_cached c i user_buf sz s = (
     if c then
       case load_cached i s of None \<Rightarrow> None | Some (Inl s) \<Rightarrow> Some (-1, s)
       | Some (Inr s) \<Rightarrow> let p = cache_ptr (objs s ! i) in
           if sz < 0 \<or> p + nat sz > EX_CACHE_SIZE then None
           else Some (0, set_xobj i (\<lambda>ob. ob\<lparr>dirty := 1\<rparr>)
                  (s\<lparr>ex_cache := memcpy (ex_cache s) p user_buf 0 (nat sz)\<rparr>))
     else if \<not> mmap_ok s then Some (-1, s)
     else if sz < 0 \<or> nat sz > BLOCK_SIZE then None
     else case ex_write_block s (xid (objs s ! i)) (memcpy zero_buf 0 user_buf 0 (nat sz)) of (r, s) \<Rightarrow>
       if r < 0 then Some (-1, s) else Some (0, s))"

definition obj_sync :: "bool \<Rightarrow> nat \<Rightarrow> ex_state \<Rightarrow> (int \<times> ex_state) option" where
  "obj_sync c i s = (
     if c then
       let ob = objs s ! i; p = cache_ptr ob in
       if dirty ob = 0 then Some (0, s)
       else if p + BLOCK_SIZE > EX_CACHE_SIZE then None
       else case ex_write_block s (xid ob) (\<lambda>k. ex_cache s (p + k)) of (r, s) \<Rightarrow>
         if r < 0 then Some (-1, s) else Some (0, set_xobj i (\<lambda>ob. ob\<lparr>dirty := 0\<rparr>) s)
     else Some (0, s))"

section \<open>The object interface\<close>

definition ex_matches :: "byte list \<Rightarrow> xobj \<Rightarrow> bool" where
  "ex_matches key ob \<longleftrightarrow> xid ob \<noteq> 0 \<and> strcmp_eq (xkey ob) key"

definition ex_find :: "byte list \<Rightarrow> ex_state \<Rightarrow> nat option" where
  "ex_find key s = List.find (\<lambda>i. ex_matches key (objs s ! i)) [0 ..< EX_MAX_OBJS]"

definition ex_find_object_id :: "byte list \<Rightarrow> ex_state \<Rightarrow> int" where
  "ex_find_object_id key s = (case ex_find key s of Some i \<Rightarrow> sint (xid (objs s ! i)) | None \<Rightarrow> -1)"

text \<open>The loop of \<open>create_object\<close> from \<open>ctr\<close> on; \<open>Inl\<close>: it has returned \<open>-1\<close>.\<close>

fun ex_create_scan ::
    "byte list \<Rightarrow> nat list \<Rightarrow> nat option \<Rightarrow> ex_state \<Rightarrow> ex_state + nat option \<times> ex_state" where
  "ex_create_scan key [] fr s = Inr (fr, s)"
| "ex_create_scan key (ctr # ctrs) fr s =
     (if xid (objs s ! ctr) = 0 \<and> fr = None
      then ex_create_scan key ctrs (Some ctr) (set_xobj ctr (\<lambda>ob. ob\<lparr>xid := of_nat (ctr + 2)\<rparr>) s)
      else if ex_matches key (objs s ! ctr) then Inl s
      else ex_create_scan key ctrs fr s)"

definition ex_strcpy :: "byte list \<Rightarrow> byte list \<Rightarrow> byte list" where
  "ex_strcpy old new = cstr new @ 0 # drop (length (cstr new) + 1) old"

definition ex_create_object :: "bool \<Rightarrow> byte list \<Rightarrow> ex_state \<Rightarrow> (int \<times> ex_state) option" where
  "ex_create_object c key s =
     (case ex_create_scan key [0 ..< EX_MAX_OBJS] None s of
        Inl s \<Rightarrow> Some (-1, s)
      | Inr (None, s) \<Rightarrow> Some (-1, s)
      | Inr (Some i, s) \<Rightarrow>
          if length (cstr key) \<ge> 64 then None
          else let s = set_xobj i (\<lambda>ob. ob\<lparr>xkey := ex_strcpy (xkey ob) key\<rparr>) s;
                   s = init_object_cached c EX_MAX_OBJS s
               in Some (sint (xid (objs s ! i)), s))"

definition ex_release_object :: "int \<Rightarrow> ex_state \<Rightarrow> int \<times> ex_state" where
  "ex_release_object objid s = (0, s)"

definition ex_destroy_object :: "bool \<Rightarrow> byte list \<Rightarrow> ex_state \<Rightarrow> int \<times> ex_state" where
  "ex_destroy_object c key s =
     (case ex_find key s of
        Some i \<Rightarrow> (0, set_xobj i (\<lambda>ob. ob\<lparr>xid := 0, xsize := 0\<rparr>) (remove_object_cached c i s))
      | None \<Rightarrow> (-1, s))"

definition ex_rename_object :: "byte list \<Rightarrow> byte list \<Rightarrow> ex_state \<Rightarrow> (int \<times> ex_state) option" where
  "ex_rename_object key newname s = (
     let objid = ex_find_object_id key s; i = objid - 2 in
     if objid < 0 then Some (-1, s)
     else if length (cstr newname) > 32 then Some (-1, s)
     else if i < 0 \<or> i \<ge> int XOBJS then None
     else Some (0, set_xobj (nat i) (\<lambda>ob. ob\<lparr>xkey := ex_strcpy (xkey ob) newname, dirty := 1\<rparr>) s))"

definition ex_objstore_write ::
    "bool \<Rightarrow> int \<Rightarrow> buffer \<Rightarrow> int \<Rightarrow> ex_state \<Rightarrow> int \<Rightarrow> (int \<times> ex_state) option" where
  "ex_objstore_write c objid buf sz s offset = (
     let i = objid - 2 in
     if i < 0 \<or> i \<ge> int XOBJS then None
     else if sint (xid (objs s ! nat i)) \<noteq> objid then Some (-1, s)
     else if sz > int BLOCK_SIZE then Some (-1, s)
     else case find_write_cached c (nat i) buf sz s of None \<Rightarrow> None
       | Some (r, s) \<Rightarrow>
           if r < 0 then Some (-1, s)
           else Some (sz, set_xobj (nat i) (\<lambda>ob. ob\<lparr>xsize := word_of_int sz\<rparr>) s))"

definition ex_objstore_read ::
    "bool \<Rightarrow> int \<Rightarrow> buffer \<Rightarrow> int \<Rightarrow> ex_state \<Rightarrow> int \<Rightarrow> (int \<times> ex_state \<times> buffer) option" where
  "ex_objstore_read c objid buf sz s offset = (
     let i = objid - 2 in
     if objid < 2 then Some (-1, s, buf)
     else if i \<ge> int XOBJS then None
     else if sint (xid (objs s ! nat i)) \<noteq> objid then Some (-1, s, buf)
     else case find_read_cached c (nat i) buf sz s of None \<Rightarrow> None
       | Some (r, s, buf) \<Rightarrow> if r < 0 then Some (-1, s, buf) else Some (sz, s, buf))"

definition ex_fillup_size_details :: "stat \<Rightarrow> ex_state \<Rightarrow> (int \<times> stat) option" where
  "ex_fillup_size_details buf s = (
     let n = unat (st_ino buf) in
     if n < 2 then Some (-1, buf)
     else if n - 2 \<ge> XOBJS then None
     else let ob = objs s ! (n - 2); z = sint (xsize ob) in
       if xid ob \<noteq> st_ino buf then Some (-1, buf)
       else Some (0, buf\<lparr>st_size := z, st_blocks := z div 512 + (if z div 512 * 512 \<noteq> z then 1 else 0)\<rparr>))"

section \<open>Mounting\<close>

definition decode_xobj :: "buffer \<Rightarrow> nat \<Rightarrow> xobj" where
  "decode_xobj b m = \<lparr>xid = u64_at b (XOBJ_SIZEOF * m), xsize = u64_at b (XOBJ_SIZEOF * m + 8),
     cache_index = u32_at b (22 * m + 4), dirty = u32_at b (22 * m + 5),
     xkey = map (\<lambda>k. b (XOBJ_SIZEOF * m + 24 + k)) [0 ..< 64]\<rparr>"

definition xobj_byte :: "xobj \<Rightarrow> nat \<Rightarrow> byte" where
  "xobj_byte ob k =
     (if k < 8 then u64_byte (xid ob) k
      else if k < 16 then u64_byte (xsize ob) (k - 8)
      else if k < 20 then u32_byte (cache_index ob) (k - 16)
      else if k < 24 then u32_byte (dirty ob) (k - 20)
      else xkey ob ! (k - 24))"

definition objs_page :: "ex_state \<Rightarrow> buffer" where
  "objs_page s k = (if k < XOBJS * XOBJ_SIZEOF then xobj_byte (objs s ! (k div XOBJ_SIZEOF)) (k mod XOBJ_SIZEOF)
     else objs_tail s k)"

definition ex_objstore_init :: "bool \<Rightarrow> ex_state \<Rightarrow> (int \<times> ex_state) option" where
  "ex_objstore_init c s = (
     if \<not> mmap_ok s then Some (-1, s\<lparr>objs := []\<rparr>)
     else case ex_read_block s 0 zero_buf of (r, b) \<Rightarrow>
       let s = s\<lparr>objs := map (decode_xobj b) [0 ..< XOBJS], objs_tail := b\<rparr> in
       if r < 0 then Some (-1, s)
       else let s = foldl (\<lambda>s i. if xid (objs s ! i) \<noteq> 0 then init_object_cached c i s else s) s [0 ..< EX_MAX_OBJS]
         in Some (0, s\<lparr>ex_mounted := True\<rparr>))"

fun ex_sync_all :: "bool \<Rightarrow> nat list \<Rightarrow> ex_state \<Rightarrow> ex_state option" where
  "ex_sync_all c [] s = Some s"
| "ex_sync_all c (i # is) s =
     (if xid (objs s ! i) \<noteq> 0
      then (case obj_sync c i s of None \<Rightarrow> None | Some (_, s) \<Rightarrow> ex_sync_all c is s)
      else ex_sync_all c is s)"

definition ex_objstore_destroy :: "bool \<Rightarrow> ex_state \<Rightarrow> (int \<times> ex_state) option" where
  "ex_objstore_destroy c s =
     (case ex_sync_all c [0 ..< EX_MAX_OBJS] s of None \<Rightarrow> None
      | Some s \<Rightarrow>
          case ex_write_block s 0 (objs_page s) of (r, s) \<Rightarrow>
            if r < 0 then Some (-1, s) else Some (0, s\<lparr>objs := [], ex_mounted := False\<rparr>))"

section \<open>The front end on this store\<close>

definition ex_ops :: "bool \<Rightarrow> ex_state lib_ops" where
  "ex_ops c =
     \<lparr>op_init = ex_objstore_init c, op_destroy = ex_objstore_destroy c,
      op_find_object_id = ex_find_object_id, op_create_object = ex_create_object c,
      op_release_object = ex_release_object, op_destroy_object = \<lambda>k s. Some (ex_destroy_object c k s),
      op_rename_object = ex_rename_object, op_objstore_write = ex_objstore_write c,
      op_objstore_read = ex_objstore_read c, op_fillup_size_details = ex_fillup_size_details,
      op_def_fstat = ex_def_fstat, op_def_dirstat = ex_def_dirstat\<rparr>"

end
