(* ===== verification/ExampleProps.thy ===== *)
theory ExampleProps
  imports ExampleStore
begin

text \<open>
  What the example store of \<open>ExampleStore\<close> guarantees: an object is its block, read through the
  cache in the cached build (\<open>ex_content\<close>). Writes and reads are correct on this view, and
  unmounting keeps it if no object is marked dirty that is not in the cache, which is what
  \<open>rename\<close> breaks.
\<close>

section \<open>Well-formed states\<close>

definition ex_inv :: "ex_state \<Rightarrow> bool" where
  "ex_inv s \<longleftrightarrow> length (objs s) = XOBJS
     \<and> (\<forall>i<16. xid (objs s ! i) = 0 \<or> xid (objs s ! i) = of_nat (i + 2))
     \<and> (\<forall>i<46. length (xkey (objs s ! i)) = 64)"

definition ex_io_ok :: "ex_state \<Rightarrow> bool" where
  "ex_io_ok s \<longleftrightarrow> mmap_ok s \<and> 18 \<le> ex_disk_len s \<and> (\<forall>b<18. \<not> read_fails s b \<and> \<not> write_fails s b)"

definition ex_live :: "ex_state \<Rightarrow> nat \<Rightarrow> bool" where
  "ex_live s i \<longleftrightarrow> i < 16 \<and> xid (objs s ! i) \<noteq> 0"

definition in_cache :: "xobj \<Rightarrow> bool" where
  "in_cache ob \<longleftrightarrow> \<not> sint (cache_index ob) < 0"

definition cache_slot :: "ex_state \<Rightarrow> nat \<Rightarrow> buffer" where
  "cache_slot s i = (\<lambda>k. ex_cache s (4096 * (i + 2) + k))"

definition ex_content :: "bool \<Rightarrow> ex_state \<Rightarrow> nat \<Rightarrow> buffer" where
  "ex_content c s i = (if c \<and> in_cache (objs s ! i) then cache_slot s i else ex_disk s (i + 2))"

lemma ex_invD:
  assumes "ex_inv s"
  shows "length (objs s) = 46" "ex_live s i \<Longrightarrow> xid (objs s ! i) = of_nat (i + 2)"
    and "i < 46 \<Longrightarrow> length (xkey (objs s ! i)) = 64"
  using assms by (auto simp: ex_inv_def ex_live_def)

lemma set_xobj_simps [simp]:
  "ex_disk (set_xobj i f s) = ex_disk s" "ex_disk_len (set_xobj i f s) = ex_disk_len s"
  "ex_cache (set_xobj i f s) = ex_cache s" "mmap_ok (set_xobj i f s) = mmap_ok s"
  "read_fails (set_xobj i f s) = read_fails s" "write_fails (set_xobj i f s) = write_fails s"
  "length (objs (set_xobj i f s)) = length (objs s)" "objs_tail (set_xobj i f s) = objs_tail s"
  by (simp_all add: set_xobj_def)

lemma objs_set_xobj:
  "j < length (objs s) \<Longrightarrow> objs (set_xobj i f s) ! j = (if j = i then f (objs s ! i) else objs s ! j)"
  by (simp add: set_xobj_def nth_list_update)

lemma ex_inv_set:
  assumes "ex_inv s" "\<And>ob. xid (f ob) = xid ob" "\<And>ob. length (xkey ob) = 64 \<Longrightarrow> length (xkey (f ob)) = 64"
  shows "ex_inv (set_xobj i f s)" "ex_live (set_xobj i f s) j = ex_live s j"
  using assms by (auto simp: ex_inv_def ex_live_def objs_set_xobj split: if_splits)

section \<open>Block transfers\<close>

lemma block_offset:
  assumes "n < 2 ^ 20"
  shows "unat (push_bit 12 (of_nat n :: u64)) = 4096 * n" "sint (push_bit 12 (of_nat n :: u64)) = 4096 * int n"
proof -
  have e: "push_bit 12 (of_nat n :: u64) = of_nat (4096 * n)" by (simp add: push_bit_eq_mult mult.commute)
  show "unat (push_bit 12 (of_nat n :: u64)) = 4096 * n"
    unfolding e using assms by (intro unat_u64_of_nat) simp
  have "signed_take_bit 63 (int (4096 * n)) = int (4096 * n)"
    using assms by (intro signed_take_bit_int_eq_self) simp_all
  then show "sint (push_bit 12 (of_nat n :: u64)) = 4096 * int n" unfolding e signed_of_nat by simp
qed

lemma ex_read_block_ok:
  assumes "ex_io_ok s" "n < 18"
  shows "ex_read_block s (of_nat n) b = (0, memcpy b 0 (ex_disk s n) 0 4096)"
  using assms block_offset(2)[of n] by (simp add: ex_read_block_def Let_def ex_io_ok_def nat_mult_distrib)

lemma ex_write_block_ok:
  assumes "ex_io_ok s" "n < 18"
  shows "ex_write_block s (of_nat n) b = (0, s\<lparr>ex_disk := (ex_disk s)(n := b)\<rparr>)"
  using assms block_offset(2)[of n]
  by (simp add: ex_write_block_def Let_def ex_io_ok_def nat_mult_distrib max_absorb1)

lemma cache_ptr_live: "ex_inv s \<Longrightarrow> ex_live s i \<Longrightarrow> cache_ptr (objs s ! i) = 4096 * (i + 2)"
  using ex_invD(2)[of s i] block_offset(1)[of "i + 2"] by (simp add: cache_ptr_def ex_live_def)

text \<open>Loading an object into the cache changes no contents, and then its page has its contents.\<close>

lemma load_cached_ok:
  assumes inv: "ex_inv s" and io: "ex_io_ok s" and live: "ex_live s i"
  shows "\<exists>ci cc. load_cached i s = Some (Inr (s\<lparr>objs := (objs s)[i := (objs s ! i)\<lparr>cache_index := ci\<rparr>], ex_cache := cc\<rparr>))
    \<and> \<not> sint ci < 0 \<and> (\<forall>k<4096. cc (4096 * (i + 2) + k) = ex_content True s i k)
    \<and> (\<forall>k. k < 4096 * (i + 2) \<or> 4096 * (i + 3) \<le> k \<longrightarrow> cc k = ex_cache s k)"
proof (cases "in_cache (objs s ! i)")
  case True
  have p: "cache_ptr (objs s ! i) = 4096 * (i + 2)" "i < 16" using cache_ptr_live[OF inv live] live by (auto simp: ex_live_def)
  have "s = s\<lparr>objs := (objs s)[i := (objs s ! i)\<lparr>cache_index := cache_index (objs s ! i)\<rparr>], ex_cache := ex_cache s\<rparr>"
    by (simp add: list_update_id)
  moreover have "load_cached i s = Some (Inr s)" using True p by (simp add: load_cached_def Let_def in_cache_def)
  ultimately show ?thesis
    using True by (intro exI[of _ "cache_index (objs s ! i)"] exI[of _ "ex_cache s"])
      (auto simp: ex_content_def in_cache_def cache_slot_def)
next
  case False
  have p: "cache_ptr (objs s ! i) = 4096 * (i + 2)" "i < 16" using cache_ptr_live[OF inv live] live by (auto simp: ex_live_def)
  have id: "xid (objs s ! i) = of_nat (i + 2)" using ex_invD(2)[OF inv live] .
  define cc where "cc = memcpy (ex_cache s) (4096 * (i + 2)) (memcpy (cache_slot s i) 0 (ex_disk s (i + 2)) 0 4096) 0 4096"
  have "load_cached i s = Some (Inr (set_xobj i (\<lambda>ob. ob\<lparr>cache_index := ucast (xid ob)\<rparr>) (s\<lparr>ex_cache := cc\<rparr>)))"
    using False p ex_read_block_ok[OF io, of "i + 2" "cache_slot s i"]
    by (simp add: load_cached_def Let_def in_cache_def id cc_def cache_slot_def del: of_nat_add)
  moreover have "ucast (of_nat (i + 2) :: u64) = (of_nat (i + 2) :: u32)"
    unfolding unsigned_of_nat using p(2) by (simp add: take_bit_nat_eq_self)
  ultimately have "load_cached i s = Some (Inr (s\<lparr>objs := (objs s)[i := (objs s ! i)\<lparr>cache_index := of_nat (i + 2)\<rparr>], ex_cache := cc\<rparr>))"
    by (simp add: set_xobj_def id del: of_nat_add)
  moreover have "sint (of_nat (i + 2) :: u32) = int (i + 2)"
    unfolding signed_of_nat using p(2) by (simp add: signed_take_bit_int_eq_self)
  moreover have "cc (4096 * (i + 2) + k) = ex_content True s i k" if "k < 4096" for k
    using that False by (simp add: cc_def ex_content_def)
  moreover have "cc k = ex_cache s k" if "k < 4096 * (i + 2) \<or> 4096 * (i + 3) \<le> k" for k
    using that by (auto simp: cc_def memcpy_outside)
  ultimately show ?thesis by (intro exI[of _ "of_nat (i + 2)"] exI[of _ cc]) auto
qed

section \<open>Reading and writing\<close>

text \<open>An operation on object \<open>i\<close> touches its table entry, its page of the cache and its block only.\<close>

definition only_at :: "nat \<Rightarrow> ex_state \<Rightarrow> ex_state \<Rightarrow> bool" where
  "only_at i s s' \<longleftrightarrow> length (objs s') = length (objs s) \<and> (\<forall>j. j \<noteq> i \<longrightarrow> objs s' ! j = objs s ! j)
     \<and> xid (objs s' ! i) = xid (objs s ! i) \<and> xkey (objs s' ! i) = xkey (objs s ! i)
     \<and> (\<forall>k. k < 4096 * (i + 2) \<or> 4096 * (i + 3) \<le> k \<longrightarrow> ex_cache s' k = ex_cache s k)
     \<and> (\<forall>b. b \<noteq> i + 2 \<longrightarrow> ex_disk s' b = ex_disk s b)
     \<and> ex_disk_len s' = ex_disk_len s \<and> read_fails s' = read_fails s \<and> write_fails s' = write_fails s
     \<and> mmap_ok s' = mmap_ok s"

lemma only_at_inv:
  assumes "only_at i s s'"
  shows "ex_inv s \<Longrightarrow> ex_inv s'" "ex_io_ok s \<Longrightarrow> ex_io_ok s'" "ex_live s' j = ex_live s j"
proof -
  have o: "xid (objs s' ! j) = xid (objs s ! j)" "xkey (objs s' ! j) = xkey (objs s ! j)" for j
    using assms by (cases "j = i"; simp add: only_at_def)+
  show "ex_inv s \<Longrightarrow> ex_inv s'" "ex_live s' j = ex_live s j"
    using assms by (auto simp: ex_inv_def ex_live_def only_at_def o)
  show "ex_io_ok s \<Longrightarrow> ex_io_ok s'" using assms by (simp add: ex_io_ok_def only_at_def)
qed

lemma only_at_content:
  assumes "only_at i s s'" "j \<noteq> i" "k < 4096"
  shows "ex_content c s' j k = ex_content c s j k"
proof -
  have "4096 * (j + 2) + k < 4096 * (i + 2) \<or> 4096 * (i + 3) \<le> 4096 * (j + 2) + k"
    using assms(2,3) by (cases "j < i") auto
  then have "ex_cache s' (4096 * (j + 2) + k) = ex_cache s (4096 * (j + 2) + k)"
    using assms(1) unfolding only_at_def by blast
  moreover have "objs s' ! j = objs s ! j" "ex_disk s' (j + 2) = ex_disk s (j + 2)"
    using assms(1,2) by (simp_all add: only_at_def)
  ultimately show ?thesis by (simp add: ex_content_def cache_slot_def)
qed

text \<open>What an object holds after a write of \<open>n\<close> bytes: the plain build clears the rest of the block.\<close>

definition after_write :: "bool \<Rightarrow> buffer \<Rightarrow> nat \<Rightarrow> buffer \<Rightarrow> buffer" where
  "after_write c buf n old k = (if k < n then buf k else if c then old k else 0)"

lemma find_write_cached_ok:
  assumes inv: "ex_inv s" and io: "ex_io_ok s" and live: "ex_live s i" and n: "n \<le> 4096"
  shows "\<exists>s'. find_write_cached c i buf (int n) s = Some (0, s') \<and> only_at i s s'
    \<and> (\<forall>k<4096. ex_content c s' i k = after_write c buf n (ex_content c s i) k)
    \<and> (c \<longrightarrow> in_cache (objs s' ! i) \<and> dirty (objs s' ! i) \<noteq> 0)"
proof (cases c)
  case False
  let ?s = "s\<lparr>ex_disk := (ex_disk s)(i + 2 := memcpy zero_buf 0 buf 0 n)\<rparr>"
  have "find_write_cached c i buf (int n) s = Some (0, ?s)"
    using False n io live ex_write_block_ok[OF io, of "i + 2"]
    by (simp add: find_write_cached_def ex_invD(2)[OF inv live] ex_io_ok_def ex_live_def del: of_nat_add)
  moreover have "only_at i s ?s" by (simp add: only_at_def)
  moreover have "ex_content c ?s i k = after_write c buf n (ex_content c s i) k" for k
    using False by (simp add: ex_content_def after_write_def memcpy_def zero_buf_def)
  ultimately show ?thesis using False by blast
next
  case True
  obtain ci cc where l: "load_cached i s = Some (Inr (s\<lparr>objs := (objs s)[i := (objs s ! i)\<lparr>cache_index := ci\<rparr>], ex_cache := cc\<rparr>))"
    "\<not> sint ci < 0" "\<And>k. k < 4096 \<Longrightarrow> cc (4096 * (i + 2) + k) = ex_content True s i k"
    "\<And>k. k < 4096 * (i + 2) \<or> 4096 * (i + 3) \<le> k \<Longrightarrow> cc k = ex_cache s k"
    using load_cached_ok[OF inv io live] by blast
  define dd where "dd = memcpy cc (4096 * (i + 2)) buf 0 n"
  define s' where "s' = s\<lparr>objs := (objs s)[i := (objs s ! i)\<lparr>cache_index := ci, dirty := 1\<rparr>], ex_cache := dd\<rparr>"
  have i: "i < 16" "i < length (objs s)" using live ex_invD(1)[OF inv] by (auto simp: ex_live_def)
  have p: "cache_ptr ((objs s ! i)\<lparr>cache_index := ci\<rparr>) = 4096 * (i + 2)"
    using cache_ptr_live[OF inv live] by (simp add: cache_ptr_def)
  have "find_write_cached c i buf (int n) s = Some (0, s')"
    using True l(1) i n p by (simp add: find_write_cached_def Let_def set_xobj_def s'_def dd_def)
  moreover have "only_at i s s'" using l(4) n i by (auto simp: only_at_def s'_def dd_def)
  moreover have "ex_content c s' i k = after_write c buf n (ex_content c s i) k" if "k < 4096" for k
    using that True i l(2,3) n by (simp add: ex_content_def in_cache_def s'_def dd_def cache_slot_def memcpy_def after_write_def)
  moreover have "in_cache (objs s' ! i) \<and> dirty (objs s' ! i) \<noteq> 0" using i l(2) by (simp add: s'_def in_cache_def)
  ultimately show ?thesis by blast
qed

lemma only_at_set_size:
  assumes "only_at i s s'" "i < length (objs s)"
  shows "only_at i s (set_xobj i (\<lambda>ob. ob\<lparr>xsize := z\<rparr>) s')"
    "ex_content c (set_xobj i (\<lambda>ob. ob\<lparr>xsize := z\<rparr>) s') j = ex_content c s' j"
proof -
  have l: "i < length (objs s')" using assms by (simp add: only_at_def)
  have "in_cache (objs (set_xobj i (\<lambda>ob. ob\<lparr>xsize := z\<rparr>) s') ! j) = in_cache (objs s' ! j)"
    using l by (cases "j = i") (simp_all add: in_cache_def set_xobj_def)
  then show "ex_content c (set_xobj i (\<lambda>ob. ob\<lparr>xsize := z\<rparr>) s') j = ex_content c s' j"
    by (simp add: ex_content_def cache_slot_def)
  show "only_at i s (set_xobj i (\<lambda>ob. ob\<lparr>xsize := z\<rparr>) s')"
    using assms l by (simp add: only_at_def) (simp add: set_xobj_def)
qed

lemma live_objid: "ex_inv s \<Longrightarrow> ex_live s i \<Longrightarrow> sint (xid (objs s ! i)) = int i + 2"
proof -
  assume "ex_inv s" "ex_live s i"
  then have "xid (objs s ! i) = of_nat (i + 2)" "i + 2 < 18" using ex_invD(2) by (auto simp: ex_live_def)
  then show ?thesis
    unfolding signed_of_nat by (simp only: signed_of_nat) (simp add: signed_take_bit_int_eq_self)
qed

lemma ex_id_facts: "i < 16 \<Longrightarrow> (of_nat (i + 2) :: u64) \<noteq> 0" "i < 16 \<Longrightarrow> sint (of_nat (i + 2) :: u64) = int i + 2"
proof -
  assume i: "i < 16"
  show v: "sint (of_nat (i + 2) :: u64) = int i + 2"
    unfolding signed_of_nat using i by (simp add: signed_take_bit_int_eq_self)
  show "(of_nat (i + 2) :: u64) \<noteq> 0"
  proof
    assume "(of_nat (i + 2) :: u64) = 0"
    then show False using v by (simp del: of_nat_add)
  qed
qed

lemma ex_write_ok:
  assumes inv: "ex_inv s" and io: "ex_io_ok s" and live: "ex_live s i" and n: "n \<le> 4096"
  shows "\<exists>s'. ex_objstore_write c (int i + 2) buf (int n) s off = Some (int n, s') \<and> only_at i s s'
    \<and> xsize (objs s' ! i) = of_nat n
    \<and> (\<forall>k<4096. ex_content c s' i k = after_write c buf n (ex_content c s i) k)
    \<and> (c \<longrightarrow> in_cache (objs s' ! i) \<and> dirty (objs s' ! i) \<noteq> 0)"
proof -
  obtain s1 where s1: "find_write_cached c i buf (int n) s = Some (0, s1)" "only_at i s s1"
    "\<forall>k<4096. ex_content c s1 i k = after_write c buf n (ex_content c s i) k"
    "c \<longrightarrow> in_cache (objs s1 ! i) \<and> dirty (objs s1 ! i) \<noteq> 0"
    using find_write_cached_ok[OF assms] by blast
  have i: "i < 16" "i < length (objs s)" "i < length (objs s1)"
    using live ex_invD(1)[OF inv] s1(2) by (auto simp: ex_live_def only_at_def)
  have "ex_objstore_write c (int i + 2) buf (int n) s off = Some (int n, set_xobj i (\<lambda>ob. ob\<lparr>xsize := of_nat n\<rparr>) s1)"
    using s1(1) i n live_objid[OF inv live] by (simp add: ex_objstore_write_def)
  then show ?thesis
    using only_at_set_size[OF s1(2) i(2)] s1(3,4) i(3) by (auto simp: objs_set_xobj in_cache_def)
qed

lemma ex_read_ok:
  assumes inv: "ex_inv s" and io: "ex_io_ok s" and live: "ex_live s i" and n: "n \<le> 4096"
  shows "\<exists>s'. ex_objstore_read c (int i + 2) buf (int n) s off = Some (int n, s', memcpy buf 0 (ex_content c s i) 0 n)
    \<and> only_at i s s' \<and> (\<forall>k<4096. ex_content c s' i k = ex_content c s i k)
    \<and> ex_disk s' = ex_disk s \<and> dirty (objs s' ! i) = dirty (objs s ! i) \<and> (c \<longrightarrow> in_cache (objs s' ! i))"
proof (cases c)
  case False
  have "memcpy buf 0 (memcpy zero_buf 0 (ex_disk s (i + 2)) 0 4096) 0 n = memcpy buf 0 (ex_content c s i) 0 n"
    using False n by (auto simp: memcpy_def ex_content_def)
  moreover have "find_read_cached c i buf (int n) s = Some (0, s, memcpy buf 0 (memcpy zero_buf 0 (ex_disk s (i + 2)) 0 4096) 0 n)"
    using False n io live ex_read_block_ok[OF io, of "i + 2"]
    by (simp add: find_read_cached_def ex_invD(2)[OF inv live] ex_io_ok_def ex_live_def del: of_nat_add)
  moreover have "only_at i s s" by (simp add: only_at_def)
  moreover have "i < 16" using live by (simp add: ex_live_def)
  ultimately show ?thesis
    using live_objid[OF inv live] False by (intro exI[of _ s]) (simp add: ex_objstore_read_def)
next
  case True
  obtain ci cc where l: "load_cached i s = Some (Inr (s\<lparr>objs := (objs s)[i := (objs s ! i)\<lparr>cache_index := ci\<rparr>], ex_cache := cc\<rparr>))"
    "\<not> sint ci < 0" "\<And>k. k < 4096 \<Longrightarrow> cc (4096 * (i + 2) + k) = ex_content True s i k"
    "\<And>k. k < 4096 * (i + 2) \<or> 4096 * (i + 3) \<le> k \<Longrightarrow> cc k = ex_cache s k"
    using load_cached_ok[OF inv io live] by blast
  define s' where "s' = s\<lparr>objs := (objs s)[i := (objs s ! i)\<lparr>cache_index := ci\<rparr>], ex_cache := cc\<rparr>"
  have i: "i < 16" "i < length (objs s)" using live ex_invD(1)[OF inv] by (auto simp: ex_live_def)
  have p: "cache_ptr ((objs s ! i)\<lparr>cache_index := ci\<rparr>) = 4096 * (i + 2)"
    using cache_ptr_live[OF inv live] by (simp add: cache_ptr_def)
  have "memcpy buf 0 cc (4096 * (i + 2)) n = memcpy buf 0 (ex_content c s i) 0 n"
    using l(3) n True by (auto simp: memcpy_def)
  moreover have "find_read_cached c i buf (int n) s = Some (0, s', memcpy buf 0 cc (4096 * (i + 2)) n)"
    using True l(1) i n p by (simp add: find_read_cached_def Let_def s'_def)
  moreover have "only_at i s s'" using l(4) i by (auto simp: only_at_def s'_def)
  moreover have "ex_content c s' i k = ex_content c s i k" if "k < 4096" for k
    using that True i l(2,3) by (simp add: ex_content_def in_cache_def s'_def cache_slot_def)
  moreover have "ex_disk s' = ex_disk s" "dirty (objs s' ! i) = dirty (objs s ! i)" "in_cache (objs s' ! i)"
    using i l(2) by (simp_all add: s'_def in_cache_def)
  ultimately show ?thesis
    using live_objid[OF inv live] i(1) by (intro exI[of _ s']) (simp add: ex_objstore_read_def)
qed

text \<open>An object that is dirty is in the cache, and one that is in the cache and clean is on the disk.\<close>

definition synced :: "ex_state \<Rightarrow> bool" where
  "synced s \<longleftrightarrow> (\<forall>i. ex_live s i \<longrightarrow> (dirty (objs s ! i) \<noteq> 0 \<longrightarrow> in_cache (objs s ! i))
     \<and> (dirty (objs s ! i) = 0 \<and> in_cache (objs s ! i) \<longrightarrow> (\<forall>k<4096. cache_slot s i k = ex_disk s (i + 2) k)))"

lemma only_at_synced:
  assumes o: "only_at i s s'" and s: "synced s"
    and i: "dirty (objs s' ! i) \<noteq> 0 \<Longrightarrow> in_cache (objs s' ! i)"
      "\<And>k. dirty (objs s' ! i) = 0 \<Longrightarrow> in_cache (objs s' ! i) \<Longrightarrow> ex_live s i \<Longrightarrow> k < 4096
        \<Longrightarrow> cache_slot s' i k = ex_disk s' (i + 2) k"
  shows "synced s'"
  unfolding synced_def
proof (intro allI impI)
  fix j assume j: "ex_live s' j"
  have "objs s' ! j = objs s ! j" "ex_disk s' (j + 2) = ex_disk s (j + 2)" if "j \<noteq> i"
    using o that by (simp_all add: only_at_def)
  moreover have "cache_slot s' j k = cache_slot s j k" if "j \<noteq> i" "k < 4096" for k
  proof -
    have "4096 * (j + 2) + k < 4096 * (i + 2) \<or> 4096 * (i + 3) \<le> 4096 * (j + 2) + k"
      using that by (cases "j < i") auto
    then show ?thesis using o unfolding only_at_def cache_slot_def by blast
  qed
  ultimately show "(dirty (objs s' ! j) \<noteq> 0 \<longrightarrow> in_cache (objs s' ! j)) \<and>
      (dirty (objs s' ! j) = 0 \<and> in_cache (objs s' ! j) \<longrightarrow> (\<forall>k<4096. cache_slot s' j k = ex_disk s' (j + 2) k))"
    using i s j only_at_inv(3)[OF o] unfolding synced_def by (cases "j = i") auto
qed

lemma read_synced:
  assumes "only_at i s s'" "synced s" "\<And>k. k < 4096 \<Longrightarrow> ex_content True s' i k = ex_content True s i k"
    "ex_disk s' = ex_disk s" "dirty (objs s' ! i) = dirty (objs s ! i)" "in_cache (objs s' ! i)"
  shows "synced s'"
proof (rule only_at_synced[OF assms(1,2)])
  fix k :: nat assume "dirty (objs s' ! i) = 0" "ex_live s i" "k < 4096"
  moreover from this have "ex_content True s i k = ex_disk s (i + 2) k"
    using assms(2,5) by (auto simp: synced_def ex_content_def)
  ultimately show "cache_slot s' i k = ex_disk s' (i + 2) k"
    using assms(3)[of k] assms(4,6) by (simp add: ex_content_def)
qed (use assms(6) in simp)

section \<open>Mounting and unmounting\<close>

lemma decode_encode_xobj:
  assumes key: "length (xkey ob) = 64" and bytes: "\<And>k. k < 88 \<Longrightarrow> b (88 * m + k) = xobj_byte ob k"
  shows "decode_xobj b m = ob"
proof -
  have "u64_at b (88 * m) = xid ob" using bytes by (intro u64_at_bytes) (simp add: xobj_byte_def)
  moreover have "u64_at b (88 * m + 8) = xsize ob"
    using bytes by (intro u64_at_bytes) (simp add: xobj_byte_def add.assoc)
  moreover have "u32_at b (22 * m + 4) = cache_index ob"
  proof (rule u32_at_bytes)
    fix k :: nat assume "k < 4"
    then show "b (4 * (22 * m + 4) + k) = u32_byte (cache_index ob) k"
      using bytes[of "16 + k"] by (simp add: xobj_byte_def algebra_simps)
  qed
  moreover have "u32_at b (22 * m + 5) = dirty ob"
  proof (rule u32_at_bytes)
    fix k :: nat assume "k < 4"
    then show "b (4 * (22 * m + 5) + k) = u32_byte (dirty ob) k"
      using bytes[of "20 + k"] by (simp add: xobj_byte_def algebra_simps)
  qed
  moreover have "map (\<lambda>k. b (88 * m + 24 + k)) [0 ..< 64] = xkey ob"
  proof (rule nth_equalityI)
    fix k assume "k < length (map (\<lambda>k. b (88 * m + 24 + k)) [0 ..< 64])"
    then show "map (\<lambda>k. b (88 * m + 24 + k)) [0 ..< 64] ! k = xkey ob ! k"
      using bytes[of "24 + k"] by (simp add: xobj_byte_def add.assoc)
  qed (use key in simp)
  ultimately show ?thesis unfolding decode_xobj_def by (cases ob) simp
qed

lemma objs_page_decode:
  assumes "ex_inv s" "m < 46"
  shows "decode_xobj (memcpy zero_buf 0 (objs_page s) 0 4096) m = objs s ! m"
proof (rule decode_encode_xobj[OF ex_invD(3)[OF assms]])
  fix k :: nat assume k: "k < 88"
  have "88 * m + k < 46 * 88" "(88 * m + k) div 88 = m" "(88 * m + k) mod 88 = k" using k assms(2) by simp_all
  then show "memcpy zero_buf 0 (objs_page s) 0 4096 (88 * m + k) = xobj_byte (objs s ! m) k"
    by (simp add: objs_page_def)
qed

text \<open>Synchronizing the objects of a list writes the pages of the dirty ones, whatever they hold.\<close>

lemma ex_sync_all_ok:
  assumes "ex_inv s" "ex_io_ok s" "distinct is" "\<forall>i\<in>set is. i < 16"
  shows "\<exists>s'. ex_sync_all c is s = Some s' \<and> ex_inv s' \<and> ex_io_ok s' \<and> ex_cache s' = ex_cache s
    \<and> (\<forall>j<46. objs s' ! j = (if c \<and> j \<in> set is \<and> ex_live s j then (objs s ! j)\<lparr>dirty := 0\<rparr> else objs s ! j))
    \<and> (\<forall>b. ex_disk s' b = (if c \<and> 2 \<le> b \<and> b - 2 \<in> set is \<and> ex_live s (b - 2) \<and> dirty (objs s ! (b - 2)) \<noteq> 0
         then cache_slot s (b - 2) else ex_disk s b))"
  using assms
proof (induction "is" arbitrary: s)
  case (Cons i "is")
  define s1 where "s1 = (if c \<and> ex_live s i \<and> dirty (objs s ! i) \<noteq> 0
    then set_xobj i (\<lambda>ob. ob\<lparr>dirty := 0\<rparr>) (s\<lparr>ex_disk := (ex_disk s)(i + 2 := cache_slot s i)\<rparr>) else s)"
  have i: "i < 16" "i \<notin> set is" "i < length (objs s)" using Cons.prems ex_invD(1)[OF Cons.prems(1)] by auto
  have "obj_sync c i s = Some (0, s1)" if "ex_live s i"
    using that i(1) cache_ptr_live[OF Cons.prems(1) that] ex_write_block_ok[OF Cons.prems(2), of "i + 2"]
      ex_invD(2)[OF Cons.prems(1) that]
    by (simp add: obj_sync_def s1_def Let_def cache_slot_def del: of_nat_add)
  moreover have "s1 = s" if "\<not> ex_live s i" using that by (simp add: s1_def)
  ultimately have step: "ex_sync_all c (i # is) s = ex_sync_all c is s1"
    using i(1) by (auto simp: ex_live_def)
  have inv1: "ex_inv s1" "ex_io_ok s1" "ex_cache s1 = ex_cache s"
    using Cons.prems(1,2) ex_inv_set(1)[of "s\<lparr>ex_disk := d\<rparr>" "\<lambda>ob. ob\<lparr>dirty := 0\<rparr>" i for d]
    by (auto simp: s1_def ex_io_ok_def ex_inv_def)
  have o1: "objs s1 ! j = (if j = i \<and> c \<and> ex_live s i then (objs s ! i)\<lparr>dirty := 0\<rparr> else objs s ! j)" if "j < 46" for j
    using that ex_invD(1)[OF Cons.prems(1)] by (auto simp: s1_def objs_set_xobj)
  have l1: "ex_live s1 j = ex_live s j" for j using o1[of j] by (auto simp: ex_live_def split: if_splits)
  have d1: "ex_disk s1 b = (if b = i + 2 \<and> c \<and> ex_live s i \<and> dirty (objs s ! i) \<noteq> 0 then cache_slot s i else ex_disk s b)" for b
    by (auto simp: s1_def)
  obtain s' where s': "ex_sync_all c is s1 = Some s'" "ex_inv s'" "ex_io_ok s'" "ex_cache s' = ex_cache s1"
    "\<And>j. j < 46 \<Longrightarrow> objs s' ! j = (if c \<and> j \<in> set is \<and> ex_live s1 j then (objs s1 ! j)\<lparr>dirty := 0\<rparr> else objs s1 ! j)"
    "\<And>b. ex_disk s' b = (if c \<and> 2 \<le> b \<and> b - 2 \<in> set is \<and> ex_live s1 (b - 2) \<and> dirty (objs s1 ! (b - 2)) \<noteq> 0
         then cache_slot s1 (b - 2) else ex_disk s1 b)"
    using Cons.IH[OF inv1(1,2)] Cons.prems(3,4) by auto
  have "objs s' ! j = (if c \<and> j \<in> set (i # is) \<and> ex_live s j then (objs s ! j)\<lparr>dirty := 0\<rparr> else objs s ! j)" if "j < 46" for j
    using s'(5)[OF that] o1[OF that] l1 i(2) by auto
  moreover have "ex_disk s' b = (if c \<and> 2 \<le> b \<and> b - 2 \<in> set (i # is) \<and> ex_live s (b - 2) \<and> dirty (objs s ! (b - 2)) \<noteq> 0
         then cache_slot s (b - 2) else ex_disk s b)" for b
  proof (cases "2 \<le> b \<and> b - 2 \<in> set is")
    case True
    then have "b - 2 \<noteq> i" "b - 2 < 46" "b \<noteq> i + 2" using i(2) Cons.prems(4) by auto
    then show ?thesis using s'(6)[of b] o1[of "b - 2"] l1 d1[of b] True inv1(3) by (simp add: cache_slot_def)
  next
    case False
    then show ?thesis using s'(6)[of b] d1[of b] by auto
  qed
  ultimately show ?case using step s'(1-4) inv1(3) by auto
qed simp

lemma ex_destroy_ok:
  assumes inv: "ex_inv s" and io: "ex_io_ok s"
  shows "\<exists>s1. ex_objstore_destroy c s = Some (0, s1) \<and> ex_io_ok s1
    \<and> (\<forall>m<46. decode_xobj (memcpy zero_buf 0 (ex_disk s1 0) 0 4096) m
         = (if c \<and> ex_live s m then (objs s ! m)\<lparr>dirty := 0\<rparr> else objs s ! m))
    \<and> (\<forall>i<16. ex_disk s1 (i + 2) = (if c \<and> ex_live s i \<and> dirty (objs s ! i) \<noteq> 0 then cache_slot s i else ex_disk s (i + 2)))"
proof -
  obtain s' where s': "ex_sync_all c [0..<16] s = Some s'" "ex_inv s'" "ex_io_ok s'"
    "\<And>j. j < 46 \<Longrightarrow> objs s' ! j = (if c \<and> j \<in> set [0..<16] \<and> ex_live s j then (objs s ! j)\<lparr>dirty := 0\<rparr> else objs s ! j)"
    "\<And>b. ex_disk s' b = (if c \<and> 2 \<le> b \<and> b - 2 \<in> set [0..<16] \<and> ex_live s (b - 2) \<and> dirty (objs s ! (b - 2)) \<noteq> 0
         then cache_slot s (b - 2) else ex_disk s b)"
    using ex_sync_all_ok[OF inv io, of "[0..<16]" c] by (auto simp del: upt_Suc)
  define s1 where "s1 = s'\<lparr>ex_disk := (ex_disk s')(0 := objs_page s'), objs := [], ex_mounted := False\<rparr>"
  have "ex_objstore_destroy c s = Some (0, s1)"
    using s'(1) ex_write_block_ok[OF s'(3), of 0] by (simp add: ex_objstore_destroy_def s1_def)
  moreover have "ex_io_ok s1" using s'(3) by (simp add: s1_def ex_io_ok_def)
  moreover have "decode_xobj (memcpy zero_buf 0 (ex_disk s1 0) 0 4096) m
      = (if c \<and> ex_live s m then (objs s ! m)\<lparr>dirty := 0\<rparr> else objs s ! m)" if "m < 46" for m
    using objs_page_decode[OF s'(2) that] s'(4)[OF that] by (auto simp: s1_def ex_live_def)
  moreover have "ex_disk s1 (i + 2) = (if c \<and> ex_live s i \<and> dirty (objs s ! i) \<noteq> 0 then cache_slot s i else ex_disk s (i + 2))"
    if "i < 16" for i using s'(5)[of "i + 2"] that by (simp add: s1_def)
  ultimately show ?thesis by blast
qed

lemma init_fold:
  assumes "length (objs s) = 46" "k \<le> 16"
    and "s' = foldl (\<lambda>s i. if xid (objs s ! i) \<noteq> 0 then init_object_cached c i s else s) s [0 ..< k]"
  shows "length (objs s') = 46 \<and> ex_disk s' = ex_disk s \<and> (\<forall>j<46. objs s' ! j =
    (if c \<and> j < k \<and> xid (objs s ! j) \<noteq> 0 then (objs s ! j)\<lparr>cache_index := -1, dirty := 0\<rparr> else objs s ! j))"
  using assms(2,3)
proof (induction k arbitrary: s')
  case 0 then show ?case using assms(1) by simp
next
  case (Suc k)
  define t where "t = foldl (\<lambda>s i. if xid (objs s ! i) \<noteq> 0 then init_object_cached c i s else s) s [0 ..< k]"
  have IH: "length (objs t) = 46" "ex_disk t = ex_disk s" "\<And>j. j < 46 \<Longrightarrow> objs t ! j =
    (if c \<and> j < k \<and> xid (objs s ! j) \<noteq> 0 then (objs s ! j)\<lparr>cache_index := -1, dirty := 0\<rparr> else objs s ! j)"
    using Suc.IH[OF _ t_def] Suc.prems(1) by auto
  have s': "s' = (if xid (objs s ! k) \<noteq> 0 then init_object_cached c k t else t)"
    using Suc.prems IH(3)[of k] by (simp add: t_def)
  have "objs s' ! j = (if c \<and> j < Suc k \<and> xid (objs s ! j) \<noteq> 0
      then (objs s ! j)\<lparr>cache_index := -1, dirty := 0\<rparr> else objs s ! j)" if "j < 46" for j
    using IH(1) IH(3)[OF that] IH(3)[of k] that Suc.prems(1)
    by (auto simp: s' init_object_cached_def objs_set_xobj less_Suc_eq)
  then show ?case using IH(1,2) by (simp add: s' init_object_cached_def)
qed

lemma ex_init_ok:
  assumes "ex_io_ok s"
  shows "\<exists>s'. ex_objstore_init c s = Some (0, s') \<and> ex_disk s' = ex_disk s
    \<and> (\<forall>j<46. let ob = decode_xobj (memcpy zero_buf 0 (ex_disk s 0) 0 4096) j in objs s' ! j =
        (if c \<and> j < 16 \<and> xid ob \<noteq> 0 then ob\<lparr>cache_index := -1, dirty := 0\<rparr> else ob))"
proof -
  define b where "b = memcpy zero_buf 0 (ex_disk s 0) 0 4096"
  define t where "t = s\<lparr>objs := map (decode_xobj b) [0 ..< 46], objs_tail := b\<rparr>"
  define s' where "s' = foldl (\<lambda>s i. if xid (objs s ! i) \<noteq> 0 then init_object_cached c i s else s) t [0 ..< 16]"
  have "ex_objstore_init c s = Some (0, s'\<lparr>ex_mounted := True\<rparr>)"
    using assms ex_read_block_ok[OF assms, of 0] by (simp add: ex_objstore_init_def ex_io_ok_def Let_def s'_def t_def b_def del: upt_Suc)
  moreover have "length (objs t) = 46" "\<And>j. j < 46 \<Longrightarrow> objs t ! j = decode_xobj b j" "ex_disk t = ex_disk s"
    by (simp_all add: t_def del: upt_Suc)
  ultimately show ?thesis using init_fold[of t 16 s' c] by (auto simp: s'_def b_def Let_def)
qed

section \<open>Names\<close>

lemma create_scan_skip:
  assumes "\<And>k. k \<in> set ks \<Longrightarrow> \<not> ex_matches key (objs s ! k) \<and> (xid (objs s ! k) \<noteq> 0 \<or> fr \<noteq> None)"
  shows "ex_create_scan key (ks @ rest) fr s = ex_create_scan key rest fr s"
  using assms by (induction ks) auto

text \<open>The scan on a table with the name at \<open>j\<close> and the first free entry \<open>i\<close> before it.\<close>

lemma create_scan_duplicate:
  assumes "length (objs s) = 46" "i < j" "j < 16" "ex_matches key (objs s ! j)" "xid (objs s ! i) = 0"
    and "\<And>k. k < i \<Longrightarrow> xid (objs s ! k) \<noteq> 0" "\<And>k. k < j \<Longrightarrow> \<not> ex_matches key (objs s ! k)"
  shows "ex_create_scan key [0 ..< 16] None s = Inl (set_xobj i (\<lambda>ob. ob\<lparr>xid := of_nat (i + 2)\<rparr>) s)"
proof -
  let ?t = "set_xobj i (\<lambda>ob. ob\<lparr>xid := of_nat (i + 2)\<rparr>) s"
  have "[0 ..< 16] = [0 ..< i] @ i # [Suc i ..< j] @ j # [Suc j ..< 16]"
    using upt_add_eq_append[of 0 i "16 - i"] upt_conv_Cons[of i 16] upt_add_eq_append[of "Suc i" j "16 - j"]
      upt_conv_Cons[of j 16] assms(2,3) by simp
  moreover have "ex_create_scan key ([0 ..< i] @ i # ks) None s = ex_create_scan key ks (Some i) ?t" for ks
    using assms(2,5-7) by (subst create_scan_skip) auto
  moreover have "ex_create_scan key ([Suc i ..< j] @ j # ks) (Some i) ?t = Inl ?t" for ks
    using assms(1-4,7) by (subst create_scan_skip) (auto simp: objs_set_xobj)
  ultimately show ?thesis by (simp del: upt_Suc)
qed

lemma ex_find_first:
  assumes "i < 16" "ex_matches key (objs s ! i)" "\<And>k. k < i \<Longrightarrow> \<not> ex_matches key (objs s ! k)"
  shows "ex_find key s = Some i"
  unfolding ex_find_def find_Some_iff using assms by (intro exI[of _ i]) (simp del: upt_Suc)

lemma ex_find_none: "ex_find_object_id key s = -1 \<Longrightarrow> ex_inv s \<Longrightarrow> k < 16 \<Longrightarrow> \<not> ex_matches key (objs s ! k)"
proof
  assume a: "ex_find_object_id key s = -1" "ex_inv s" "k < 16" "ex_matches key (objs s ! k)"
  have "ex_find key s \<noteq> None" using a(3,4) by (auto simp: ex_find_def find_None_iff)
  then obtain i where i: "ex_find key s = Some i" by blast
  then have "ex_live s i" by (auto simp: ex_find_def find_Some_iff ex_matches_def ex_live_def)
  then show False using live_objid[OF a(2)] a(1) i by (simp add: ex_find_object_id_def)
qed

section \<open>A concrete store\<close>

text \<open>Objects \<open>a\<close> and \<open>c\<close> with identifiers 2 and 4; the entry between them had the name \<open>b\<close>. All blocks hold 7.\<close>

definition demo_xobj :: "u64 \<Rightarrow> byte \<Rightarrow> xobj" where
  "demo_xobj n ch = \<lparr>xid = n, xsize = (if n = 0 then 0 else 10), cache_index = -1, dirty = 0, xkey = ch # replicate 63 0\<rparr>"

definition demo_store :: ex_state where
  "demo_store = \<lparr>ex_disk = \<lambda>_ _. 7, ex_disk_len = 64, read_fails = \<lambda>_. False, write_fails = \<lambda>_. False,
     mmap_ok = True, ex_def_fstat = \<lparr>st_ino = 0, st_mode = 0, st_uid = 0, st_gid = 0, st_size = 0, st_blocks = 0\<rparr>,
     ex_def_dirstat = \<lparr>st_ino = 0, st_mode = 0, st_uid = 0, st_gid = 0, st_size = 0, st_blocks = 0\<rparr>,
     ex_cache = zero_buf, disksize = 64,
     objs = demo_xobj 2 97 # demo_xobj 0 98 # demo_xobj 4 99 # replicate 43 (demo_xobj 0 0),
     objs_tail = zero_buf, ex_mounted = True\<rparr>"

lemma demo_store_objs:
  "j < 46 \<Longrightarrow> objs demo_store ! j = (if j = 0 then demo_xobj 2 97 else if j = 1 then demo_xobj 0 98
     else if j = 2 then demo_xobj 4 99 else demo_xobj 0 0)"
  by (auto simp: demo_store_def nth_Cons split: nat.split)

lemma demo_store_inv: "ex_inv demo_store" "ex_io_ok demo_store" "synced demo_store"
proof -
  have "length (objs demo_store) = 46" by (simp add: demo_store_def)
  then show "ex_inv demo_store" by (simp add: ex_inv_def demo_store_objs) (simp add: demo_xobj_def)
  show "ex_io_ok demo_store" by (simp add: ex_io_ok_def demo_store_def)
  have "dirty (objs demo_store ! i) = 0" "\<not> in_cache (objs demo_store ! i)" if "i < 16" for i
    using that by (auto simp: demo_store_objs demo_xobj_def in_cache_def)
  then show "synced demo_store" by (auto simp: synced_def ex_live_def)
qed

lemma demo_store_live: "ex_live demo_store 0" "ex_live demo_store 2" "\<not> in_cache (objs demo_store ! 0)"
  by (simp_all add: ex_live_def demo_store_objs demo_xobj_def in_cache_def)

lemma demo_matches: "k < 46 \<Longrightarrow> ch \<noteq> 0 \<Longrightarrow> ex_matches (ch # replicate 63 0) (objs demo_store ! k)
    \<longleftrightarrow> k = 0 \<and> ch = 97 \<or> k = 2 \<and> ch = 99"
  by (auto simp: ex_matches_def demo_store_objs demo_xobj_def strcmp_eq_def cstr_def)

section \<open>Properties\<close>

text \<open>
  C36: In both builds of the example store a read returns what was last written: after a write of
  \<open>n\<close> bytes to a live object, reading up to \<open>n\<close> bytes delivers them, at whatever offsets the two
  calls name; the contents of all other objects stay. In the cached build, that the cache agrees
  with the disk on clean objects is kept.
\<close>

theorem ex_write_read:
  assumes inv: "ex_inv s" and io: "ex_io_ok s" and live: "ex_live s i" and n: "n \<le> 4096" "l \<le> n"
  shows "\<exists>s1 s2. ex_objstore_write c (int i + 2) buf (int n) s off = Some (int n, s1)
    \<and> ex_objstore_read c (int i + 2) old (int l) s1 off' = Some (int l, s2, memcpy old 0 buf 0 l)
    \<and> ex_inv s2 \<and> (\<forall>j k. j \<noteq> i \<and> k < 4096 \<longrightarrow> ex_content c s2 j k = ex_content c s j k)
    \<and> (c \<and> synced s \<longrightarrow> synced s2)"
proof -
  obtain s1 where s1: "ex_objstore_write c (int i + 2) buf (int n) s off = Some (int n, s1)" "only_at i s s1"
    "\<And>k. k < 4096 \<Longrightarrow> ex_content c s1 i k = after_write c buf n (ex_content c s i) k"
    "c \<Longrightarrow> in_cache (objs s1 ! i) \<and> dirty (objs s1 ! i) \<noteq> 0"
    using ex_write_ok[OF inv io live n(1)] by blast
  note p = only_at_inv[OF s1(2)]
  obtain s2 where s2: "ex_objstore_read c (int i + 2) old (int l) s1 off' = Some (int l, s2, memcpy old 0 (ex_content c s1 i) 0 l)"
    "only_at i s1 s2" "\<And>k. k < 4096 \<Longrightarrow> ex_content c s2 i k = ex_content c s1 i k" "ex_disk s2 = ex_disk s1"
    "dirty (objs s2 ! i) = dirty (objs s1 ! i)" "c \<Longrightarrow> in_cache (objs s2 ! i)"
    using ex_read_ok[OF p(1)[OF inv] p(2)[OF io], of i l] p(3) live n by (meson le_trans)
  have "synced s2" if "c" "synced s"
  proof -
    have "synced s1" by (rule only_at_synced[OF s1(2) that(2)]) (use s1(4) that(1) in auto)
    then show ?thesis using read_synced[OF s2(2)] s2(3-6) that(1) by simp
  qed
  moreover
  have "memcpy old 0 (ex_content c s1 i) 0 l = memcpy old 0 buf 0 l"
    using s1(3) n by (auto simp: memcpy_def after_write_def)
  ultimately show ?thesis
    using s1 s2 only_at_content[OF s1(2)] only_at_content[OF s2(2)] only_at_inv(1)[OF s2(2)] p(1)[OF inv] by auto
qed

theorem ex_write_read_witness:
  "\<exists>s1 s2. ex_objstore_write True 4 (\<lambda>_. 5) 3 demo_store 0 = Some (3, s1)
    \<and> ex_objstore_read True 4 zero_buf 2 s1 0 = Some (2, s2, memcpy zero_buf 0 (\<lambda>_. 5) 0 2)"
  using ex_write_read[OF demo_store_inv(1,2) demo_store_live(2), of 3 2 True "\<lambda>_. 5" 0 zero_buf 0] by auto

text \<open>
  C37: Unmounting the example store and mounting it again, with any contents of the new cache,
  restores every object with its identifier, size, name and contents: in the plain build always, and
  in the cached build from states in which every dirty object is in the cache and every clean object
  in the cache agrees with the disk (\<open>synced\<close>). Mounting establishes this condition, and writing and
  reading keep it, but renaming an object that is not in the cache breaks it.
\<close>

theorem ex_remount:
  assumes inv: "ex_inv s" and io: "ex_io_ok s" and sync: "c \<Longrightarrow> synced s"
  shows "\<exists>s1 s2. ex_objstore_destroy c s = Some (0, s1) \<and> ex_objstore_init c (s1\<lparr>ex_cache := cc\<rparr>) = Some (0, s2)
    \<and> (\<forall>i<16. xid (objs s2 ! i) = xid (objs s ! i) \<and> xsize (objs s2 ! i) = xsize (objs s ! i)
         \<and> xkey (objs s2 ! i) = xkey (objs s ! i)
         \<and> (ex_live s i \<longrightarrow> (\<forall>k<4096. ex_content c s2 i k = ex_content c s i k)))
    \<and> (c \<longrightarrow> synced s2)"
proof -
  obtain s1 where s1: "ex_objstore_destroy c s = Some (0, s1)" "ex_io_ok s1"
    "\<And>m. m < 46 \<Longrightarrow> decode_xobj (memcpy zero_buf 0 (ex_disk s1 0) 0 4096) m
         = (if c \<and> ex_live s m then (objs s ! m)\<lparr>dirty := 0\<rparr> else objs s ! m)"
    "\<And>i. i < 16 \<Longrightarrow> ex_disk s1 (i + 2) = (if c \<and> ex_live s i \<and> dirty (objs s ! i) \<noteq> 0 then cache_slot s i else ex_disk s (i + 2))"
    using ex_destroy_ok[OF inv io, of c] by blast
  have "ex_io_ok (s1\<lparr>ex_cache := cc\<rparr>)" using s1(2) by (simp add: ex_io_ok_def)
  from ex_init_ok[OF this, of c] obtain s2 where s2: "ex_objstore_init c (s1\<lparr>ex_cache := cc\<rparr>) = Some (0, s2)"
    "ex_disk s2 = ex_disk s1" "\<And>j. j < 46 \<Longrightarrow> let ob = decode_xobj (memcpy zero_buf 0 (ex_disk s1 0) 0 4096) j in
      objs s2 ! j = (if c \<and> j < 16 \<and> xid ob \<noteq> 0 then ob\<lparr>cache_index := -1, dirty := 0\<rparr> else ob)" by auto
  have o: "objs s2 ! i = (if c \<and> ex_live s i then (objs s ! i)\<lparr>dirty := 0, cache_index := -1\<rparr> else objs s ! i)" if "i < 16" for i
    using s2(3)[of i] s1(3)[of i] that by (auto simp: Let_def ex_live_def)
  have "ex_content c s2 i k = ex_content c s i k" if "i < 16" "ex_live s i" "k < 4096" for i k
    using o[OF that(1)] s2(2) s1(4)[OF that(1)] that sync
    by (auto simp: ex_content_def in_cache_def synced_def)
  moreover have "synced s2" if c
    using that o by (auto simp: synced_def ex_live_def in_cache_def split: if_splits)
  ultimately show ?thesis
    using s1(1) s2(1) o by (intro exI[of _ s1] exI[of _ s2]) auto
qed

theorem ex_remount_witness:
  "\<exists>s1 s2. ex_objstore_destroy True demo_store = Some (0, s1) \<and> ex_objstore_init True (s1\<lparr>ex_cache := zero_buf\<rparr>) = Some (0, s2)
    \<and> xkey (objs s2 ! 2) = 99 # replicate 63 0 \<and> ex_content True s2 2 0 = 7"
proof -
  have "ex_content True demo_store 2 0 = 7"
    by (simp add: ex_content_def demo_store_objs demo_xobj_def in_cache_def) (simp add: demo_store_def)
  moreover have "xkey (objs demo_store ! 2) = 99 # replicate 63 0" by (simp add: demo_store_objs demo_xobj_def)
  ultimately show ?thesis
    using ex_remount[OF demo_store_inv(1,2), of True zero_buf] demo_store_inv(3) demo_store_live(2) by fastforce
qed

text \<open>
  C40: A failed \<open>create\<close> can bring a removed object back: \<open>create_object\<close> claims a free entry before
  it has looked for the name, so that when the name turns up behind the entry it returns \<open>-1\<close>
  but leaves the entry in use, with the name its former object had.
\<close>

theorem ex_create_ghost:
  assumes inv: "ex_inv s" and ij: "i < j" "j < 16" and dup: "ex_matches key (objs s ! j)"
    and free: "xid (objs s ! i) = 0" "\<forall>k<i. xid (objs s ! k) \<noteq> 0"
    and first: "\<forall>k<j. \<not> ex_matches key (objs s ! k)"
    and gone: "ex_find_object_id (xkey (objs s ! i)) s = -1"
  shows "\<exists>s'. ex_create_object c key s = Some (-1, s') \<and> ex_find_object_id (xkey (objs s ! i)) s' = int i + 2"
proof -
  let ?t = "set_xobj i (\<lambda>ob. ob\<lparr>xid := of_nat (i + 2)\<rparr>) s"
  note l = ex_invD(1)[OF inv]
  have o: "objs ?t ! k = (if k = i then (objs s ! i)\<lparr>xid := of_nat (i + 2)\<rparr> else objs s ! k)" if "k < 16" for k
    using that l by (simp add: objs_set_xobj)
  have "ex_create_object c key s = Some (-1, ?t)"
    unfolding ex_create_object_def using create_scan_duplicate[OF l ij dup free(1)] free(2) first by simp
  moreover note v = ex_id_facts[of i]
  have "ex_find (xkey (objs s ! i)) ?t = Some i"
    using ex_find_none[OF gone inv] o ij v(1) by (intro ex_find_first) (auto simp: ex_matches_def strcmp_eq_def simp del: of_nat_add)
  then have "ex_find_object_id (xkey (objs s ! i)) ?t = int i + 2"
    using o[of i] ij v(2) by (simp add: ex_find_object_id_def del: of_nat_add)
  ultimately show ?thesis by blast
qed

theorem ex_create_ghost_witness:
  "\<exists>s'. ex_create_object True (99 # replicate 63 0) demo_store = Some (-1, s')
    \<and> ex_find_object_id (98 # replicate 63 0) demo_store = -1 \<and> ex_find_object_id (98 # replicate 63 0) s' = 3"
proof -
  have "ex_find (98 # replicate 63 0) demo_store = None"
    by (auto simp: ex_find_def find_None_iff demo_matches simp del: upt_Suc)
  then have g: "ex_find_object_id (98 # replicate 63 0) demo_store = -1" by (simp add: ex_find_object_id_def)
  have x: "xkey (objs demo_store ! 1) = 98 # replicate 63 0" "xid (objs demo_store ! 1) = 0" "xid (objs demo_store ! 0) \<noteq> 0"
    by (simp_all add: demo_store_objs demo_xobj_def)
  have "ex_matches (99 # replicate 63 0) (objs demo_store ! 2)" "\<forall>k<2. \<not> ex_matches (99 # replicate 63 0) (objs demo_store ! k)"
    by (simp_all add: demo_matches)
  from ex_create_ghost[OF demo_store_inv(1), of 1 2, OF _ _ this(1) x(2) _ this(2), of True, unfolded x(1)] show ?thesis
    using g x(3) by auto
qed

text \<open>
  C39: In the cached build a renamed object that is not in the cache loses its contents at the next
  unmount: \<open>rename\<close> marks it dirty, and unmounting then writes the page that the cache happens to
  hold for it over its block.
\<close>

theorem ex_rename_loses:
  assumes inv: "ex_inv s" and io: "ex_io_ok s" and i: "i < 16" "ex_find_object_id key s = int i + 2"
    and new: "length (cstr newname) \<le> 32" and live: "ex_live s i" and out: "\<not> in_cache (objs s ! i)"
  shows "\<exists>s1 s2. ex_rename_object key newname s = Some (0, s1) \<and> ex_objstore_destroy True s1 = Some (0, s2)
    \<and> ex_content True s i = ex_disk s (i + 2) \<and> ex_disk s2 (i + 2) = cache_slot s i"
proof -
  let ?f = "\<lambda>ob. ob\<lparr>xkey := ex_strcpy (xkey ob) newname, dirty := 1\<rparr>"
  have "ex_rename_object key newname s = Some (0, set_xobj i ?f s)"
    using i new by (simp add: ex_rename_object_def Let_def)
  moreover have p: "ex_inv (set_xobj i ?f s)" "ex_live (set_xobj i ?f s) i"
    using ex_inv_set[OF inv, of ?f i] new live by (simp_all add: ex_strcpy_def)
  moreover have "ex_io_ok (set_xobj i ?f s)" using io by (simp add: ex_io_ok_def)
  moreover have "dirty (objs (set_xobj i ?f s) ! i) \<noteq> 0" "cache_slot (set_xobj i ?f s) i = cache_slot s i"
    using i(1) ex_invD(1)[OF inv] by (simp_all add: objs_set_xobj cache_slot_def)
  ultimately show ?thesis
    using ex_destroy_ok[of "set_xobj i ?f s" True] i(1) out by (fastforce simp: ex_content_def)
qed

theorem ex_rename_loses_witness:
  "\<exists>s1 s2. ex_rename_object (97 # replicate 63 0) [100, 0] demo_store = Some (0, s1)
    \<and> ex_objstore_destroy True s1 = Some (0, s2) \<and> ex_content True demo_store 0 0 = 7 \<and> ex_disk s2 2 0 = 0"
proof -
  have "ex_find (97 # replicate 63 0) demo_store = Some 0" by (rule ex_find_first) (simp_all add: demo_matches)
  then have "ex_find_object_id (97 # replicate 63 0) demo_store = int 0 + 2"
    by (simp add: ex_find_object_id_def demo_store_objs demo_xobj_def)
  moreover have "ex_disk demo_store (0 + 2) 0 = 7" "cache_slot demo_store 0 0 = 0"
    by (simp_all add: demo_store_def cache_slot_def zero_buf_def)
  moreover have "length (cstr [100, 0]) \<le> 32" by (simp add: cstr_def)
  ultimately obtain s1 s2 where "ex_rename_object (97 # replicate 63 0) [100, 0] demo_store = Some (0, s1)"
    "ex_objstore_destroy True s1 = Some (0, s2)" "ex_content True demo_store 0 = ex_disk demo_store (0 + 2)"
    "ex_disk s2 (0 + 2) = cache_slot demo_store 0"
    using ex_rename_loses[OF demo_store_inv(1,2), of 0 "97 # replicate 63 0" "[100, 0]"] demo_store_live
    by auto
  then show ?thesis
    using \<open>ex_disk demo_store (0 + 2) 0 = 7\<close> \<open>cache_slot demo_store 0 0 = 0\<close>
    by (auto simp: numeral_2_eq_2)
qed

end
