(* ===== verification/ExampleFs.thy ===== *)
theory ExampleFs
  imports ExampleProps
begin

text \<open>
  The example file system: the handlers of \<open>assignment-4/example/objfs.c\<close>, which is the same text as
  \<open>assignment-4/objfs.c\<close>, linked with the example store. The store meets the contract
  \<open>object_directory\<close> of \<open>Objfs\<close>, so the lemmas of that locale hold for its handlers. It does not meet
  \<open>object_store\<close>: \<open>create\<close> of a name in use can change the table (\<open>ex_create_ghost\<close>).
\<close>

section \<open>The handlers\<close>

definition ex_objfs_getattr :: "bool \<Rightarrow> u32 \<Rightarrow> u32 \<Rightarrow> byte list \<Rightarrow> ex_state \<Rightarrow> (int \<times> stat) option" where
  "ex_objfs_getattr c = objfs_getattr (ex_ops c)"

definition ex_objfs_unlink :: "bool \<Rightarrow> byte list \<Rightarrow> ex_state \<Rightarrow> (int \<times> ex_state) option" where
  "ex_objfs_unlink c = objfs_unlink (ex_ops c)"

definition ex_objfs_rename_key :: "bool \<Rightarrow> byte list \<Rightarrow> byte list \<Rightarrow> ex_state \<Rightarrow> (int \<times> ex_state) option" where
  "ex_objfs_rename_key c = objfs_rename_key (ex_ops c)"

definition ex_objfs_create ::
    "bool \<Rightarrow> byte list \<Rightarrow> fuse_file_info \<Rightarrow> ex_state \<Rightarrow> (int \<times> fuse_file_info \<times> ex_state) option" where
  "ex_objfs_create c = objfs_create (ex_ops c)"

definition ex_objfs_open :: "bool \<Rightarrow> byte list \<Rightarrow> fuse_file_info \<Rightarrow> ex_state \<Rightarrow> int \<times> fuse_file_info" where
  "ex_objfs_open c = objfs_open (ex_ops c)"

definition ex_objfs_read ::
    "bool \<Rightarrow> buffer \<Rightarrow> u64 \<Rightarrow> int \<Rightarrow> fuse_file_info \<Rightarrow> ex_state \<Rightarrow> (int \<times> ex_state \<times> buffer) option" where
  "ex_objfs_read c = objfs_read (ex_ops c)"

definition ex_objfs_write :: "bool \<Rightarrow> buffer \<Rightarrow> u64 \<Rightarrow> int \<Rightarrow> fuse_file_info \<Rightarrow> ex_state \<Rightarrow> (int \<times> ex_state) option" where
  "ex_objfs_write c = objfs_write (ex_ops c)"

definition ex_objfs_release :: "bool \<Rightarrow> fuse_file_info \<Rightarrow> ex_state \<Rightarrow> int \<times> ex_state" where
  "ex_objfs_release c = objfs_release (ex_ops c)"

definition ex_objfs_init :: "bool \<Rightarrow> ex_state \<Rightarrow> ex_state option" where
  "ex_objfs_init c = objfs_init (ex_ops c)"

definition ex_objfs_destroy :: "bool \<Rightarrow> ex_state \<Rightarrow> ex_state option" where
  "ex_objfs_destroy c = objfs_destroy (ex_ops c)"

definition ex_objfs_operations :: "bool \<Rightarrow> u32 \<Rightarrow> u32 \<Rightarrow> ex_state fuse_operations" where
  "ex_objfs_operations c uid gid =
     \<lparr>fo_getattr = ex_objfs_getattr c uid gid, fo_create = ex_objfs_create c, fo_unlink = ex_objfs_unlink c,
      fo_open = ex_objfs_open c, fo_read = ex_objfs_read c, fo_write = ex_objfs_write c,
      fo_release = ex_objfs_release c, fo_init = ex_objfs_init c, fo_destroy = ex_objfs_destroy c,
      fo_rename = ex_objfs_rename_key c\<rparr>"

definition ex_objfs_main ::
    "(ex_state fuse_operations \<Rightarrow> ex_state \<Rightarrow> int) \<Rightarrow> os_startup \<Rightarrow> int option \<Rightarrow> bool \<Rightarrow> u32 \<Rightarrow> u32 \<Rightarrow> int \<Rightarrow>
     ex_state option \<Rightarrow> int" where
  "ex_objfs_main fuse_main os fstat_size c uid gid argc mem =
     (if argc < 2 then -1
      else case mem of None \<Rightarrow> -1
      | Some objfs \<Rightarrow>
          (case ex_do_init os fstat_size objfs of (r, objfs') \<Rightarrow>
             if r < 0 then -1 else fuse_main (ex_objfs_operations c uid gid) objfs'))"

section \<open>Names\<close>

definition ex_names :: "ex_state \<Rightarrow> nat \<Rightarrow> byte list option" where
  "ex_names s i = (if ex_live s i then Some (cstr (xkey (objs s ! i))) else None)"

definition ex_dir_inv :: "ex_state \<Rightarrow> bool" where
  "ex_dir_inv s \<longleftrightarrow> ex_inv s \<and> (\<forall>i j k. ex_names s i = Some k \<and> ex_names s j = Some k \<longrightarrow> i = j)"

lemma matches_names: "i < 16 \<Longrightarrow> ex_matches key (objs s ! i) \<longleftrightarrow> ex_names s i = Some (cstr key)"
  by (auto simp: ex_matches_def ex_names_def ex_live_def strcmp_eq_def)

lemma names_less: "ex_names s i = Some k \<Longrightarrow> i < 16 \<and> ex_live s i"
  by (auto simp: ex_names_def ex_live_def split: if_splits)

lemma find_names:
  assumes "ex_dir_inv s" "ex_names s i = Some (cstr key)"
  shows "ex_find key s = Some i"
proof -
  have "\<not> ex_matches key (objs s ! k)" if "k < i" for k
    using assms that names_less[OF assms(2)] unfolding ex_dir_inv_def by (metis matches_names nat_neq_iff order_less_trans)
  then show ?thesis using matches_names names_less assms(2) by (blast intro: ex_find_first)
qed

lemma find_object_id_names:
  assumes "ex_dir_inv s"
  shows "ex_find_object_id key s = int i + 2 \<longleftrightarrow> ex_names s i = Some (cstr key)"
    and "ex_find_object_id key s = -1 \<longleftrightarrow> (\<forall>i. ex_names s i \<noteq> Some (cstr key))"
proof -
  have inv: "ex_inv s" using assms by (simp add: ex_dir_inv_def)
  have id: "ex_find_object_id key s = int j + 2" if "ex_names s j = Some (cstr key)" for j
    using find_names[OF assms that] live_objid[OF inv] names_less[OF that] by (simp add: ex_find_object_id_def)
  have none: "ex_find_object_id key s = -1" if "\<forall>i. ex_names s i \<noteq> Some (cstr key)"
    using that matches_names by (auto simp: ex_find_object_id_def ex_find_def find_None_iff split: option.split
        dest!: find_Some_iff[THEN iffD1] simp del: upt_Suc)
  show "ex_find_object_id key s = int i + 2 \<longleftrightarrow> ex_names s i = Some (cstr key)"
  proof
    assume a: "ex_find_object_id key s = int i + 2"
    then obtain j where j: "ex_names s j = Some (cstr key)" using none by force
    then show "ex_names s i = Some (cstr key)" using id[OF j] a by simp
  qed (rule id)
  show "ex_find_object_id key s = -1 \<longleftrightarrow> (\<forall>i. ex_names s i \<noteq> Some (cstr key))"
    using id none by fastforce
qed

text \<open>Updates of one entry.\<close>

lemma ex_inv_entry:
  assumes "ex_inv s" "i < 46" "i < 16 \<Longrightarrow> xid (f (objs s ! i)) = 0 \<or> xid (f (objs s ! i)) = of_nat (i + 2)"
    "length (xkey (f (objs s ! i))) = 64"
  shows "ex_inv (set_xobj i f s)"
  using assms by (auto simp: ex_inv_def objs_set_xobj)

lemma ex_names_entry:
  assumes "ex_inv s" "i < 46"
  shows "ex_names (set_xobj i f s) j = (if j = i \<and> i < 16 then
      (if xid (f (objs s ! i)) = 0 then None else Some (cstr (xkey (f (objs s ! i))))) else ex_names s j)"
  using assms by (auto simp: ex_names_def ex_live_def ex_inv_def objs_set_xobj split: if_splits)

lemma ex_dir_inv_upd:
  assumes "ex_dir_inv s" "ex_inv s'" "ex_names s' = (ex_names s)(i := v)" "\<And>k j. v = Some k \<Longrightarrow> ex_names s j \<noteq> Some k"
  shows "ex_dir_inv s'"
  using assms unfolding ex_dir_inv_def by (auto split: if_splits)

lemma ex_strcpy_ok:
  assumes "length old = 64" "length (cstr new) < 64"
  shows "cstr (ex_strcpy old new) = cstr new" "length (ex_strcpy old new) = 64"
  using assms by (simp_all add: ex_strcpy_def cstr_no_nul)

lemma ex_create_new:
  assumes inv: "ex_dir_inv s" and key: "length (cstr key) < 64" "\<forall>i. ex_names s i \<noteq> Some (cstr key)"
    and room: "\<exists>i<16. xid (objs s ! i) = 0"
  shows "\<exists>i s'. ex_create_object c key s = Some (int i + 2, s') \<and> ex_dir_inv s' \<and> ex_names s i = None
    \<and> ex_names s' = (ex_names s)(i \<mapsto> cstr key) \<and> (ex_io_ok s \<longrightarrow> ex_io_ok s')"
proof -
  have e: "ex_inv s" using inv by (simp add: ex_dir_inv_def)
  define i where "i = (LEAST i. xid (objs s ! i) = 0)"
  have i: "i < 16" "xid (objs s ! i) = 0" "\<And>k. k < i \<Longrightarrow> xid (objs s ! k) \<noteq> 0"
    using room LeastI_ex[of "\<lambda>i. xid (objs s ! i) = 0"] Least_le[of "\<lambda>i. xid (objs s ! i) = 0"] not_less_Least
    unfolding i_def by (auto intro: le_less_trans)
  define t where "t = set_xobj i (\<lambda>ob. ob\<lparr>xid := of_nat (i + 2)\<rparr>) s"
  define u where "u = set_xobj i (\<lambda>ob. ob\<lparr>xkey := ex_strcpy (xkey ob) key\<rparr>) t"
  define s' where "s' = init_object_cached c 16 u"
  note l = ex_invD(1)[OF e]
  have nm: "\<not> ex_matches key (objs s ! k)" if "k < 16" for k using matches_names[OF that] key(2) by blast
  have "[0 ..< 16] = [0 ..< i] @ i # [Suc i ..< 16] @ []"
    using upt_add_eq_append[of 0 i "16 - i"] upt_conv_Cons[of i 16] i(1) by simp
  moreover have "ex_create_scan key ([0 ..< i] @ i # ks) None s = ex_create_scan key ks (Some i) t" for ks
    using i nm by (subst create_scan_skip) (auto simp: t_def)
  moreover have "ex_create_scan key ([Suc i ..< 16] @ []) (Some i) t = Inr (Some i, t)"
    using nm l by (subst create_scan_skip) (auto simp: t_def objs_set_xobj)
  ultimately have sc: "ex_create_scan key [0 ..< 16] None s = Inr (Some i, t)" by (simp del: upt_Suc)
  have ti: "objs t ! i = (objs s ! i)\<lparr>xid := of_nat (i + 2)\<rparr>" "length (objs t) = 46" "ex_inv t"
    using l i(1) ex_inv_entry[OF e, of i] ex_invD(3)[OF e, of i] by (simp_all add: t_def objs_set_xobj)
  have k: "cstr (ex_strcpy (xkey (objs t ! i)) key) = cstr key" "length (ex_strcpy (xkey (objs t ! i)) key) = 64"
    using ex_strcpy_ok[OF _ key(1)] ex_invD(3)[OF ti(3), of i] i(1) by simp_all
  have u: "ex_inv u" unfolding u_def by (rule ex_inv_entry[OF ti(3)]) (use i(1) ti k in auto)
  have s': "ex_inv s'" unfolding s'_def init_object_cached_def using ex_inv_set(1)[OF u] u by simp
  have si: "xid (objs s' ! i) = of_nat (i + 2)"
    using i(1) ti(1,2) by (auto simp: s'_def init_object_cached_def u_def objs_set_xobj)
  have "ex_names s' = (ex_names s)(i \<mapsto> cstr key)"
  proof
    fix j
    have "ex_names s' j = ex_names u j" using ex_names_entry[OF u, of 16] by (simp add: s'_def init_object_cached_def)
    also have "\<dots> = (if j = i then Some (cstr key) else ex_names t j)"
      using ex_names_entry[OF ti(3), of i] i(1) ti(1) k(1) ex_id_facts(1)[OF i(1)] by (auto simp: u_def simp del: of_nat_add)
    also have "\<dots> = ((ex_names s)(i \<mapsto> cstr key)) j"
      using ex_names_entry[OF e, of i] i(1) by (auto simp: t_def)
    finally show "ex_names s' j = ((ex_names s)(i \<mapsto> cstr key)) j" .
  qed
  moreover have "ex_names s i = None" using i(2) by (simp add: ex_names_def ex_live_def)
  moreover have "ex_create_object c key s = Some (int i + 2, s')"
    using sc key(1) si ex_id_facts(2)[OF i(1)]
    by (simp add: ex_create_object_def Let_def u_def[symmetric] s'_def[symmetric] del: of_nat_add)
  moreover have "ex_io_ok s \<longrightarrow> ex_io_ok s'" by (simp add: ex_io_ok_def s'_def init_object_cached_def u_def t_def)
  ultimately show ?thesis using ex_dir_inv_upd[OF inv s'] key(2) by blast
qed

lemma ex_destroy_named:
  assumes inv: "ex_dir_inv s" and i: "ex_names s i = Some (cstr key)"
  shows "\<exists>s'. ex_destroy_object c key s = (0, s') \<and> ex_dir_inv s' \<and> ex_names s' = (ex_names s)(i := None)"
proof -
  have e: "ex_inv s" "i < 16" using inv names_less[OF i] by (auto simp: ex_dir_inv_def)
  let ?r = "remove_object_cached c i s" and ?f = "\<lambda>ob. ob\<lparr>xid := 0, xsize := 0\<rparr>"
  have r: "ex_inv ?r" using ex_inv_set(1)[OF e(1)] e(1) by (simp add: remove_object_cached_def)
  have nr: "ex_names ?r = ex_names s"
    using ex_names_entry[OF e(1), of i] e(2) i names_less[OF i]
    by (auto simp: remove_object_cached_def fun_eq_iff ex_names_def ex_live_def)
  have "ex_inv (set_xobj i ?f ?r)" by (rule ex_inv_entry[OF r]) (use e(2) ex_invD(3)[OF r, of i] in auto)
  moreover have "ex_names (set_xobj i ?f ?r) = (ex_names s)(i := None)"
    using ex_names_entry[OF r, of i ?f] e(2) nr by auto
  moreover have "ex_destroy_object c key s = (0, set_xobj i ?f ?r)"
    using find_names[OF inv i] by (simp add: ex_destroy_object_def)
  ultimately show ?thesis using ex_dir_inv_upd[OF inv] by blast
qed

lemma ex_rename_named:
  assumes inv: "ex_dir_inv s" and i: "ex_names s i = Some (cstr key)" and new: "length (cstr new) \<le> 32"
    "\<forall>j. ex_names s j \<noteq> Some (cstr new)"
  shows "\<exists>s'. ex_rename_object key new s = Some (0, s') \<and> ex_dir_inv s' \<and> ex_names s' = (ex_names s)(i \<mapsto> cstr new)"
proof -
  have e: "ex_inv s" "i < 16" "ex_live s i" using inv names_less[OF i] by (auto simp: ex_dir_inv_def)
  let ?s = "set_xobj i (\<lambda>ob. ob\<lparr>xkey := ex_strcpy (xkey ob) new, dirty := 1\<rparr>) s"
  have k: "cstr (ex_strcpy (xkey (objs s ! i)) new) = cstr new" "length (ex_strcpy (xkey (objs s ! i)) new) = 64"
    using ex_strcpy_ok[of "xkey (objs s ! i)" new] ex_invD(3)[OF e(1), of i] e(2) new(1) by simp_all
  have "ex_rename_object key new s = Some (0, ?s)"
    using find_object_id_names(1)[OF inv, of key i] i e(2) new(1) by (simp add: ex_rename_object_def Let_def)
  moreover have "ex_inv ?s" by (rule ex_inv_entry[OF e(1)]) (use e k ex_invD(2)[OF e(1,3)] in auto)
  moreover have "ex_names ?s = (ex_names s)(i \<mapsto> cstr new)"
    using ex_names_entry[OF e(1), of i] e k(1) by (auto simp: ex_live_def)
  ultimately show ?thesis using ex_dir_inv_upd[OF inv] new(2) by blast
qed

lemma ex_fillup_named:
  assumes inv: "ex_dir_inv s" and i: "ex_names s i = Some k" and st: "st_ino st = of_nat (i + 2)"
  shows "\<exists>st'. ex_fillup_size_details st s = Some (0, st') \<and> st_ino st' = st_ino st"
proof -
  have e: "ex_inv s" "i < 16" "ex_live s i" using inv names_less[OF i] by (auto simp: ex_dir_inv_def)
  have "unat (st_ino st) = i + 2" unfolding st using e(2) by (intro unat_u64_of_nat) simp
  then show ?thesis using e(2) st ex_invD(2)[OF e(1,3)] by (auto simp: ex_fillup_size_details_def Let_def)
qed

interpretation ex: object_directory "ex_ops c" ex_dir_inv ex_names "\<lambda>k. length (cstr k) < 64"
    "\<lambda>k. length (cstr k) \<le> 32" "\<lambda>s. \<exists>i<16. xid (objs s ! i) = 0" for c
proof
  fix s :: ex_state and i j k and key new :: "byte list" and st :: stat
  show "i < 1000000" if "ex_names s i = Some k" using names_less[OF that] by simp
  show "i = j" if "ex_dir_inv s" "ex_names s i = Some k" "ex_names s j = Some k"
    using that unfolding ex_dir_inv_def by blast
  show "op_find_object_id (ex_ops c) key s = int i + 2 \<longleftrightarrow> ex_names s i = Some (cstr key)"
    "op_find_object_id (ex_ops c) key s = -1 \<longleftrightarrow> (\<forall>i. ex_names s i \<noteq> Some (cstr key))" if "ex_dir_inv s"
    using find_object_id_names[OF that] by (simp_all add: ex_ops_def)
  show "\<exists>i s'. op_create_object (ex_ops c) key s = Some (int i + 2, s') \<and> ex_dir_inv s' \<and> ex_names s i = None \<and>
      ex_names s' = (ex_names s)(i \<mapsto> cstr key)"
    if "ex_dir_inv s" "length (cstr key) < 64" "\<forall>i. ex_names s i \<noteq> Some (cstr key)" "\<exists>i<16. xid (objs s ! i) = 0"
    using ex_create_new[OF that, of c] by (simp add: ex_ops_def) blast
  show "\<exists>s'. op_destroy_object (ex_ops c) key s = Some (0, s') \<and> ex_dir_inv s' \<and> ex_names s' = (ex_names s)(i := None)"
    if "ex_dir_inv s" "ex_names s i = Some (cstr key)"
    using ex_destroy_named[OF that] by (simp add: ex_ops_def)
  show "\<exists>r s'. op_rename_object (ex_ops c) key new s = Some (r, s') \<and> 0 \<le> r \<and> ex_dir_inv s' \<and> ex_names s' = (ex_names s)(i \<mapsto> cstr new)"
    if "ex_dir_inv s" "length (cstr new) \<le> 32" "ex_names s i = Some (cstr key)" "\<forall>j. ex_names s j \<noteq> Some (cstr new)"
    using ex_rename_named[OF that(1,3,2,4)] by (simp add: ex_ops_def) (metis order_refl)
  show "\<exists>st'. op_fillup_size_details (ex_ops c) st s = Some (0, st') \<and> st_ino st' = st_ino st"
    if "ex_dir_inv s" "ex_names s i = Some k" "st_ino st = of_nat (i + 2)"
    using ex_fillup_named[OF that] by (simp add: ex_ops_def)
qed

section \<open>A file's life\<close>

lemma only_at_names:
  assumes "only_at i s s'" shows "ex_names s' = ex_names s" "ex_dir_inv s \<Longrightarrow> ex_dir_inv s'"
proof -
  have "xkey (objs s' ! j) = xkey (objs s ! j)" for j using assms by (cases "j = i") (simp_all add: only_at_def)
  then show n: "ex_names s' = ex_names s" by (simp add: ex_names_def only_at_inv(3)[OF assms] fun_eq_iff)
  show "ex_dir_inv s \<Longrightarrow> ex_dir_inv s'" using only_at_inv(1)[OF assms] n by (simp add: ex_dir_inv_def)
qed

text \<open>
  C38: A file of the example file system, in both builds: created under a name that is not in use,
  it opens with the handle it was created with, a read returns what was written (up to a block),
  and once it is unlinked it does not open any more.
\<close>

theorem ex_file_life:
  assumes inv: "ex_dir_inv s" and io: "ex_io_ok s" and key: "length (cstr key) < 64" "cstr key \<noteq> []"
      "\<forall>i. ex_names s i \<noteq> Some (cstr key)" and room: "\<exists>i<16. xid (objs s ! i) = 0" and n: "n \<le> 4096"
  shows "\<exists>fi s1 s2 s3 s4. ex_objfs_create c (47 # key) fi0 s = Some (0, fi, s1)
    \<and> ex_objfs_open c (47 # key) fi0 s1 = (0, fi)
    \<and> ex_objfs_write c buf (of_nat n) off fi s1 = Some (int n, s2)
    \<and> ex_objfs_read c old (of_nat n) off' fi s2 = Some (int n, s3, memcpy old 0 buf 0 n)
    \<and> ex_objfs_unlink c (47 # key) s3 = Some (0, s4)
    \<and> ex_objfs_open c (47 # key) fi0 s4 = (-ENOENT, fi0)"
proof -
  obtain i s1 where s1: "ex_create_object c key s = Some (int i + 2, s1)" "ex_dir_inv s1"
    "ex_names s1 = (ex_names s)(i \<mapsto> cstr key)" "ex_io_ok s1"
    using ex_create_new[OF inv key(1,3) room, of c] io by blast
  have ni: "ex_names s1 i = Some (cstr key)" using s1(3) by simp
  note li = names_less[OF ni]
  define fi where "fi = fi0\<lparr>fh := of_nat (i + 2)\<rparr>"
  have h: "c_int (uint (fh fi)) = int i + 2" unfolding fi_def using handle_c_int[of i] li by simp
  have sz: "c_int (uint (of_nat n :: u64)) = int n" "c_int (int n) = int n"
    using n size_c_int[of n] by simp_all
  have e1: "ex_inv s1" using s1(2) by (simp add: ex_dir_inv_def)
  obtain s2 where s2: "ex_objstore_write c (int i + 2) buf (int n) s1 off = Some (int n, s2)" "only_at i s1 s2"
    "\<And>k. k < 4096 \<Longrightarrow> ex_content c s2 i k = after_write c buf n (ex_content c s1 i) k"
    using ex_write_ok[OF e1 s1(4) _ n] li by blast
  note p = only_at_inv[OF s2(2)]
  obtain s3 where s3: "ex_objstore_read c (int i + 2) old (int n) s2 off' = Some (int n, s3, memcpy old 0 (ex_content c s2 i) 0 n)"
    "only_at i s2 s3"
    using ex_read_ok[OF p(1)[OF e1] p(2)[OF s1(4)] _ n] p(3) li by blast
  have "memcpy old 0 (ex_content c s2 i) 0 n = memcpy old 0 buf 0 n"
    using s2(3) n by (auto simp: memcpy_def after_write_def)
  then have rd: "ex_objfs_read c old (of_nat n) off' fi s2 = Some (int n, s3, memcpy old 0 buf 0 n)"
    using s3(1) h sz by (simp add: ex_objfs_read_def objfs_read_def ex_ops_def)
  have wr: "ex_objfs_write c buf (of_nat n) off fi s1 = Some (int n, s2)"
    using s2(1) h sz by (simp add: ex_objfs_write_def objfs_write_def ex_ops_def)
  have cr: "ex_objfs_create c (47 # key) fi0 s = Some (0, fi, s1)"
    using s1(1) by (simp add: ex_objfs_create_def objfs_create_def ex_ops_def fi_def)
  have op: "ex_objfs_open c (47 # key) fi0 s1 = (0, fi)"
    using ex.open_found[OF s1(2) key(1) ni] by (simp add: ex_objfs_open_def fi_def)
  have d3: "ex_dir_inv s3" "ex_names s3 i = Some (cstr key)"
    using only_at_names[OF s2(2)] only_at_names[OF s3(2)] s1(2) ni by simp_all
  from ex.unlink_gone[OF d3(1) key(1) d3(2) key(2), of c fi0] obtain s4 where
    "ex_objfs_unlink c (47 # key) s3 = Some (0, s4)" "ex_objfs_open c (47 # key) fi0 s4 = (-ENOENT, fi0)"
    unfolding ex_objfs_unlink_def ex_objfs_open_def by blast
  then show ?thesis using cr op wr rd by blast
qed

theorem ex_file_life_witness:
  "\<exists>fi s1 s2 s3. ex_objfs_create True [47, 100, 0] \<lparr>fh = 0\<rparr> demo_store = Some (0, fi, s1)
    \<and> ex_objfs_write True (\<lambda>_. 5) (of_nat 3) 0 fi s1 = Some (int 3, s2)
    \<and> ex_objfs_read True zero_buf (of_nat 3) 0 fi s2 = Some (int 3, s3, memcpy zero_buf 0 (\<lambda>_. 5) 0 3)"
proof -
  have nm: "ex_names demo_store i = (if i = 0 then Some [97] else if i = 2 then Some [99] else None)" for i
    by (auto simp: ex_names_def ex_live_def demo_store_objs demo_xobj_def cstr_def split: if_splits)
  then have "ex_dir_inv demo_store" using demo_store_inv(1) by (auto simp: ex_dir_inv_def split: if_splits)
  moreover have "\<exists>i<16. xid (objs demo_store ! i) = 0" by (rule exI[of _ 1]) (simp add: demo_store_objs demo_xobj_def)
  moreover have "cstr [100, 0] = [100]" by (simp add: cstr_def)
  moreover have "\<forall>i. ex_names demo_store i \<noteq> Some [100]" by (auto simp: nm)
  ultimately show ?thesis
    using ex_file_life[OF _ demo_store_inv(2), of "[100, 0]" 3 True "\<lparr>fh = 0\<rparr>" "\<lambda>_. 5" 0 zero_buf 0]
    by (simp del: of_nat_numeral) blast
qed

end
