(* ===== verification/Spec2Isabelle.thy ===== *)
theory Spec2Isabelle
  imports Paging Syscalls Switching Cloning AbstractFs Concurrent ExampleFs
begin

text \<open>
  A verification of the operating system assignments in \<open>src/\<close>: the object store file system of
  \<open>assignment-4\<close> with the smaller store of \<open>assignment-4/example\<close>, and the parts of the teaching
  kernel gemOS written for \<open>gemOS-a1\<close> (address spaces), \<open>gemOS-a2\<close> (system calls and exceptions)
  and \<open>gemOS-a3\<close> (scheduling and signals). The definitions translate the C sources function by
  function and keep their names; where two programs have functions of the same name, those of the
  example carry the prefix \<open>ex_\<close>.

  \<^bold>\<open>How the parts interact.\<close> The FUSE library calls the handlers of \<open>objfs.c\<close>. They call the object
  interface that \<open>lib.h\<close> declares (the record \<open>lib_ops\<close>), which \<open>objstore.c\<close> implements; it keeps the
  object table, two bitmaps and, when built with \<open>-DCACHE\<close>, a write-back block cache, and transfers
  blocks with \<open>read_block\<close> and \<open>write_block\<close> of \<open>lib.c\<close>. In gemOS, \<open>prepare_context_mm\<close> builds the
  page tables of a process, \<open>do_syscall\<close> and \<open>handle_page_fault\<close> change its segments and tables while
  it runs, and the timer tick, \<open>exit\<close>, \<open>sleep\<close> and \<open>clone\<close> decide which process runs. These kernel
  parts call code that is only present as object files: the frame allocator, \<open>osmap\<close>, the functions
  on the context table. That code is a parameter of the model, the records \<open>os\<close> of \<open>Frames\<close> and
  \<open>services\<close> of \<open>Sched\<close>, and what the sources rely on is stated as \<open>osmap_ok\<close>, \<open>frames_ok\<close>, \<open>services_ok\<close>
  and \<open>direct_mapped\<close>; concrete instances (\<open>demo_os\<close>, \<open>demo_sv\<close>) meet them.

  \<^bold>\<open>Conventions.\<close> C integers are words of their width, so that arithmetic wraps; statuses are \<open>int\<close>.
  Memory areas are functions from offsets to bytes. \<open>None\<close> is undefined behaviour: an access outside
  an array, a signed overflow. A Boolean first argument \<open>cached\<close> or \<open>c\<close> is the build flag \<open>CACHE\<close>.
  The device reports errors at given block numbers; \<open>io_ok\<close> says that there are none.

  \<^bold>\<open>The object store.\<close>
  \<^item> \<open>Prelude\<close>: integer types, byte buffers, C strings, little-endian encodings and their lemmas.
  \<^item> \<open>Blockdev\<close> (\<open>lib.c\<close>, \<open>lib.h\<close>): the state \<open>objfs_state\<close>, \<open>do_init\<close>, block transfers.
  \<^item> \<open>Blockcache\<close> (\<open>objstore.c\<close> 65--151): \<open>read_ch_blk\<close>, \<open>write_ch_blk\<close>, \<open>flush_ch_blk\<close>. The locale
    \<open>block_store\<close> is what the layers above rely on: a map from block numbers to blocks. Both builds
    refine it.
  \<^item> \<open>Bitmap\<close> (153--243): \<open>alloc_block\<close>, \<open>free_block\<close>, \<open>mark_obj_dirty\<close>; the locale \<open>block_allocator\<close>.
  \<^item> \<open>Objects\<close> (202--401): lookup, \<open>create_object\<close>, \<open>destroy_object\<close>, \<open>rename_object\<close> and the
    directory of names as a partial map. \<open>ObjectIO\<close> (403--635): \<open>objstore_write\<close>, \<open>objstore_read\<close>,
    \<open>fillup_size_details\<close>. \<open>Mount\<close> (637--762): \<open>objstore_init\<close>, \<open>objstore_destroy\<close>, with the on-disk
    layout of the structures.
  \<^item> \<open>Store\<close>, \<open>Contents\<close>, \<open>Writing\<close>, \<open>Reading\<close>: the invariant \<open>store_inv\<close> (names unique, no block in
    two places, all blocks marked used), the contents of an object as a function of the offset, and
    what the loops of write and read do to it; the locale \<open>pointer_array\<close> serves direct and indirect
    pointers alike. \<open>Demo\<close> is a concrete store for the witnesses.
  \<^item> \<open>Objstore\<close>: round trip of write and read, the frame of a write, exact release of blocks,
    remounting, the refinement by the cache, the behaviour of the name operations, and the cases in
    which the code goes wrong.
  \<^item> \<open>Objfs\<close> (\<open>objfs.c\<close>): the handlers over any \<open>lib_ops\<close>. The locale \<open>object_directory\<close> is the contract
    on names, \<open>object_store\<close> adds that a refused \<open>create\<close> changes nothing; \<open>objstore.c\<close> meets both.
  \<^item> \<open>AbstractFs\<close>: a specification without blocks, handles or caches, in which a file system maps names
    to partial maps from offsets to bytes. Handlers and store together refine it: every sequence of
    operations within the limits stated by \<open>admissible\<close> (short keys, room on the disk, writes that
    do not run into the overflow of \<open>update_block\<close>, reads of bytes that were written) returns what
    the specification returns.
  \<^item> \<open>Concurrent\<close> (153--200): \<open>alloc_block\<close> and \<open>free_block\<close> run by any number of threads, with program
    counters, the mutex \<open>blk_bmp_lk\<close> and one shared access for each step. The locale \<open>kept_by\<close> turns
    the preservation of a property by one step into its preservation by executions and is
    interpreted for the lock, the program counters and the marks. Mutual exclusion, no deadlock, a
    bound on every call, agreement with the sequential functions when nobody interferes, blocks of
    calls that follow each other differ, and blocks of overlapping calls may coincide.

  \<^bold>\<open>The example store.\<close> \<open>ExampleStore\<close> models \<open>example/objstore.c\<close> and \<open>example/lib.c\<close>;
  \<open>ExampleProps\<close> shows write and read, remounting, and two ways to lose or resurrect data; \<open>ExampleFs\<close>
  links the handlers with this store (\<open>example/objfs.c\<close> is the same text as \<open>objfs.c\<close>), interprets
  \<open>object_directory\<close> and follows a file from its creation to its removal.

  \<^bold>\<open>gemOS.\<close>
  \<^item> \<open>Frames\<close>: regions of physical memory (\<open>memory.h\<close>), pages, the log of frames handed out and
    returned, the walk of the hardware (\<open>table_of\<close>) and the invariant \<open>space\<close>: the tables of a process
    form a tree of distinct live frames. \<open>Levels\<close>: one level of a table walk that creates what is
    missing (\<open>level_step\<close>), all four of them (\<open>built\<close>), and the locale \<open>level_filler\<close> that turns a
    function for one level into the whole walk. It is interpreted for \<open>fill_entry\<close> of \<open>gemOS-a1\<close> and
    for \<open>fault_entry\<close> of \<open>gemOS-a2\<close>.
  \<^item> \<open>Paging\<close> (\<open>gemOS-a1/context_mm.c\<close>): the tables map code, data and stack and nothing else;
    \<open>cleanup_context_mm\<close> frees each frame once.
  \<^item> \<open>Syscalls\<close> (\<open>gemOS-a2/entry.c\<close>): \<open>write\<close>, \<open>expand\<close>, \<open>shrink\<close>, \<open>getpid\<close>, \<open>exit\<close>, division by zero and
    page faults: what is mapped and freed, that breaks stay in their segments, that the loop of
    \<open>shrink\<close> ends, and where the code uses a wrong bound or a truncated index. The theorem on page
    faults is for addresses whose last-level table exists: a table that the handler adds is not
    cleared, and the frame allocator does not promise cleared frames.
  \<^item> \<open>Sched\<close> (\<open>gemOS-a3/schedule.c\<close>): the model of all handlers on contexts, memory and registers.
    \<open>Scheduling\<close>: the step relation of the kernel and its invariant, fairness of round robin
    while nobody sleeps, the length of a sleep. \<open>Switching\<close>: the registers across a tick, with and without a switch and with
    an alarm. \<open>Cloning\<close>: the printer \<open>num_to_str\<close> against a reference, the child that \<open>clone\<close> makes.

  \<^bold>\<open>Bounds and termination.\<close> No definition uses fuel. All loops are recursion over lists of indices
  or terminate by a measure, but for the loop of \<open>shrink\<close>, which is a partial function with values in
  an option type; \<open>sys_shrink_returns\<close> shows that it returns. Numbers such as 1000000 objects, 32768
  cache slots or 16 contexts are those of the sources.

  \<^bold>\<open>Not modelled.\<close> Interleavings under the other mutexes of \<open>objstore.c\<close>: \<open>ch_lock\<close> for the cache,
  \<open>obj_bmp_lk\<close> for the dirty bits, \<open>obj_cl_lk\<close> for creating and renaming, \<open>rd_lock\<close> for reading. Writing and
  removing objects take neither of the last two; the model of all these functions is sequential.
  Debug output (\<open>dprintf\<close> in \<open>assignment-4\<close>, the messages of
  \<open>schedule.c\<close>; those of \<open>entry.c\<close> are in \<open>console\<close>), TLB invalidation and the
  hardware registers that the compiler chooses for operands of inline assembly. \<open>gemfs.c\<close>, an earlier front end that is not built and does not match
  \<open>lib.h\<close>. The test programs and the user programs of gemOS, which only issue system calls; \<open>fuse.h\<close>
  and the headers of drivers, which declare code that is not in the repository as source.
\<close>

end
